(* ===== verification/Am_Prelude.thy ===== *)
theory Am_Prelude
  imports Main "HOL-Library.Word"
begin

text \<open>
  Shared vocabulary of the development: machine-integer types, the parts of the C++20
  header \<open>bit\<close> that the allocator uses, and generic facts on lists, maps and words that
  several components need.  The named collections below are filled by the component
  theories and drive their proofs.
\<close>

unbundle bit_operations_syntax

named_theorems config_defs \<open>compile-time constants\<close>
named_theorems layout_defs \<open>address and layout computations\<close>
named_theorems wf_intros \<open>introduction rules of component invariants\<close>

type_synonym u8 = "8 word"
type_synonym u16 = "16 word"
type_synonym u32 = "32 word"
type_synonym u64 = "64 word"
type_synonym addr = nat
type_synonym page_id = nat

abbreviation SIZE_MAX :: nat where
  "SIZE_MAX \<equiv> 2 ^ 64 - 1"

section \<open>The C++ bit header\<close>

text \<open>\<open>std::bit_width\<close>: the number of bits needed to represent the value; 0 for 0.\<close>

fun bit_width :: "nat \<Rightarrow> nat" where
  "bit_width n = (if n = 0 then 0 else Suc (bit_width (n div 2)))"

declare bit_width.simps [simp del]

text \<open>\<open>std::popcount\<close> and \<open>std::has_single_bit\<close> on \<open>size_t\<close>.\<close>

definition popcount :: "u64 \<Rightarrow> nat" where
  "popcount w = length (filter (bit w) [0..<64])"

definition has_single_bit :: "u64 \<Rightarrow> bool" where
  "has_single_bit w \<longleftrightarrow> popcount w = 1"

text \<open>\<open>std::countr_zero\<close> on \<open>uint64_t\<close>: 64 for the value 0.\<close>

definition countr_zero :: "u64 \<Rightarrow> nat" where
  "countr_zero w = length (takeWhile (\<lambda>i. \<not> bit w i) [0..<64])"

text \<open>\<open>x & ~(a - 1)\<close> for a power of two \<open>a\<close>, as the layout code writes it.\<close>

definition align_down :: "nat \<Rightarrow> nat \<Rightarrow> nat" where [layout_defs]:
  "align_down x a = x - x mod a"

lemma bit_width_0 [simp]: "bit_width 0 = 0"
  by (simp add: bit_width.simps)

lemma bit_width_pos: "0 < n \<Longrightarrow> 0 < bit_width n"
  by (simp add: bit_width.simps)

lemma bit_width_bounds: "0 < n \<Longrightarrow> 2 ^ (bit_width n - 1) \<le> n \<and> n < 2 ^ bit_width n"
proof (induction n rule: bit_width.induct)
  case (1 n)
  show ?case
  proof (cases "n div 2 = 0")
    case True
    with "1.prems" have "n = 1" by auto
    then show ?thesis by (simp add: bit_width.simps)
  next
    case False
    with 1 have IH: "2 ^ (bit_width (n div 2) - 1) \<le> n div 2" "n div 2 < 2 ^ bit_width (n div 2)"
      by auto
    from False have "0 < bit_width (n div 2)" by (simp add: bit_width_pos)
    then have "(2::nat) ^ bit_width (n div 2) = 2 * 2 ^ (bit_width (n div 2) - 1)"
      by (metis Suc_diff_1 power_Suc)
    with IH have "2 ^ bit_width (n div 2) \<le> n" "n < 2 * 2 ^ bit_width (n div 2)"
      by linarith+
    with "1.prems" show ?thesis by (subst (1 2) bit_width.simps) simp
  qed
qed

lemma bit_width_unique:
  assumes "2 ^ m \<le> n" and "n < 2 ^ Suc m"
  shows "bit_width n = Suc m"
proof -
  from assms(1) have "0 < n" by (rule less_le_trans [rotated]) simp
  note b = bit_width_bounds [OF this]
  from \<open>0 < n\<close> obtain k where k: "bit_width n = Suc k"
    using bit_width_pos gr0_conv_Suc by blast
  from b k have "2 ^ k \<le> n" "n < 2 ^ Suc k" by auto
  with assms have "(2::nat) ^ k < 2 ^ Suc m" "(2::nat) ^ m < 2 ^ Suc k" by linarith+
  then have "k < Suc m" "m < Suc k" by (auto simp: power_strict_increasing_iff simp del: power_Suc)
  with k show ?thesis by simp
qed

lemma popcount_card: "popcount w = card {i. bit w i}"
proof -
  have "{i. bit w i} = set (filter (bit w) [0..<64])"
    by (auto dest: bit_imp_le_length)
  then show ?thesis
    unfolding popcount_def by (metis distinct_card distinct_filter distinct_upt)
qed

lemma countr_zero_eqI:
  assumes "bit w k" and "\<And>i. i < k \<Longrightarrow> \<not> bit w i"
  shows "countr_zero w = k"
proof -
  have "k < 64" using assms(1) by (auto dest: bit_imp_le_length)
  then have "[0..<64] = [0..<k] @ k # [Suc k..<64]"
    by (metis append_Cons append_Nil upt_add_eq_append upt_conv_Cons zero_le less_imp_le_nat le_add_diff_inverse)
  moreover have "takeWhile (\<lambda>i. \<not> bit w i) ([0..<k] @ k # [Suc k..<64]) = [0..<k]"
    using assms by (subst takeWhile_append2) auto
  ultimately show ?thesis by (simp add: countr_zero_def)
qed

lemma countr_zero_least: "w \<noteq> 0 \<Longrightarrow> countr_zero w = (LEAST i. bit w i)"
proof -
  assume "w \<noteq> 0"
  then have "\<exists>i. bit w i" by (metis bit_eq_iff bit_0_eq bot_fun_def bot_bool_def)
  then show ?thesis
    by (intro countr_zero_eqI) (auto intro: LeastI_ex dest: not_less_Least)
qed

lemma bit_countr_zero: "w \<noteq> 0 \<Longrightarrow> bit w (countr_zero w)"
  by (metis LeastI_ex bit_eq_iff bit_0_eq bot_apply bot_bool_def countr_zero_least)

lemma countr_zero_less: "w \<noteq> 0 \<Longrightarrow> countr_zero w < 64"
  using bit_countr_zero bit_imp_le_length by fastforce

lemma has_single_bit_power:
  assumes "has_single_bit w"
  shows "unat w = 2 ^ countr_zero w"
proof -
  from assms have "card {i. bit w i} = 1" by (simp add: has_single_bit_def popcount_card)
  then obtain k where k: "{i. bit w i} = {k}" by (rule card_1_singletonE)
  then have "bit w k" "\<And>i. i < k \<Longrightarrow> \<not> bit w i" by auto
  then have cz: "countr_zero w = k" by (rule countr_zero_eqI)
  have "k < 64" using \<open>bit w k\<close> by (auto dest: bit_imp_le_length)
  have "w = push_bit k 1"
    using k by (intro bit_eqI) (auto simp: bit_exp_iff)
  then have "w = of_nat (2 ^ k)" by simp
  moreover have "(2::nat) ^ k < 2 ^ 64" using \<open>k < 64\<close> by (simp only: power_strict_increasing_iff)
  ultimately show ?thesis using cz by (simp add: unat_of_nat del: of_nat_power)
qed

section \<open>Lists\<close>

lemma nth_map_upt [simp]: "i < n \<Longrightarrow> map f [0..<n] ! i = f i"
  by simp

lemma remove1_distinct_set [simp]: "distinct xs \<Longrightarrow> set (remove1 x xs) = set xs - {x}"
  by (rule set_remove1_eq)

lemma and_mask_mod: "m = 2 ^ n - 1 \<Longrightarrow> (x :: nat) AND m = x mod 2 ^ n"
  by (simp add: take_bit_eq_mod [symmetric] take_bit_eq_mask mask_eq_exp_minus_1)

lemma align_up_bounds:
  assumes "0 < a"
  shows "x \<le> align_down (x + a - 1) a" and "align_down (x + a - 1) a < x + a" and "align_down (x + a - 1) a mod a = 0"
proof -
  have e: "align_down (x + a - 1) a = (x + a - 1) div a * a"
    by (simp add: align_down_def minus_mod_eq_div_mult)
  have "(x + a - 1) mod a < a" "(x + a - 1) mod a \<le> x + a - 1" using assms by simp_all
  then show "x \<le> align_down (x + a - 1) a" "align_down (x + a - 1) a < x + a"
    using assms unfolding align_down_def by linarith+
  show "align_down (x + a - 1) a mod a = 0" unfolding e by simp
qed

end
