(* ===== verification/Size_Class.thy ===== *)
theory Size_Class
  imports Am_Prelude
begin

text \<open>
  The constants of \<open>config.h\<close> and the size-class geometry of \<open>size_class.h\<close>: the piecewise
  mapping from request sizes to buckets, its inverse, the compile-time tables and the batch
  and page-transfer policies.  All quantities stay far below \<open>2^64\<close>, so \<open>size_t\<close> is \<open>nat\<close>;
  the narrowing casts of the tables are written out as \<open>mod\<close>.
\<close>

section \<open>Configuration\<close>

definition PAGE_SIZE :: nat where [config_defs]: "PAGE_SIZE = 4096"
definition PAGE_SHIFT :: nat where [config_defs]: "PAGE_SHIFT = 12"
definition HUGE_PAGE_SIZE :: nat where [config_defs]: "HUGE_PAGE_SIZE = 2 * 1024 * 1024"
definition ALIGNMENT :: nat where [config_defs]: "ALIGNMENT = 16"
definition MAX_TC_SIZE :: nat where [config_defs]: "MAX_TC_SIZE = 32 * 1024"
definition kStepsPerGroup :: nat where [config_defs]: "kStepsPerGroup = 4"
definition kStepShift :: nat where [config_defs]: "kStepShift = 2"
definition kSmallSizeThreshold :: nat where [config_defs]: "kSmallSizeThreshold = 1024"
definition MAX_PAGE_NUM :: nat where [config_defs]: "MAX_PAGE_NUM = 128"
definition kMaxBatchSize :: nat where [config_defs]: "kMaxBatchSize = 512"

section \<open>The size ladder\<close>

definition CalculateIndex :: "nat \<Rightarrow> nat" where
  "CalculateIndex original_size =
     (if original_size = 0 then 0
      else if original_size \<le> 128 then drop_bit 3 (original_size - 1)
      else
        let msb = bit_width (original_size - 1) - 1;
            group_idx = msb - 7;
            base_idx = 16 + push_bit kStepShift group_idx;
            shift = msb - kStepShift;
            group_offset = drop_bit shift (original_size - 1) AND (kStepsPerGroup - 1)
        in base_idx + group_offset)"

definition CalculateSize :: "nat \<Rightarrow> nat" where
  "CalculateSize idx =
     (if idx < 16 then push_bit 3 (idx + 1)
      else
        let relative_idx = idx - 16;
            group_idx = drop_bit kStepShift relative_idx;
            step_idx = relative_idx AND (kStepsPerGroup - 1);
            msb = group_idx + 7;
            base_size = push_bit msb 1;
            step_size = push_bit (msb - kStepShift) 1
        in base_size + (step_idx + 1) * step_size)"

definition kNumSizeClasses :: nat where
  "kNumSizeClasses = CalculateIndex MAX_TC_SIZE + 1"

definition small_index_table :: "nat list" where
  "small_index_table = map (\<lambda>sz. CalculateIndex sz mod 2 ^ 8) [0..<kSmallSizeThreshold + 1]"

definition size_table :: "nat list" where
  "size_table = map (\<lambda>idx. CalculateSize idx mod 2 ^ 32) [0..<kNumSizeClasses]"

definition batch_of :: "nat \<Rightarrow> nat" where
  "batch_of norm =
     (let batch = MAX_TC_SIZE div norm;
          batch = (if batch < 2 then 2 else batch);
          batch = (if batch > kMaxBatchSize then kMaxBatchSize else batch)
      in batch)"

definition batch_table :: "nat list" where
  "batch_table = map (\<lambda>idx. batch_of (size_table ! idx) mod 2 ^ 16) [0..<kNumSizeClasses]"

definition move_pages_of :: "nat \<Rightarrow> nat \<Rightarrow> nat" where
  "move_pages_of norm batch =
     (let total_objs = push_bit 3 batch;
          total_bytes = total_objs * norm;
          total_bytes = (if total_bytes < 32 * 1024 then 32 * 1024 else total_bytes);
          pages = drop_bit PAGE_SHIFT (total_bytes + PAGE_SIZE - 1)
      in (if pages > MAX_PAGE_NUM then MAX_PAGE_NUM else pages))"

definition move_page_table :: "nat list" where
  "move_page_table =
     map (\<lambda>idx. move_pages_of (size_table ! idx) (batch_table ! idx) mod 2 ^ 16)
       [0..<kNumSizeClasses]"

section \<open>SizeClass\<close>

definition Index :: "nat \<Rightarrow> nat" where
  "Index original_size =
     (if original_size > MAX_TC_SIZE then SIZE_MAX
      else if original_size \<le> kSmallSizeThreshold then small_index_table ! original_size
      else CalculateIndex original_size)"

definition Size :: "nat \<Rightarrow> nat" where
  "Size idx = size_table ! idx"

text \<open>\<open>SafeSize\<close> aborts the process on an index out of range: \<open>None\<close>.\<close>

definition SafeSize :: "nat \<Rightarrow> nat option" where
  "SafeSize idx = (if idx \<ge> kNumSizeClasses then None else Some (size_table ! idx))"

definition RoundUp :: "nat \<Rightarrow> nat" where
  "RoundUp original_size =
     (let idx = Index original_size
      in if idx = SIZE_MAX then original_size else size_table ! idx)"

definition CalculateBatchSize :: "nat \<Rightarrow> nat" where
  "CalculateBatchSize aligned_size =
     (if aligned_size = 0 \<or> aligned_size > MAX_TC_SIZE then 0
      else batch_table ! Index aligned_size)"

definition GetMovePageNum :: "nat \<Rightarrow> nat" where
  "GetMovePageNum aligned_size =
     (if aligned_size = 0 \<or> aligned_size > MAX_TC_SIZE then 0
      else move_page_table ! Index aligned_size)"

section \<open>The ladder as a Galois connection\<close>

lemma and_3: "(n::nat) AND 3 = n mod 4"
  using take_bit_eq_mask [of 2 n] by (simp add: take_bit_eq_mod mask_eq_exp_minus_1)

lemmas ladder_defs = CalculateIndex_def CalculateSize_def kStepShift_def kStepsPerGroup_def
  drop_bit_eq_div push_bit_eq_mult and_3 Let_def

lemma CalculateSize_small: "i < 16 \<Longrightarrow> CalculateSize i = 8 * (i + 1)"
  by (simp add: ladder_defs)

lemma CalculateSize_group: "q < 4 \<Longrightarrow> CalculateSize (16 + 4 * g + q) = (5 + q) * 2 ^ (g + 5)"
proof -
  assume "q < 4"
  then have "(16 + 4 * g + q - 16) div 4 = g" "(16 + 4 * g + q - 16) mod 4 = q" by auto
  then show ?thesis
    by (simp add: ladder_defs algebra_simps power_add)
qed

lemma CalculateIndex_group:
  assumes "q < 4" and "(4 + q) * 2 ^ (g + 5) < s" and "s \<le> (5 + q) * 2 ^ (g + 5)"
  shows "CalculateIndex s = 16 + 4 * g + q"
proof -
  let ?d = "(2::nat) ^ (g + 5)"
  have d: "32 \<le> ?d" by (simp add: power_add)
  have lo: "(4 + q) * ?d \<le> s - 1" and hi: "s - 1 < (5 + q) * ?d" using assms by linarith+
  have "4 * ?d \<le> (4 + q) * ?d" "(5 + q) * ?d \<le> 8 * ?d"
    using assms(1) by (intro mult_right_mono; simp)+
  with lo hi have "4 * ?d \<le> s - 1" "s - 1 < 8 * ?d" by linarith+
  then have bw: "bit_width (s - 1) = Suc (g + 7)"
    by (intro bit_width_unique) (simp_all add: power_add)
  have "128 < s" using \<open>4 * ?d \<le> s - 1\<close> d by linarith
  have "(s - 1) div ?d = 4 + q"
    using lo hi by (intro div_nat_eqI) (simp_all add: algebra_simps)
  then have "(s - 1) div 2 ^ (5 + g) = 4 + q" by (simp add: add.commute)
  moreover have "(4 + q) mod 4 = q" using assms(1) by simp
  moreover have "g + 7 - 2 = g + 5" by simp
  ultimately show ?thesis
    using \<open>128 < s\<close> bw by (simp add: ladder_defs add.commute [of _ g] del: One_nat_def)
qed

lemma group_exists:
  assumes "128 < (s::nat)"
  obtains g q where "q < 4" and "(4 + q) * 2 ^ (g + 5) < s" and "s \<le> (5 + q) * 2 ^ (g + 5)"
proof -
  let ?m = "bit_width (s - 1) - 1"
  have b: "2 ^ ?m \<le> s - 1" "s - 1 < 2 ^ bit_width (s - 1)"
    using bit_width_bounds [of "s - 1"] assms by auto
  have bw: "bit_width (s - 1) = Suc ?m" using bit_width_pos [of "s - 1"] assms by simp
  have "(2::nat) ^ 7 < 2 ^ Suc ?m" using b(2) bw assms by simp
  then have "7 < Suc ?m" by (rule power_less_imp_less_exp [rotated]) simp
  then obtain g where g: "?m = g + 7" by (metis add.commute le_Suc_ex less_Suc_eq_le)
  let ?d = "(2::nat) ^ (g + 5)"
  have bb: "4 * ?d \<le> s - 1" "s - 1 < 8 * ?d" using b bw g by (simp_all add: power_add)
  define k where "k = (s - 1) div ?d"
  have "4 \<le> k" "k < 8" unfolding k_def using bb
    by (simp_all add: less_eq_div_iff_mult_less_eq div_less_iff_less_mult)
  have kd: "k * ?d \<le> s - 1" "s - 1 < k * ?d + ?d"
    unfolding k_def using dividend_less_div_times [of ?d "s - 1"] by (simp_all add: add.commute)
  show thesis
  proof (rule that [of "k - 4" g])
    show "k - 4 < 4" using \<open>k < 8\<close> by simp
    show "(4 + (k - 4)) * 2 ^ (g + 5) < s" using kd(1) \<open>4 \<le> k\<close> assms by simp
    have "(5 + (k - 4)) * ?d = k * ?d + ?d" using \<open>4 \<le> k\<close>
      by (simp add: algebra_simps) 
    then show "s \<le> (5 + (k - 4)) * 2 ^ (g + 5)" using kd(2) assms by linarith
  qed
qed

lemma index_group_exists:
  assumes "16 \<le> (i::nat)"
  obtains g q where "q < 4" and "i = 16 + 4 * g + (q::nat)"
  using that [of "(i - 16) mod 4" "(i - 16) div 4"] assms by simp

lemma CalculateSize_Suc: "CalculateSize i < CalculateSize (Suc i)"
proof (cases "i < 16")
  case True
  then consider "Suc i < 16" | "i = 15" by linarith
  then show ?thesis
  proof cases
    case 2
    then show ?thesis using CalculateSize_group [of 0 0] by (simp add: CalculateSize_small)
  qed (simp add: CalculateSize_small)
next
  case False
  then obtain g q where i: "q < 4" "i = 16 + 4 * g + q" using index_group_exists [of i] by (metis not_less)
  then consider "Suc q < 4" | "q = 3" by linarith
  then show ?thesis
  proof cases
    case 1
    then show ?thesis using i CalculateSize_group [of "Suc q" g] CalculateSize_group [of q g] by simp
  next
    case 2
    then show ?thesis using i CalculateSize_group [of 0 "Suc g"] CalculateSize_group [of 3 g]
      by (simp add: power_add)
  qed
qed

lemma CalculateSize_strict_mono: "strict_mono CalculateSize"
  by (rule strict_mono_Suc_iff [THEN iffD2]) (simp add: CalculateSize_Suc)

lemma CalculateIndex_bracket:
  assumes "0 < s"
  shows "s \<le> CalculateSize (CalculateIndex s)"
    and "0 < CalculateIndex s \<Longrightarrow> CalculateSize (CalculateIndex s - 1) < s"
proof -
  have "s \<le> CalculateSize (CalculateIndex s) \<and>
    (0 < CalculateIndex s \<longrightarrow> CalculateSize (CalculateIndex s - 1) < s)"
  proof (cases "s \<le> 128")
    case True
    then have idx: "CalculateIndex s = (s - 1) div 8" using assms by (simp add: ladder_defs)
    have "(s - 1) div 8 < 16" using True by (simp add: div_less_iff_less_mult)
    then show ?thesis unfolding idx using assms by (auto simp: CalculateSize_small)
  next
    case False
    then obtain g q where gq: "q < 4" "(4 + q) * 2 ^ (g + 5) < s" "s \<le> (5 + q) * 2 ^ (g + 5)"
      using group_exists [of s] by (metis not_less)
    then have idx: "CalculateIndex s = 16 + 4 * g + q" by (rule CalculateIndex_group)
    have "CalculateSize (16 + 4 * g + q - 1) = (4 + q) * 2 ^ (g + 5)"
    proof (cases q)
      case (Suc p)
      then show ?thesis using gq(1) CalculateSize_group [of p g] by (simp add: add.assoc)
    next
      case 0
      show ?thesis
      proof (cases g)
        case 0
        with \<open>q = 0\<close> show ?thesis by (simp add: CalculateSize_small)
      next
        case (Suc h)
        then have "16 + 4 * g + q - 1 = 16 + 4 * h + 3" using \<open>q = 0\<close> by simp
        then show ?thesis using CalculateSize_group [of 3 h] Suc \<open>q = 0\<close> by (simp add: power_add)
      qed
    qed
    then show ?thesis unfolding idx using gq CalculateSize_group [OF gq(1), of g] by simp
  qed
  then show "s \<le> CalculateSize (CalculateIndex s)"
    and "0 < CalculateIndex s \<Longrightarrow> CalculateSize (CalculateIndex s - 1) < s" by auto
qed

text \<open>Index and size form a Galois connection between requests and buckets.\<close>

lemma CalculateIndex_le_iff:
  assumes "0 < s"
  shows "CalculateIndex s \<le> i \<longleftrightarrow> s \<le> CalculateSize i"
proof
  assume "CalculateIndex s \<le> i"
  then have "CalculateSize (CalculateIndex s) \<le> CalculateSize i"
    by (simp add: strict_mono_less_eq [OF CalculateSize_strict_mono])
  with CalculateIndex_bracket(1) [OF assms] show "s \<le> CalculateSize i" by simp
next
  assume s: "s \<le> CalculateSize i"
  show "CalculateIndex s \<le> i"
  proof (rule ccontr)
    assume "\<not> CalculateIndex s \<le> i"
    then have "i \<le> CalculateIndex s - 1" "0 < CalculateIndex s" by auto
    then have "CalculateSize i < s"
      using CalculateIndex_bracket(2) [OF assms]
      by (meson le_less_trans strict_mono_less_eq [OF CalculateSize_strict_mono])
    with s show False by simp
  qed
qed

section \<open>Tables\<close>

lemma CalculateIndex_MAX: "CalculateIndex 32768 = 47"
  using CalculateIndex_group [of 3 7 32768] by simp

lemma kNumSizeClasses_eq: "kNumSizeClasses = 48"
  by (simp add: kNumSizeClasses_def MAX_TC_SIZE_def CalculateIndex_MAX)

lemma CalculateIndex_less_48: "s \<le> MAX_TC_SIZE \<Longrightarrow> CalculateIndex s < 48"
  using CalculateIndex_le_iff [of s 47] CalculateSize_group [of 3 7]
  by (cases "s = 0") (auto simp: MAX_TC_SIZE_def CalculateIndex_def)

lemma CalculateSize_le_MAX: "i < kNumSizeClasses \<Longrightarrow> CalculateSize i \<le> MAX_TC_SIZE"
  using strict_mono_less_eq [OF CalculateSize_strict_mono, of i 47] CalculateSize_group [of 3 7]
  by (simp add: MAX_TC_SIZE_def kNumSizeClasses_eq)

lemma CalculateSize_pos: "0 < CalculateSize i"
  using strict_mono_less_eq [OF CalculateSize_strict_mono, of 0 i] CalculateSize_small [of 0]
  by simp

lemma Index_eq: "s \<le> MAX_TC_SIZE \<Longrightarrow> Index s = CalculateIndex s"
  using CalculateIndex_less_48 [of s]
  by (auto simp: Index_def small_index_table_def simp del: upt_Suc)

lemma Index_oversize: "MAX_TC_SIZE < s \<Longrightarrow> Index s = SIZE_MAX"
  by (simp add: Index_def)

lemma Index_less: "s \<le> MAX_TC_SIZE \<Longrightarrow> Index s < kNumSizeClasses"
  by (simp add: Index_eq CalculateIndex_less_48 kNumSizeClasses_eq)

lemma Index_0: "Index 0 = 0"
  by (simp add: Index_eq CalculateIndex_def)

lemma Size_eq: "i < kNumSizeClasses \<Longrightarrow> Size i = CalculateSize i"
  using CalculateSize_le_MAX [of i]
  by (simp add: Size_def size_table_def MAX_TC_SIZE_def)

lemma RoundUp_eq: "s \<le> MAX_TC_SIZE \<Longrightarrow> RoundUp s = Size (Index s)"
  using Index_less [of s]
  by (simp add: RoundUp_def Size_def kNumSizeClasses_eq)

lemma CalculateSize_waste:
  assumes "0 < s"
  shows "CalculateSize (CalculateIndex s) - s < 8 \<or> 4 * (CalculateSize (CalculateIndex s) - s) < s"
proof (cases "s \<le> 128")
  case True
  then have "CalculateIndex s = (s - 1) div 8" "(s - 1) div 8 < 16"
    using assms by (simp_all add: ladder_defs div_less_iff_less_mult)
  then show ?thesis using assms by (simp add: CalculateSize_small) linarith
next
  case False
  then obtain g q where gq: "q < 4" "(4 + q) * 2 ^ (g + 5) < s" "s \<le> (5 + q) * 2 ^ (g + 5)"
    using group_exists [of s] by (metis not_less)
  then have "CalculateSize (CalculateIndex s) = (5 + q) * 2 ^ (g + 5)"
    by (simp add: CalculateIndex_group CalculateSize_group del: add_mult_distrib2)
  moreover have "(5 + q) * 2 ^ (g + 5) = (4 + q) * 2 ^ (g + 5) + (2::nat) ^ (g + 5)"
    by (simp add: algebra_simps)
  moreover have "4 * 2 ^ (g + 5) \<le> (4 + q) * (2::nat) ^ (g + 5)" by simp
  ultimately show ?thesis using gq by linarith
qed

text \<open>The compile-time tables, evaluated once; witnesses rewrite with these equations.\<close>

lemma upt_48: "[0..<48] = [0, 1, 2, 3, 4, 5, 6, 7, 8, 9, 10, 11, 12, 13, 14, 15, 16, 17, 18, 19, 20, 21, 22,
    23, 24, 25, 26, 27, 28, 29, 30, 31, 32, 33, 34, 35, 36, 37, 38, 39, 40, 41, 42, 43,
    44, 45, 46, 47]"
  by (simp add: upt_rec)

lemma size_table_eq: "size_table = [8, 16, 24, 32, 40, 48, 56, 64, 72, 80, 88, 96, 104, 112, 120, 128, 160, 192, 224,
    256, 320, 384, 448, 512, 640, 768, 896, 1024, 1280, 1536, 1792, 2048, 2560, 3072,
    3584, 4096, 5120, 6144, 7168, 8192, 10240, 12288, 14336, 16384, 20480, 24576,
    28672, 32768]"
  unfolding size_table_def kNumSizeClasses_eq upt_48 by (simp add: ladder_defs)

lemma batch_table_eq: "batch_table = [512, 512, 512, 512, 512, 512, 512, 512, 455, 409, 372, 341, 315, 292, 273, 256,
    204, 170, 146, 128, 102, 85, 73, 64, 51, 42, 36, 32, 25, 21, 18, 16, 12, 10, 9, 8,
    6, 5, 4, 4, 3, 2, 2, 2, 2, 2, 2, 2]"
  unfolding batch_table_def kNumSizeClasses_eq upt_48
  by (simp add: size_table_eq batch_of_def kMaxBatchSize_def MAX_TC_SIZE_def)

lemma move_page_table_eq: "move_page_table = [8, 16, 24, 32, 40, 48, 56, 64, 64, 64, 64, 64, 64, 64, 64, 64, 64, 64, 64, 64, 64,
    64, 64, 64, 64, 63, 63, 64, 63, 63, 63, 64, 60, 60, 63, 64, 60, 60, 56, 64, 60, 48,
    56, 64, 80, 96, 112, 128]"
  unfolding move_page_table_def kNumSizeClasses_eq upt_48
  by (simp add: size_table_eq batch_table_eq move_pages_of_def push_bit_eq_mult drop_bit_eq_div
      PAGE_SHIFT_def PAGE_SIZE_def MAX_PAGE_NUM_def)

section \<open>The interface the caches rely on\<close>

text \<open>
  What ThreadCache, CentralCache and Span need of the size classes: a Galois connection
  between requests and buckets, within the table bounds.
\<close>

locale size_ladder =
  fixes idx :: "nat \<Rightarrow> nat" and sz :: "nat \<Rightarrow> nat" and n :: nat and mx :: nat
  assumes idx_less: "s \<le> mx \<Longrightarrow> idx s < n"
    and galois: "0 < s \<Longrightarrow> s \<le> mx \<Longrightarrow> i < n \<Longrightarrow> idx s \<le> i \<longleftrightarrow> s \<le> sz i"
    and sz_pos: "i < n \<Longrightarrow> 0 < sz i"
    and sz_le: "i < n \<Longrightarrow> sz i \<le> mx"
    and sz_less: "i < j \<Longrightarrow> j < n \<Longrightarrow> sz i < sz j"
begin

lemma sz_idx_ge: "0 < s \<Longrightarrow> s \<le> mx \<Longrightarrow> s \<le> sz (idx s)"
  using galois idx_less by blast

lemma sz_mono: "i \<le> j \<Longrightarrow> j < n \<Longrightarrow> sz i \<le> sz j"
  using sz_less [of i j] by (cases "i = j") auto

lemma least_fit: "0 < s \<Longrightarrow> s \<le> mx \<Longrightarrow> i < n \<Longrightarrow> s \<le> sz i \<Longrightarrow> sz (idx s) \<le> sz i"
  using galois sz_mono by blast

lemma idx_sz: "i < n \<Longrightarrow> idx (sz i) = i"
proof (rule antisym)
  assume i: "i < n"
  show le: "idx (sz i) \<le> i" using i galois sz_pos sz_le by blast
  show "i \<le> idx (sz i)"
  proof (rule ccontr)
    assume "\<not> i \<le> idx (sz i)"
    then have "sz (idx (sz i)) < sz i" using i sz_less by simp
    with sz_idx_ge [of "sz i"] i sz_pos sz_le show False by fastforce
  qed
qed

lemma idx_round: "0 < s \<Longrightarrow> s \<le> mx \<Longrightarrow> idx (sz (idx s)) = idx s"
  by (simp add: idx_sz idx_less)

end

interpretation ladder: size_ladder Index Size kNumSizeClasses MAX_TC_SIZE
proof unfold_locales
  fix s i assume "0 < s" "s \<le> MAX_TC_SIZE" "i < kNumSizeClasses"
  then show "Index s \<le> i \<longleftrightarrow> s \<le> Size i"
    by (simp add: Index_eq Size_eq CalculateIndex_le_iff)
qed (simp_all add: Index_less Size_eq CalculateSize_pos CalculateSize_le_MAX
    strict_mono_less [OF CalculateSize_strict_mono])

section \<open>Properties\<close>





end
