(* ===== verification/Am_Span.thy ===== *)
theory Am_Span
  imports Size_Class
begin

text \<open>
  \<open>Span\<close> of \<open>span.h\<close> and \<open>span.cpp\<close>: page-range metadata and the in-page allocation bitmap.
  The bitmap words that \<open>Init\<close> places at the start of the page range are the field
  \<open>bitmap\<close>; an access outside of those words would touch object memory, so operations
  return \<open>None\<close> there.  Unsigned fields are \<open>nat\<close> with the casts written as \<open>mod\<close>;
  \<open>page_num << PAGE_SHIFT\<close> is a 32-bit shift in the source.  The intrusive links are
  the subject of \<open>Span_List\<close>.
\<close>

section \<open>Span\<close>

record span =
  start_page_idx :: nat
  page_num :: nat
  flags :: u16
  size_class_idx :: nat
  aligned_obj_size :: nat
  capacity :: nat
  use_count :: nat
  scan_cursor :: nat
  obj_offset :: nat
  owner_shard_id :: nat
  last_used_time_ms :: nat
  bitmap :: "u64 list"

definition new_span :: "nat \<Rightarrow> nat \<Rightarrow> span" where
  "new_span start_idx pages =
     \<lparr>start_page_idx = start_idx, page_num = pages, flags = 0, size_class_idx = 0,
      aligned_obj_size = 0, capacity = 0, use_count = 0, scan_cursor = 0, obj_offset = 0,
      owner_shard_id = 0, last_used_time_ms = 0, bitmap = []\<rparr>"

definition kUsedMask :: u16 where "kUsedMask = push_bit 0 1"
definition kCommittedMask :: u16 where "kCommittedMask = push_bit 1 1"

definition IsUsed :: "span \<Rightarrow> bool" where
  "IsUsed sp \<longleftrightarrow> flags sp AND kUsedMask \<noteq> 0"

definition IsCommitted :: "span \<Rightarrow> bool" where
  "IsCommitted sp \<longleftrightarrow> flags sp AND kCommittedMask \<noteq> 0"

definition SetUsed :: "bool \<Rightarrow> span \<Rightarrow> span" where
  "SetUsed used sp =
     sp\<lparr>flags := (flags sp AND NOT kUsedMask) OR (if used then kUsedMask else 0)\<rparr>"

definition SetCommitted :: "bool \<Rightarrow> span \<Rightarrow> span" where
  "SetCommitted committed sp =
     sp\<lparr>flags := (flags sp AND NOT kCommittedMask) OR (if committed then kCommittedMask else 0)\<rparr>"

definition GetPageBaseAddr :: "span \<Rightarrow> addr" where
  "GetPageBaseAddr sp = push_bit PAGE_SHIFT (start_page_idx sp)"

definition GetBitmapNum :: "span \<Rightarrow> nat" where
  "GetBitmapNum sp = drop_bit 6 (capacity sp + 63)"

definition GetDataBasePtr :: "span \<Rightarrow> addr" where
  "GetDataBasePtr sp = GetPageBaseAddr sp + obj_offset sp"

section \<open>Init\<close>

definition init_total_bytes :: "span \<Rightarrow> nat" where [layout_defs]:
  "init_total_bytes sp = push_bit PAGE_SHIFT (page_num sp) mod 2 ^ 32"

definition init_max_objs :: "nat \<Rightarrow> nat \<Rightarrow> nat" where [layout_defs]:
  "init_max_objs total_bytes obj_size = (total_bytes * 8) div ((obj_size * 8 + 1) mod 2 ^ 32)"

definition init_bitmap_num :: "nat \<Rightarrow> nat \<Rightarrow> nat" where [layout_defs]:
  "init_bitmap_num total_bytes obj_size = drop_bit 6 (init_max_objs total_bytes obj_size + 64 - 1)"

definition init_data_start :: "span \<Rightarrow> nat \<Rightarrow> addr" where
  "init_data_start sp bitmap_num =
     align_down (GetPageBaseAddr sp + bitmap_num * 8 + ALIGNMENT - 1) ALIGNMENT"

definition init_capacity :: "addr \<Rightarrow> addr \<Rightarrow> nat \<Rightarrow> nat" where [layout_defs]:
  "init_capacity data_start data_end obj_size =
     (if data_start \<ge> data_end then 0 else (data_end - data_start) div obj_size mod 2 ^ 32)"

definition init_bitmap :: "nat \<Rightarrow> nat \<Rightarrow> u64 list" where
  "init_bitmap cap bitmap_num =
     (let full_bitmap_num = cap div 64; tail_bits = cap AND 63
      in map (\<lambda>i. if i < full_bitmap_num then NOT 0
                  else if i = full_bitmap_num then
                    (if tail_bits = 0 then 0 else push_bit tail_bits 1 - 1)
                  else 0) [0..<bitmap_num])"

text \<open>\<open>None\<close>: the fill loop would write past the bitmap words.\<close>

definition Init :: "nat \<Rightarrow> span \<Rightarrow> span option" where
  "Init aligned_object_size sp =
     (let obj_size = aligned_object_size mod 2 ^ 32;
          total_bytes = init_total_bytes sp;
          bitmap_num = init_bitmap_num total_bytes obj_size;
          data_start = init_data_start sp bitmap_num;
          data_end = GetPageBaseAddr sp + total_bytes;
          cap = init_capacity data_start data_end obj_size
      in if cap div 64 > bitmap_num then None
         else Some (sp\<lparr>aligned_obj_size := obj_size,
                       size_class_idx := Index obj_size mod 2 ^ 16,
                       obj_offset := (data_start - GetPageBaseAddr sp) mod 2 ^ 32,
                       capacity := cap,
                       bitmap := init_bitmap cap bitmap_num,
                       use_count := 0,
                       scan_cursor := 0\<rparr>))"

section \<open>AllocObject and FreeObject\<close>

text \<open>The scan loop: the first word in \<open>[i, n)\<close> with a free bit; \<open>None\<close> outside of the bitmap.\<close>

function AllocScan :: "u64 list \<Rightarrow> nat \<Rightarrow> nat \<Rightarrow> nat option option" where
  "AllocScan bm i n =
     (if i < n then
        (if i \<ge> length bm then None
         else if bm ! i = 0 then AllocScan bm (Suc i) n
         else Some (Some i))
      else Some None)"
  by pat_completeness auto
termination
  by (relation "measure (\<lambda>(bm, i, n). n - i)") auto

declare AllocScan.simps [simp del]

definition AllocObject :: "span \<Rightarrow> (span \<times> addr option) option" where
  "AllocObject sp =
     (if use_count sp \<ge> capacity sp then Some (sp, None)
      else case AllocScan (bitmap sp) (scan_cursor sp) (GetBitmapNum sp) of
        None \<Rightarrow> None
      | Some None \<Rightarrow> Some (sp, None)
      | Some (Some i) \<Rightarrow>
          let bit_pos = countr_zero (bitmap sp ! i);
              val = bitmap sp ! i AND NOT (push_bit bit_pos 1);
              global_obj_idx = i * 64 + bit_pos
          in Some (sp\<lparr>bitmap := (bitmap sp)[i := val],
                      use_count := (use_count sp + 1) mod 2 ^ 32,
                      scan_cursor := (if val = 0 then i + 1 else i) mod 2 ^ 32\<rparr>,
                   Some (GetDataBasePtr sp + global_obj_idx * aligned_obj_size sp)))"

text \<open>
  \<open>FreeObject\<close> as compiled with \<open>NDEBUG\<close> (the debug checks abort instead of continuing);
  \<open>None\<close> when the divisor is 0 or the word is outside of the bitmap.
\<close>

definition object_index :: "nat \<Rightarrow> nat \<Rightarrow> nat" where
  "object_index offset obj_size =
     (if has_single_bit (of_nat obj_size) then drop_bit (countr_zero (of_nat obj_size)) offset
      else offset div obj_size)"

definition FreeObject :: "addr \<Rightarrow> span \<Rightarrow> span option" where
  "FreeObject ptr sp =
     (let offset = (ptr + 2 ^ 64 - GetDataBasePtr sp) mod 2 ^ 64;
          global_obj_idx = object_index offset (aligned_obj_size sp);
          bitmap_idx = drop_bit 6 global_obj_idx mod 2 ^ 32;
          bit_pos = global_obj_idx AND 63
      in if aligned_obj_size sp = 0 \<or> bitmap_idx \<ge> length (bitmap sp) then None
         else Some (sp\<lparr>bitmap := (bitmap sp)[bitmap_idx :=
                                   bitmap sp ! bitmap_idx OR push_bit bit_pos 1],
                       use_count := (use_count sp + 2 ^ 32 - 1) mod 2 ^ 32,
                       scan_cursor := min (scan_cursor sp) bitmap_idx\<rparr>))"

section \<open>The set of free slots\<close>

definition free_bits :: "u64 list \<Rightarrow> nat set" where
  "free_bits bm = {i. i < 64 * length bm \<and> bit (bm ! (i div 64)) (i mod 64)}"

lemma finite_free_bits [simp]: "finite (free_bits bm)"
  by (rule finite_subset [of _ "{..<64 * length bm}"]) (auto simp: free_bits_def)

lemma below_Min_free: "i < Min (free_bits bm) \<Longrightarrow> i \<notin> free_bits bm"
  by (meson Min_le finite_free_bits not_less)

lemma div_mod_64_eq: "b < 64 \<Longrightarrow> i = k * 64 + b \<longleftrightarrow> i div 64 = k \<and> i mod 64 = (b::nat)"
  by auto

lemma free_bits_clear:
  assumes "k < length bm" and "b < 64"
  shows "free_bits (bm[k := bm ! k AND NOT (push_bit b 1)]) = free_bits bm - {k * 64 + b}"
proof (rule set_eqI)
  fix i
  show "i \<in> free_bits (bm[k := bm ! k AND NOT (push_bit b 1)]) \<longleftrightarrow> i \<in> free_bits bm - {k * 64 + b}"
  proof (cases "i div 64 = k")
    case True
    have "i < 64 * length bm" using True assms(1) by linarith
    with True assms show ?thesis
      by (auto simp: free_bits_def bit_simps div_mod_64_eq [OF assms(2)])
  next
    case False
    then show ?thesis by (auto simp: free_bits_def div_mod_64_eq [OF assms(2)])
  qed
qed

lemma free_bits_set:
  assumes "k < length bm" and "b < 64"
  shows "free_bits (bm[k := bm ! k OR push_bit b 1]) = insert (k * 64 + b) (free_bits bm)"
proof (rule set_eqI)
  fix i
  show "i \<in> free_bits (bm[k := bm ! k OR push_bit b 1]) \<longleftrightarrow> i \<in> insert (k * 64 + b) (free_bits bm)"
  proof (cases "i div 64 = k")
    case True
    have "i < 64 * length bm" using True assms(1) by linarith
    with True assms show ?thesis
      by (auto simp: free_bits_def bit_simps div_mod_64_eq [OF assms(2)])
  next
    case False
    then show ?thesis by (auto simp: free_bits_def div_mod_64_eq [OF assms(2)])
  qed
qed

lemma word_zero_no_free:
  assumes "j < length bm"
  shows "bm ! j = 0 \<longleftrightarrow> (\<forall>b < 64. j * 64 + b \<notin> free_bits bm)"
proof
  assume "\<forall>b < 64. j * 64 + b \<notin> free_bits bm"
  with assms have "\<forall>b<64. \<not> bit (bm ! j) b" by (auto simp: free_bits_def)
  then show "bm ! j = 0" by (intro bit_eqI) auto
qed (auto simp: free_bits_def)

lemma bit_in_free_bits: "j < length bm \<Longrightarrow> b < 64 \<Longrightarrow> j * 64 + b \<in> free_bits bm \<longleftrightarrow> bit (bm ! j) b"
  by (auto simp: free_bits_def)

lemma AllocScan_Some:
  "AllocScan bm i n = Some (Some k) \<Longrightarrow>
     i \<le> k \<and> k < n \<and> k < length bm \<and> bm ! k \<noteq> 0 \<and> (\<forall>j. i \<le> j \<and> j < k \<longrightarrow> bm ! j = 0)"
proof (induction bm i n rule: AllocScan.induct)
  case (1 bm i n)
  from "1.prems" have inb: "i < n" "i < length bm"
    by (simp_all add: AllocScan.simps [of bm i n] split: if_splits)
  show ?case
  proof (cases "bm ! i = 0")
    case True
    with 1 inb show ?thesis
      by (auto simp: AllocScan.simps [of bm i n] le_less_Suc_eq Suc_le_eq) (metis le_neq_implies_less)
  next
    case False
    with 1 inb show ?thesis by (auto simp: AllocScan.simps [of bm i n])
  qed
qed

lemma AllocScan_finds:
  assumes "i \<le> k" "k < n" "n \<le> length bm" "bm ! k \<noteq> 0"
  shows "\<exists>j. AllocScan bm i n = Some (Some j)"
  using assms
proof (induction bm i n rule: AllocScan.induct)
  case (1 bm i n)
  show ?case
  proof (cases "bm ! i = 0")
    case True
    with "1.prems" have "i < k" by (metis le_neq_implies_less)
    with 1 True show ?thesis by (auto simp: AllocScan.simps [of bm i n])
  next
    case False
    with "1.prems" show ?thesis by (auto simp: AllocScan.simps [of bm i n])
  qed
qed

definition slot_addr :: "span \<Rightarrow> nat \<Rightarrow> addr" where
  "slot_addr sp i = GetDataBasePtr sp + i * aligned_obj_size sp"

abbreviation free_slots :: "span \<Rightarrow> nat set" where
  "free_slots sp \<equiv> free_bits (bitmap sp)"

definition wf_span :: "span \<Rightarrow> bool" where
  "wf_span sp \<longleftrightarrow>
     0 < aligned_obj_size sp \<and> aligned_obj_size sp < 2 ^ 32 \<and>
     GetBitmapNum sp \<le> length (bitmap sp) \<and>
     free_bits (bitmap sp) \<subseteq> {..<capacity sp} \<and>
     use_count sp + card (free_bits (bitmap sp)) = capacity sp \<and>
     (\<forall>j < scan_cursor sp. j < length (bitmap sp) \<longrightarrow> bitmap sp ! j = 0) \<and>
     8 * length (bitmap sp) \<le> obj_offset sp \<and>
     obj_offset sp + capacity sp * aligned_obj_size sp \<le> page_num sp * PAGE_SIZE \<and>
     capacity sp < 2 ^ 32 \<and>
     (start_page_idx sp + page_num sp) * PAGE_SIZE \<le> 2 ^ 48"

lemma wf_spanD:
  assumes "wf_span sp"
  shows wf_size: "0 < aligned_obj_size sp" "aligned_obj_size sp < 2 ^ 32"
    and wf_bitmap: "GetBitmapNum sp \<le> length (bitmap sp)"
    and wf_free: "free_slots sp \<subseteq> {..<capacity sp}"
    and wf_count: "use_count sp + card (free_slots sp) = capacity sp"
    and wf_cursor: "\<forall>j < scan_cursor sp. j < length (bitmap sp) \<longrightarrow> bitmap sp ! j = 0"
    and wf_offset: "8 * length (bitmap sp) \<le> obj_offset sp"
    and wf_fits: "obj_offset sp + capacity sp * aligned_obj_size sp \<le> page_num sp * PAGE_SIZE"
    and wf_capacity: "capacity sp < 2 ^ 32"
    and wf_range: "(start_page_idx sp + page_num sp) * PAGE_SIZE \<le> 2 ^ 48"
  using assms unfolding wf_span_def by simp_all

lemma GetBitmapNum_covers: "i < capacity sp \<Longrightarrow> i div 64 < GetBitmapNum sp"
  by (simp add: GetBitmapNum_def drop_bit_eq_div)

lemma wf_full_iff: "wf_span sp \<Longrightarrow> use_count sp \<ge> capacity sp \<longleftrightarrow> free_slots sp = {}"
  using wf_count [of sp] card_0_eq [OF finite_free_bits, of "bitmap sp"] by linarith

lemma AllocObject_full: "wf_span sp \<Longrightarrow> free_slots sp = {} \<Longrightarrow> AllocObject sp = Some (sp, None)"
  using wf_full_iff [of sp] by (simp add: AllocObject_def)

lemma AllocScan_Min:
  assumes wf: "wf_span sp" and ne: "free_slots sp \<noteq> {}"
  shows "AllocScan (bitmap sp) (scan_cursor sp) (GetBitmapNum sp) = Some (Some (Min (free_slots sp) div 64))"
    and "countr_zero (bitmap sp ! (Min (free_slots sp) div 64)) = Min (free_slots sp) mod 64"
    and "bitmap sp ! (Min (free_slots sp) div 64) \<noteq> 0"
proof -
  let ?m = "Min (free_slots sp)" and ?bm = "bitmap sp"
  have m: "?m \<in> free_slots sp" using ne by simp
  have least: "\<And>i. i < ?m \<Longrightarrow> i \<notin> free_slots sp" by (rule below_Min_free)
  have k: "?m div 64 < length ?bm" and b: "bit (?bm ! (?m div 64)) (?m mod 64)"
    using m by (auto simp: free_bits_def)
  then show nz: "?bm ! (?m div 64) \<noteq> 0" by auto
  have cap: "?m < capacity sp" using m wf by (auto simp: wf_span_def)
  have cur: "scan_cursor sp \<le> ?m div 64"
    using wf_cursor [OF wf] nz k by (meson not_less)
  have zeros: "\<And>j. j < ?m div 64 \<Longrightarrow> ?bm ! j = 0"
  proof -
    fix j assume j: "j < ?m div 64"
    then have "\<forall>b<64. j * 64 + b < ?m" by linarith
    then show "?bm ! j = 0" using least j k by (subst word_zero_no_free) auto
  qed
  from AllocScan_finds [OF cur GetBitmapNum_covers [OF cap] _ nz] wf
  obtain j where j: "AllocScan ?bm (scan_cursor sp) (GetBitmapNum sp) = Some (Some j)"
    by (auto simp: wf_span_def)
  from AllocScan_Some [OF this] zeros cur nz have "j = ?m div 64"
    by (metis linorder_neqE_nat)
  with j show "AllocScan ?bm (scan_cursor sp) (GetBitmapNum sp) = Some (Some (?m div 64))" by simp
  show "countr_zero (?bm ! (?m div 64)) = ?m mod 64"
  proof (rule countr_zero_eqI [OF b])
    fix i assume i: "i < ?m mod 64"
    then have "i < 64" "?m div 64 * 64 + i < ?m"
      using div_mult_mod_eq [of ?m 64] mod_less_divisor [of 64 ?m] by linarith+
    then show "\<not> bit (?bm ! (?m div 64)) i" using least bit_in_free_bits [OF k] by blast
  qed
qed

lemma AllocObject_ok:
  assumes wf: "wf_span sp" and ne: "free_slots sp \<noteq> {}"
  defines "m \<equiv> Min (free_slots sp)"
  obtains sp' where "AllocObject sp = Some (sp', Some (slot_addr sp m))"
    and "wf_span sp'" and "free_slots sp' = free_slots sp - {m}"
    and "\<And>i. slot_addr sp' i = slot_addr sp i" and "capacity sp' = capacity sp"
    and "aligned_obj_size sp' = aligned_obj_size sp" and "start_page_idx sp' = start_page_idx sp"
    and "page_num sp' = page_num sp" and "flags sp' = flags sp"
    and "use_count sp' = use_count sp + 1"
proof -
  let ?k = "m div 64" and ?b = "m mod 64" and ?bm = "bitmap sp"
  note scan = AllocScan_Min [OF wf ne, folded m_def]
  have m: "m \<in> free_slots sp" using ne unfolding m_def by simp
  have k: "?k < length ?bm" using m by (auto simp: free_bits_def)
  have mkb: "?k * 64 + ?b = m" by simp
  let ?val = "?bm ! ?k AND NOT (push_bit ?b 1)"
  let ?sp' = "sp\<lparr>bitmap := ?bm[?k := ?val], use_count := use_count sp + 1,
     scan_cursor := (if ?val = 0 then ?k + 1 else ?k)\<rparr>"
  have fs: "free_slots ?sp' = free_slots sp - {m}"
    using free_bits_clear [OF k, of ?b] mkb by simp
  have uc: "use_count sp < capacity sp" using wf_full_iff [OF wf] ne by simp
  have kcap: "?k < capacity sp" "capacity sp < 2 ^ 32"
    using m wf_free [OF wf] wf_capacity [OF wf] by (auto intro: le_less_trans [OF div_le_dividend])
  have card: "card (free_slots sp - {m}) + 1 = card (free_slots sp)"
    using m by (metis Suc_eq_plus1 card_Suc_Diff1 finite_free_bits)
  have "AllocObject sp = Some (?sp', Some (slot_addr sp m))"
    using scan uc kcap by (simp add: AllocObject_def slot_addr_def Let_def)
  moreover have "wf_span ?sp'"
  proof -
    have "\<forall>j < scan_cursor ?sp'. j < length (bitmap ?sp') \<longrightarrow> bitmap ?sp' ! j = 0"
    proof (intro allI impI)
      fix j assume j: "j < scan_cursor ?sp'" "j < length (bitmap ?sp')"
      show "bitmap ?sp' ! j = 0"
      proof (cases "j = ?k")
        case True
        with j show ?thesis by (auto split: if_splits)
      next
        case False
        with j have "j < ?k" by (auto split: if_splits)
        then have "\<forall>b < 64. j * 64 + b < m" by linarith
        then have "\<forall>b < 64. j * 64 + b \<notin> free_slots ?sp'"
          using fs below_Min_free [of _ "bitmap sp", folded m_def] by blast
        then show ?thesis using j(2) word_zero_no_free by blast
      qed
    qed
    moreover have "use_count ?sp' + card (free_slots ?sp') = capacity ?sp'"
      unfolding fs using wf_count [OF wf] card by simp
    moreover have "free_slots ?sp' \<subseteq> {..<capacity ?sp'}" unfolding fs using wf_free [OF wf] by auto
    ultimately show ?thesis using wf by (simp add: wf_span_def GetBitmapNum_def)
  qed
  ultimately show thesis using fs
    by (intro that [of ?sp']) (simp_all add: slot_addr_def GetDataBasePtr_def GetPageBaseAddr_def)
qed

lemma object_index_eq: "s < 2 ^ 64 \<Longrightarrow> object_index (i * s) s = (if s = 0 then 0 else i)"
proof -
  assume s: "s < 2 ^ 64"
  then have u: "unat (of_nat s :: u64) = s" by (simp add: unat_of_nat)
  show ?thesis
  proof (cases "has_single_bit (of_nat s)")
    case True
    then have "s = 2 ^ countr_zero (of_nat s)" using has_single_bit_power [OF True] u by simp
    then have s2: "2 ^ countr_zero (of_nat s) = s" and "s \<noteq> 0"
      by (simp, metis power_not_zero zero_neq_numeral)
    then have "drop_bit (countr_zero (of_nat s)) (i * s) = i"
      unfolding drop_bit_eq_div s2 by simp
    with \<open>s \<noteq> 0\<close> show ?thesis using True by (simp add: object_index_def)
  next
    case False
    then show ?thesis by (simp add: object_index_def)
  qed
qed

lemma and_63: "(n::nat) AND 63 = n mod 64"
  using take_bit_eq_mask [of 6 n] by (simp add: take_bit_eq_mod mask_eq_exp_minus_1)

lemma FreeObject_ok:
  assumes wf: "wf_span sp" and i: "i < capacity sp" and used: "i \<notin> free_slots sp"
  obtains sp' where "FreeObject (slot_addr sp i) sp = Some sp'"
    and "wf_span sp'" and "free_slots sp' = insert i (free_slots sp)"
    and "\<And>i. slot_addr sp' i = slot_addr sp i" and "capacity sp' = capacity sp"
    and "aligned_obj_size sp' = aligned_obj_size sp" and "start_page_idx sp' = start_page_idx sp"
    and "page_num sp' = page_num sp" and "flags sp' = flags sp"
    and "use_count sp = use_count sp' + 1"
proof -
  let ?k = "i div 64" and ?b = "i mod 64" and ?bm = "bitmap sp"
  have k: "?k < length ?bm" using GetBitmapNum_covers [OF i] wf_bitmap [OF wf] by simp
  have "i * aligned_obj_size sp < capacity sp * aligned_obj_size sp"
    using i wf_size(1) [OF wf] by simp
  also have "\<dots> \<le> (start_page_idx sp + page_num sp) * PAGE_SIZE"
    using wf_fits [OF wf] by (simp add: algebra_simps)
  also note wf_range [OF wf]
  finally have off: "i * aligned_obj_size sp < 2 ^ 48" .
  have offset: "(slot_addr sp i + 2 ^ 64 - GetDataBasePtr sp) mod 2 ^ 64 = i * aligned_obj_size sp"
  proof -
    have "slot_addr sp i + 2 ^ 64 - GetDataBasePtr sp = i * aligned_obj_size sp + 2 ^ 64"
      by (simp add: slot_addr_def)
    then show ?thesis using off by simp
  qed
  have idx: "object_index (i * aligned_obj_size sp) (aligned_obj_size sp) = i"
    using wf_size [OF wf] object_index_eq [of "aligned_obj_size sp" i] by simp
  have k32: "?k < 2 ^ 32" using i wf_capacity [OF wf] by linarith
  have fin: "card (insert i (free_slots sp)) = card (free_slots sp) + 1" using used by simp
  have sub: "insert i (free_slots sp) \<subseteq> {..<capacity sp}" using wf_free [OF wf] i by auto
  then have "card (insert i (free_slots sp)) \<le> capacity sp"
    using card_mono [of "{..<capacity sp}"] by simp
  then have uc: "1 \<le> use_count sp" using fin wf_count [OF wf] by simp
  have uc32: "use_count sp < 2 ^ 32" using wf_count [OF wf] wf_capacity [OF wf] by linarith
  let ?sp' = "sp\<lparr>bitmap := ?bm[?k := ?bm ! ?k OR push_bit ?b 1], use_count := use_count sp - 1,
     scan_cursor := min (scan_cursor sp) ?k\<rparr>"
  have fs: "free_slots ?sp' = insert i (free_slots sp)"
    using free_bits_set [OF k, of ?b] by simp
  have "(use_count sp + 2 ^ 32 - 1) mod 2 ^ 32 = use_count sp - 1"
  proof -
    have "use_count sp + 2 ^ 32 - 1 = (use_count sp - 1) + 2 ^ 32" using uc by linarith
    then have "(use_count sp + 2 ^ 32 - 1) mod 2 ^ 32 = (use_count sp - 1) mod 2 ^ 32"
      by (simp only: mod_add_self2)
    then show ?thesis using uc32 by (simp only: mod_less less_imp_diff_less)
  qed
  then have "FreeObject (slot_addr sp i) sp = Some ?sp'"
    using offset idx k k32 wf_size(1) [OF wf] unfolding FreeObject_def
    by (simp add: Let_def drop_bit_eq_div and_63)
  moreover have "wf_span ?sp'"
  proof -
    have "use_count ?sp' + card (free_slots ?sp') = capacity ?sp'"
      unfolding fs fin using uc wf_count [OF wf] by simp
    moreover have "\<forall>j < scan_cursor ?sp'. j < length (bitmap ?sp') \<longrightarrow> bitmap ?sp' ! j = 0"
      using wf_cursor [OF wf] by auto
    ultimately show ?thesis using wf sub fs by (simp add: wf_span_def GetBitmapNum_def)
  qed
  ultimately show thesis using fs uc
    by (intro that [of ?sp']) (simp_all add: slot_addr_def GetDataBasePtr_def GetPageBaseAddr_def)
qed

lemma free_bits_init_bitmap:
  assumes "cap \<le> 64 * bn"
  shows "free_bits (init_bitmap cap bn) = {..<cap}"
proof (rule set_eqI)
  fix i
  show "i \<in> free_bits (init_bitmap cap bn) \<longleftrightarrow> i \<in> {..<cap}"
  proof (cases "i < 64 * bn")
    case False
    then show ?thesis using assms by (simp add: free_bits_def init_bitmap_def Let_def)
  next
    case True
    then have i: "i div 64 < bn" by linarith
    consider "i div 64 < cap div 64" | "i div 64 = cap div 64" | "cap div 64 < i div 64" by linarith
    then show ?thesis
    proof cases
      case 1
      then have "i < cap" by linarith
      with 1 True i show ?thesis by (simp add: free_bits_def init_bitmap_def Let_def bit_simps)
    next
      case 2
      have "i < cap \<longleftrightarrow> i mod 64 < cap mod 64"
        using 2 div_mult_mod_eq [of i 64] div_mult_mod_eq [of cap 64] by linarith
      with 2 True i show ?thesis
        by (simp add: free_bits_def init_bitmap_def Let_def and_63 mask_eq_exp_minus_1 [symmetric]
            bit_mask_iff)
    next
      case 3
      then have "\<not> i < cap" by linarith
      with 3 True i show ?thesis by (simp add: free_bits_def init_bitmap_def Let_def)
    qed
  qed
qed

definition init_offset :: "nat \<Rightarrow> nat" where
  "init_offset bn = (8 * bn + 15) div 16 * 16"

lemma init_data_start_eq: "init_data_start sp bn = GetPageBaseAddr sp + init_offset bn"
proof -
  have base: "GetPageBaseAddr sp = 16 * (256 * start_page_idx sp)"
    by (simp add: GetPageBaseAddr_def push_bit_eq_mult PAGE_SHIFT_def)
  have "init_data_start sp bn = (8 * bn + 15 + GetPageBaseAddr sp) - (8 * bn + 15 + GetPageBaseAddr sp) mod 16"
    by (simp add: init_data_start_def align_down_def ALIGNMENT_def algebra_simps)
  also have "(8 * bn + 15 + GetPageBaseAddr sp) mod 16 = (8 * bn + 15) mod 16"
    unfolding base by (rule mod_mult_self2)
  also have "8 * bn + 15 + GetPageBaseAddr sp - (8 * bn + 15) mod 16
      = GetPageBaseAddr sp + (8 * bn + 15 - (8 * bn + 15) mod 16)"
    by simp
  finally show ?thesis by (simp only: init_offset_def minus_mod_eq_div_mult)
qed

lemma init_offset_ge: "8 * bn \<le> init_offset bn"
  unfolding init_offset_def by linarith

text \<open>The layout arithmetic of \<open>Init\<close>, independent of the address of the span.\<close>

definition layout_capacity :: "nat \<Rightarrow> nat \<Rightarrow> nat" where
  "layout_capacity pages s =
     (pages * PAGE_SIZE - init_offset (init_bitmap_num (pages * PAGE_SIZE) s)) div s"

lemma Init_wf:
  assumes s: "0 < s" "s \<le> MAX_TC_SIZE" and p: "page_num sp \<le> MAX_PAGE_NUM"
    and rng: "(start_page_idx sp + page_num sp) * PAGE_SIZE \<le> 2 ^ 48"
    and cap: "layout_capacity (page_num sp) s \<le> 64 * init_bitmap_num (page_num sp * PAGE_SIZE) s"
    and off: "init_offset (init_bitmap_num (page_num sp * PAGE_SIZE) s) < page_num sp * PAGE_SIZE"
  obtains sp' where "Init s sp = Some sp'" and "wf_span sp'"
    and "capacity sp' = layout_capacity (page_num sp) s" and "free_slots sp' = {..<capacity sp'}"
    and "use_count sp' = 0" and "aligned_obj_size sp' = s" and "start_page_idx sp' = start_page_idx sp"
    and "page_num sp' = page_num sp" and "flags sp' = flags sp"
    and "owner_shard_id sp' = owner_shard_id sp" and "size_class_idx sp' = Index s"
proof -
  let ?t = "page_num sp * PAGE_SIZE"
  let ?bn = "init_bitmap_num ?t s"
  let ?c = "layout_capacity (page_num sp) s"
  have t: "init_total_bytes sp = ?t" "?t < 2 ^ 32"
    using p by (simp_all add: init_total_bytes_def push_bit_eq_mult config_defs)
  have s32: "s mod 2 ^ 32 = s" using s by (simp add: MAX_TC_SIZE_def)
  have idx: "Index s < 2 ^ 16" using Index_less [OF s(2)] by (simp add: kNumSizeClasses_eq)
  have c: "?c < 2 ^ 32"
    unfolding layout_capacity_def using t(2)
    by (meson div_le_dividend diff_le_self le_less_trans)
  have ic: "init_capacity (GetPageBaseAddr sp + init_offset ?bn) (GetPageBaseAddr sp + ?t) s = ?c"
    using off c by (simp add: init_capacity_def layout_capacity_def)
  have o32: "init_offset ?bn < 2 ^ 32" using off t(2) by simp
  let ?sp' = "sp\<lparr>aligned_obj_size := s, size_class_idx := Index s, obj_offset := init_offset ?bn,
     capacity := ?c, bitmap := init_bitmap ?c ?bn, use_count := 0, scan_cursor := 0\<rparr>"
  have len: "length (init_bitmap ?c ?bn) = ?bn" by (simp add: init_bitmap_def Let_def)
  have fb: "free_bits (init_bitmap ?c ?bn) = {..<?c}" by (rule free_bits_init_bitmap [OF cap])
  have "\<not> ?c div 64 > ?bn" using cap by linarith
  then have "Init s sp = Some ?sp'"
    unfolding Init_def Let_def s32 t(1) init_data_start_eq ic
    using idx o32 by simp
  moreover have "wf_span ?sp'"
  proof -
    have "init_offset ?bn + ?c * s \<le> ?t"
      unfolding layout_capacity_def using off
      by (metis add_le_cancel_left div_times_less_eq_dividend le_add_diff_inverse less_imp_le)
    moreover have "GetBitmapNum ?sp' \<le> ?bn" using cap by (simp add: GetBitmapNum_def drop_bit_eq_div)
    ultimately show ?thesis
      using s rng c init_offset_ge [of ?bn] by (simp add: wf_span_def fb len MAX_TC_SIZE_def)
  qed
  ultimately show thesis using fb by (intro that [of ?sp']) simp_all
qed

definition class_layout_ok :: "nat \<Rightarrow> nat \<Rightarrow> nat \<Rightarrow> bool" where
  "class_layout_ok pages s batch \<longleftrightarrow>
     layout_capacity pages s \<le> 64 * init_bitmap_num (pages * PAGE_SIZE) s \<and>
     init_offset (init_bitmap_num (pages * PAGE_SIZE) s) < pages * PAGE_SIZE \<and>
     7 * batch \<le> layout_capacity pages s \<and>
     0 < pages \<and> pages \<le> MAX_PAGE_NUM \<and> 2 \<le> batch \<and> batch \<le> kMaxBatchSize"

lemma layout_tables: "i < kNumSizeClasses \<Longrightarrow>
  class_layout_ok (move_page_table ! i) (size_table ! i) (batch_table ! i)"
proof -
  assume i: "i < kNumSizeClasses"
  have len: "length move_page_table = 48" "length size_table = 48" "length batch_table = 48"
    by (simp_all add: move_page_table_def size_table_def batch_table_def kNumSizeClasses_eq)
  have "list_all (\<lambda>(p, s, b). class_layout_ok p s b) (zip move_page_table (zip size_table batch_table))"
    unfolding size_table_eq batch_table_eq move_page_table_eq zip_Cons_Cons list.pred_inject
      prod.case zip_Nil
    by (simp add: class_layout_ok_def layout_capacity_def
        init_bitmap_num_def init_max_objs_def init_offset_def drop_bit_eq_div config_defs)
  with i len show ?thesis
    by (simp add: list_all_length kNumSizeClasses_eq)
qed

section \<open>The contract of an object pool\<close>

text \<open>
  What CentralCache relies on: a pool hands out its lowest free slot, takes a used slot back,
  and keeps the addresses of its slots.
\<close>

locale object_pool =
  fixes inv :: "'s \<Rightarrow> bool" and avail :: "'s \<Rightarrow> nat set" and cap :: "'s \<Rightarrow> nat"
    and at :: "'s \<Rightarrow> nat \<Rightarrow> addr"
    and alloc :: "'s \<Rightarrow> ('s \<times> addr option) option" and release :: "addr \<Rightarrow> 's \<Rightarrow> 's option"
  assumes avail_sub: "inv s \<Longrightarrow> avail s \<subseteq> {..<cap s}"
    and at_inj: "inv s \<Longrightarrow> at s i = at s j \<Longrightarrow> i = j"
    and alloc_none: "inv s \<Longrightarrow> avail s = {} \<Longrightarrow> alloc s = Some (s, None)"
    and alloc_some: "inv s \<Longrightarrow> avail s \<noteq> {} \<Longrightarrow>
      \<exists>s'. alloc s = Some (s', Some (at s (Min (avail s)))) \<and> inv s' \<and>
        avail s' = avail s - {Min (avail s)} \<and> at s' = at s \<and> cap s' = cap s"
    and release_used: "inv s \<Longrightarrow> i < cap s \<Longrightarrow> i \<notin> avail s \<Longrightarrow>
      \<exists>s'. release (at s i) s = Some s' \<and> inv s' \<and> avail s' = insert i (avail s) \<and>
        at s' = at s \<and> cap s' = cap s"
begin

lemma avail_finite: "inv s \<Longrightarrow> finite (avail s)"
  using avail_sub finite_subset by blast

lemma alloc_total: "inv s \<Longrightarrow> \<exists>s' r. alloc s = Some (s', r) \<and> inv s' \<and> cap s' = cap s \<and> at s' = at s"
  using alloc_none alloc_some by (cases "avail s = {}") fastforce+

lemma alloc_Some_slot:
  assumes "inv s" and "alloc s = Some (s', Some a)"
  shows "avail s \<noteq> {} \<and> a = at s (Min (avail s)) \<and> inv s' \<and>
    avail s' = avail s - {Min (avail s)} \<and> at s' = at s \<and> cap s' = cap s"
  using assms alloc_none [OF assms(1)] alloc_some [OF assms(1)] by (cases "avail s = {}") auto

lemma alloc_release:
  assumes "inv s" and "alloc s = Some (s', Some a)"
  shows "\<exists>s''. release a s' = Some s'' \<and> inv s'' \<and> avail s'' = avail s"
proof -
  note a = alloc_Some_slot [OF assms]
  let ?m = "Min (avail s)"
  have m: "?m \<in> avail s" using a avail_finite [OF assms(1)] by simp
  then have "?m < cap s'" "?m \<notin> avail s'" using a avail_sub [OF assms(1)] by auto
  from release_used [OF _ this] a obtain s'' where
    "release (at s' ?m) s' = Some s''" "inv s''" "avail s'' = insert ?m (avail s')" by auto
  with a m show ?thesis by (auto simp: insert_absorb)
qed

end

interpretation span_pool: object_pool wf_span free_slots capacity slot_addr AllocObject FreeObject
proof unfold_locales
  fix s :: span and i j
  assume "wf_span s" "slot_addr s i = slot_addr s j"
  then show "i = j" using wf_size(1) [of s] by (simp add: slot_addr_def)
next
  fix s assume "wf_span s" "free_slots s \<noteq> {}"
  from AllocObject_ok [OF this] show "\<exists>s'. AllocObject s = Some (s', Some (slot_addr s (Min (free_slots s)))) \<and>
    wf_span s' \<and> free_slots s' = free_slots s - {Min (free_slots s)} \<and>
    slot_addr s' = slot_addr s \<and> capacity s' = capacity s" by (metis ext)
next
  fix s i assume "wf_span s" "i < capacity s" "i \<notin> free_slots s"
  from FreeObject_ok [OF this] show "\<exists>s'. FreeObject (slot_addr s i) s = Some s' \<and> wf_span s' \<and>
    free_slots s' = insert i (free_slots s) \<and> slot_addr s' = slot_addr s \<and> capacity s' = capacity s"
    by (metis ext)
qed (simp_all add: wf_free AllocObject_full)

section \<open>Properties\<close>

text \<open>
  C21: when CentralCache refills class \<open>i\<close>, a fresh span of \<open>GetMovePageNum\<close> pages is laid out
  correctly: the bitmap words and the object slots do not overlap, every slot lies within the
  pages, exactly the \<open>capacity\<close> slots are free, none of the bits is lost, and the span serves at
  least seven batches.
\<close>

theorem span_init_layout:
  assumes "i < kNumSizeClasses" and "page_num sp = GetMovePageNum (Size i)"
    and "(start_page_idx sp + page_num sp) * PAGE_SIZE \<le> 2 ^ 48"
  shows "\<exists>sp'. Init (Size i) sp = Some sp' \<and> wf_span sp' \<and> free_slots sp' = {..<capacity sp'} \<and>
    7 * CalculateBatchSize (Size i) \<le> capacity sp' \<and> size_class_idx sp' = i \<and>
    8 * length (bitmap sp') \<le> obj_offset sp' \<and>
    obj_offset sp' + capacity sp' * aligned_obj_size sp' \<le> page_num sp' * PAGE_SIZE"
proof -
  have sz: "0 < Size i" "Size i \<le> MAX_TC_SIZE" "Index (Size i) = i"
    using assms(1) by (simp_all add: ladder.sz_pos ladder.sz_le ladder.idx_sz)
  have tab: "page_num sp = move_page_table ! i" "CalculateBatchSize (Size i) = batch_table ! i"
    using sz assms(2) by (simp_all add: GetMovePageNum_def CalculateBatchSize_def)
  note ok = layout_tables [OF assms(1), unfolded class_layout_ok_def, folded Size_def tab]
  obtain sp' where "Init (Size i) sp = Some sp'" "wf_span sp'"
    "capacity sp' = layout_capacity (page_num sp) (Size i)" "free_slots sp' = {..<capacity sp'}"
    "size_class_idx sp' = Index (Size i)"
    using Init_wf [OF sz(1,2) _ assms(3)] ok by metis
  with ok sz wf_offset [of sp'] wf_fits [of sp'] show ?thesis
    by (intro exI [of _ sp']) simp
qed

theorem span_init_layout_witness:
  "\<exists>sp'. Init (Size 0) (new_span 256 8) = Some sp' \<and> wf_span sp' \<and> free_slots sp' = {..<capacity sp'}"
proof -
  have "page_num (new_span 256 8) = GetMovePageNum (Size 0)"
    by (simp add: new_span_def GetMovePageNum_def Size_def size_table_eq move_page_table_eq
        Index_eq MAX_TC_SIZE_def ladder_defs)
  then show ?thesis
    using span_init_layout [of 0 "new_span 256 8"]
    unfolding kNumSizeClasses_eq by (fastforce simp: new_span_def PAGE_SIZE_def)
qed

text \<open>
  C22: on a well-formed span, \<open>AllocObject\<close> never reads outside of the bitmap; it returns null and
  changes nothing exactly when no slot is free, and otherwise hands out the lowest free slot,
  which is no longer free, and keeps the span well-formed.
\<close>

theorem span_alloc_lowest_free:
  assumes "wf_span sp"
  shows "\<exists>sp' r. AllocObject sp = Some (sp', r) \<and> wf_span sp' \<and>
    (if free_slots sp = {} then r = None \<and> sp' = sp
     else r = Some (slot_addr sp (Min (free_slots sp))) \<and>
          free_slots sp' = free_slots sp - {Min (free_slots sp)})"
proof (cases "free_slots sp = {}")
  case True
  then show ?thesis using assms span_pool.alloc_none [OF assms] by simp
next
  case False
  then show ?thesis using span_pool.alloc_some [OF assms] by auto
qed

text \<open>
  C23: freeing what \<open>AllocObject\<close> returned restores the set of free slots.
\<close>

theorem span_alloc_free_roundtrip:
  assumes "wf_span sp" and "AllocObject sp = Some (sp', Some a)"
  shows "\<exists>sp''. FreeObject a sp' = Some sp'' \<and> wf_span sp'' \<and> free_slots sp'' = free_slots sp"
  by (rule span_pool.alloc_release [OF assms])

definition demo_span :: span where
  "demo_span = (new_span 256 1)\<lparr>aligned_obj_size := 1024, capacity := 3, obj_offset := 16, bitmap := [mask 3]\<rparr>"

lemma free_bits_mask_3: "free_bits [mask 3] = {0, 1, 2}"
proof -
  have "free_bits [mask 3] = {i. i < 64 \<and> i mod 64 < 3}"
    unfolding free_bits_def by (auto simp: bit_mask_iff)
  also have "\<dots> = {0, 1, 2}" by auto
  finally show ?thesis .
qed

lemma wf_demo_span: "wf_span demo_span"
  unfolding wf_span_def demo_span_def
  by (simp add: new_span_def free_bits_mask_3 GetBitmapNum_def drop_bit_eq_div PAGE_SIZE_def)

theorem span_alloc_lowest_free_witness:
  "\<exists>sp'. AllocObject demo_span = Some (sp', Some (slot_addr demo_span 0)) \<and> wf_span sp'"
proof -
  have "free_slots demo_span = {0, 1, 2}" by (simp add: demo_span_def free_bits_mask_3)
  then show ?thesis using span_alloc_lowest_free [OF wf_demo_span] by auto
qed

theorem span_alloc_free_roundtrip_witness:
  "\<exists>sp' a sp''. AllocObject demo_span = Some (sp', Some a) \<and> FreeObject a sp' = Some sp'' \<and>
     free_slots sp'' = free_slots demo_span"
proof -
  have "free_slots demo_span \<noteq> {}" by (simp add: demo_span_def free_bits_mask_3)
  then obtain sp' a where "AllocObject demo_span = Some (sp', Some a)"
    using span_pool.alloc_some [OF wf_demo_span] by blast
  with span_alloc_free_roundtrip [OF wf_demo_span this] show ?thesis by blast
qed

end
