(* ===== verification/Page_Map.thy ===== *)
theory Page_Map
  imports Size_Class
begin

text \<open>
  \<open>PageMap\<close> of \<open>page_cache.h\<close> and \<open>page_cache.cpp\<close>: the four-level radix tree from page numbers
  to spans.  A node is the map of its non-null children.  The node pool is threaded through the
  writers as \<open>nodes\<close>; \<open>new_node\<close> is \<open>radix_node_pool_.New()\<close>, \<open>None\<close> when it throws \<open>bad_alloc\<close>
  (PageCache instantiates it with the object pool).  An index beyond the root array is the error
  \<open>OutOfBounds\<close>.
  The tree is proved to implement a flat map from page numbers to spans.
\<close>

section \<open>Radix tree\<close>

definition VA_BITS :: nat where [config_defs]: "VA_BITS = 48"
definition PAGE_ID_BITS :: nat where [config_defs]: "PAGE_ID_BITS = VA_BITS - PAGE_SHIFT"
definition RADIX_NODE_BITS :: nat where [config_defs]: "RADIX_NODE_BITS = 9"
definition RADIX_NODE_SIZE :: nat where [config_defs]: "RADIX_NODE_SIZE = push_bit RADIX_NODE_BITS 1"
definition RADIX_ROOT_BITS :: nat where [config_defs]: "RADIX_ROOT_BITS = PAGE_ID_BITS - 3 * RADIX_NODE_BITS"
definition RADIX_ROOT_SIZE :: nat where [config_defs]: "RADIX_ROOT_SIZE = push_bit RADIX_ROOT_BITS 1"
definition RADIX_MASK :: nat where [config_defs]: "RADIX_MASK = RADIX_NODE_SIZE - 1"

datatype pm_error = BadAlloc | OutOfBounds

type_synonym 'a radix_leaf = "nat \<rightharpoonup> 'a"
type_synonym 'a radix_2 = "nat \<rightharpoonup> 'a radix_leaf"
type_synonym 'a radix_1 = "nat \<rightharpoonup> 'a radix_2"
type_synonym 'a radix_root = "nat \<rightharpoonup> 'a radix_1"

record 'a page_map =
  root :: "'a radix_root option"

definition radix_i0 :: "nat \<Rightarrow> nat" where
  "radix_i0 page_id = drop_bit (RADIX_NODE_BITS * 3) page_id"

definition radix_i1 :: "nat \<Rightarrow> nat" where
  "radix_i1 page_id = drop_bit (RADIX_NODE_BITS * 2) page_id AND RADIX_MASK"

definition radix_i2 :: "nat \<Rightarrow> nat" where
  "radix_i2 page_id = drop_bit RADIX_NODE_BITS page_id AND RADIX_MASK"

definition radix_i3 :: "nat \<Rightarrow> nat" where
  "radix_i3 page_id = page_id AND RADIX_MASK"

definition GetSpan :: "'a page_map \<Rightarrow> nat \<Rightarrow> 'a option" where
  "GetSpan pm page_id =
     (case root pm of
        None \<Rightarrow> None
      | Some cur \<Rightarrow>
          if radix_i0 page_id \<ge> RADIX_ROOT_SIZE then None
          else case cur (radix_i0 page_id) of
            None \<Rightarrow> None
          | Some p1 \<Rightarrow> (case p1 (radix_i1 page_id) of
              None \<Rightarrow> None
            | Some p2 \<Rightarrow> (case p2 (radix_i2 page_id) of
                None \<Rightarrow> None
              | Some p3 \<Rightarrow> p3 (radix_i3 page_id))))"

definition GetSpan_ptr :: "'a page_map \<Rightarrow> addr \<Rightarrow> 'a option" where
  "GetSpan_ptr pm ptr = GetSpan pm (drop_bit PAGE_SHIFT ptr)"

text \<open>The store loop over consecutive slots of a leaf node.\<close>

primrec set_slots :: "'a radix_leaf \<Rightarrow> nat \<Rightarrow> nat \<Rightarrow> 'a option \<Rightarrow> 'a radix_leaf" where
  "set_slots p i 0 v = p"
| "set_slots p i (Suc k) v = (set_slots p i k v)(i + k := v)"

text \<open>Load a child, or install a fresh empty node from the pool.\<close>

definition child_or_new ::
  "('p \<Rightarrow> 'p option) \<Rightarrow> (nat \<rightharpoonup> (nat \<rightharpoonup> 'b)) \<Rightarrow> nat \<Rightarrow> 'p \<Rightarrow> ((nat \<rightharpoonup> 'b) \<times> 'p) option" where
  "child_or_new new_node node i nodes =
     (case node i of
        Some child \<Rightarrow> Some (child, nodes)
      | None \<Rightarrow> map_option (\<lambda>nodes'. (Map.empty, nodes')) (new_node nodes))"

lemma RADIX_NODE_SIZE_eq: "RADIX_NODE_SIZE = 512"
  by (simp add: config_defs push_bit_eq_mult)

lemma RADIX_ROOT_SIZE_eq: "RADIX_ROOT_SIZE = 512"
  by (simp add: config_defs push_bit_eq_mult)

lemma RADIX_MASK_eq: "RADIX_MASK = 2 ^ 9 - 1"
  by (simp add: RADIX_MASK_def RADIX_NODE_SIZE_eq)

lemma radix_i0_eq: "radix_i0 p = p div 2 ^ 27"
  by (simp add: radix_i0_def RADIX_NODE_BITS_def drop_bit_eq_div)

lemma radix_i1_eq: "radix_i1 p = p div 2 ^ 18 mod 512"
  by (simp add: radix_i1_def RADIX_NODE_BITS_def drop_bit_eq_div and_mask_mod [OF RADIX_MASK_eq])

lemma radix_i2_eq: "radix_i2 p = p div 512 mod 512"
  by (simp add: radix_i2_def RADIX_NODE_BITS_def drop_bit_eq_div and_mask_mod [OF RADIX_MASK_eq])

lemma radix_i3_eq: "radix_i3 p = p mod 512"
  by (simp add: radix_i3_def and_mask_mod [OF RADIX_MASK_eq])

function SetSpan_loop ::
  "('p \<Rightarrow> 'p option) \<Rightarrow> 'a \<Rightarrow> nat \<Rightarrow> nat \<Rightarrow> 'a radix_root \<Rightarrow> 'p \<Rightarrow> pm_error + 'a radix_root \<times> 'p" where
  "SetSpan_loop new_node sp start end_page cur nodes =
     (if start < end_page then
        let i0 = radix_i0 start; i1 = radix_i1 start; i2 = radix_i2 start; i3 = radix_i3 start
        in if i0 \<ge> RADIX_ROOT_SIZE then Inl OutOfBounds
           else case child_or_new new_node cur i0 nodes of
             None \<Rightarrow> Inl BadAlloc
           | Some (p1, nodes1) \<Rightarrow> (case child_or_new new_node p1 i1 nodes1 of
               None \<Rightarrow> Inl BadAlloc
             | Some (p2, nodes2) \<Rightarrow> (case child_or_new new_node p2 i2 nodes2 of
                 None \<Rightarrow> Inl BadAlloc
               | Some (p3, nodes3) \<Rightarrow>
                   let cnt = min (end_page - start) (RADIX_NODE_SIZE - i3);
                       p3' = set_slots p3 i3 cnt (Some sp)
                   in SetSpan_loop new_node sp (start + cnt) end_page
                        (cur(i0 \<mapsto> p1(i1 \<mapsto> p2(i2 \<mapsto> p3')))) nodes3))
      else Inr (cur, nodes))"
  by pat_completeness auto
termination
proof (relation "measure (\<lambda>(new_node, sp, start, end_page, cur, nodes). end_page - start)"; clarsimp)
  show "end_page - (start + min (end_page - start) (RADIX_NODE_SIZE - radix_i3 start)) < end_page - start"
    if "start < end_page" for start end_page
  proof -
    have "radix_i3 start < RADIX_NODE_SIZE" by (simp add: radix_i3_eq RADIX_NODE_SIZE_eq)
    with that show ?thesis by linarith
  qed
qed

declare SetSpan_loop.simps [simp del]

definition SetSpan ::
  "('p \<Rightarrow> 'p option) \<Rightarrow> 'a \<Rightarrow> nat \<Rightarrow> nat \<Rightarrow> 'a page_map \<Rightarrow> 'p \<Rightarrow> pm_error + 'a page_map \<times> 'p" where
  "SetSpan new_node sp start_page pages pm nodes =
     (let cur = (case root pm of Some r \<Rightarrow> r | None \<Rightarrow> Map.empty)
      in map_sum id (\<lambda>(r, n). (pm\<lparr>root := Some r\<rparr>, n))
           (SetSpan_loop new_node sp start_page ((start_page + pages) mod 2 ^ 64) cur nodes))"

text \<open>The step over a subtree that is not there: to the end of its range.\<close>

definition clear_skip :: "nat \<Rightarrow> nat \<Rightarrow> nat \<Rightarrow> nat" where
  "clear_skip bits cur_page_id remaining =
     (let coverage = push_bit bits 1
      in min remaining (coverage - (cur_page_id AND (coverage - 1))))"

lemma clear_skip_eq: "clear_skip b p r = min r (2 ^ b - p mod 2 ^ b)"
  by (simp add: clear_skip_def push_bit_eq_mult and_mask_mod Let_def)

lemma clear_skip_pos: "0 < r \<Longrightarrow> 0 < clear_skip b p r"
  by (simp add: clear_skip_eq)

function ClearRange_loop :: "nat \<Rightarrow> nat \<Rightarrow> 'a radix_root \<Rightarrow> pm_error + 'a radix_root" where
  "ClearRange_loop cur_page_id remaining cur =
     (if remaining > 0 then
        let i0 = radix_i0 cur_page_id
        in if i0 \<ge> RADIX_ROOT_SIZE then Inl OutOfBounds
           else case cur i0 of
             None \<Rightarrow>
               let step = clear_skip (RADIX_NODE_BITS * 3) cur_page_id remaining
               in ClearRange_loop (cur_page_id + step) (remaining - step) cur
           | Some p1 \<Rightarrow>
               (let i1 = radix_i1 cur_page_id
                in case p1 i1 of
                  None \<Rightarrow>
                    let step = clear_skip (RADIX_NODE_BITS * 2) cur_page_id remaining
                    in ClearRange_loop (cur_page_id + step) (remaining - step) cur
                | Some p2 \<Rightarrow>
                    (let i2 = radix_i2 cur_page_id
                     in case p2 i2 of
                       None \<Rightarrow>
                         let step = clear_skip RADIX_NODE_BITS cur_page_id remaining
                         in ClearRange_loop (cur_page_id + step) (remaining - step) cur
                     | Some p3 \<Rightarrow>
                         let i3 = radix_i3 cur_page_id;
                             cnt = min remaining (RADIX_NODE_SIZE - i3);
                             p3' = set_slots p3 i3 cnt None
                         in ClearRange_loop (cur_page_id + cnt) (remaining - cnt)
                              (cur(i0 \<mapsto> p1(i1 \<mapsto> p2(i2 \<mapsto> p3'))))))
      else Inr cur)"
  by pat_completeness auto
termination
  by (relation "measure (\<lambda>(cur_page_id, remaining, cur). remaining)")
    (auto simp: clear_skip_pos radix_i3_eq RADIX_NODE_SIZE_eq)

declare ClearRange_loop.simps [simp del]

definition ClearRange :: "nat \<Rightarrow> nat \<Rightarrow> 'a page_map \<Rightarrow> pm_error + 'a page_map" where
  "ClearRange start_page_id pages pm =
     (case root pm of
        None \<Rightarrow> Inr pm
      | Some cur \<Rightarrow> map_sum id (\<lambda>r. pm\<lparr>root := Some r\<rparr>) (ClearRange_loop start_page_id pages cur))"

definition Reset :: "'a page_map \<Rightarrow> 'a page_map" where
  "Reset pm = pm\<lparr>root := None\<rparr>"

section \<open>The flat map\<close>

definition leaf_of :: "'a radix_root \<Rightarrow> nat \<Rightarrow> 'a radix_leaf" where
  "leaf_of r p =
     (case r (radix_i0 p) of None \<Rightarrow> Map.empty | Some p1 \<Rightarrow>
       (case p1 (radix_i1 p) of None \<Rightarrow> Map.empty | Some p2 \<Rightarrow>
         (case p2 (radix_i2 p) of None \<Rightarrow> Map.empty | Some p3 \<Rightarrow> p3)))"

definition flat :: "'a radix_root \<Rightarrow> nat \<Rightarrow> 'a option" where
  "flat r p = leaf_of r p (p mod 512)"

lemma GetSpan_flat:
  "GetSpan pm p = (case root pm of None \<Rightarrow> None | Some r \<Rightarrow> if p < 2 ^ 36 then flat r p else None)"
proof -
  have "RADIX_ROOT_SIZE \<le> radix_i0 p \<longleftrightarrow> \<not> p < 2 ^ 36"
    by (simp add: RADIX_ROOT_SIZE_eq radix_i0_eq not_less less_eq_div_iff_mult_less_eq)
  then show ?thesis
    by (simp add: GetSpan_def flat_def leaf_of_def radix_i3_eq split: option.split)
qed

lemma block_iff:
  "radix_i0 p = radix_i0 q \<and> radix_i1 p = radix_i1 q \<and> radix_i2 p = radix_i2 q \<longleftrightarrow> p div 512 = q div 512"
proof
  have blk: "x div 512 = (radix_i0 x * 512 + radix_i1 x) * 512 + radix_i2 x" for x
  proof -
    have "x div 2 ^ 27 = x div 512 div 512 div 512" "x div 2 ^ 18 = x div 512 div 512"
      by (simp_all add: div_mult2_eq [symmetric])
    then show ?thesis unfolding radix_i0_eq radix_i1_eq radix_i2_eq by simp
  qed
  show "p div 512 = q div 512" if "radix_i0 p = radix_i0 q \<and> radix_i1 p = radix_i1 q \<and> radix_i2 p = radix_i2 q"
    using that blk [of p] blk [of q] by simp
  assume eq: "p div 512 = q div 512"
  have up: "x div 2 ^ 27 = x div 512 div 2 ^ 18" "x div 2 ^ 18 = x div 512 div 512" for x :: nat
    by (simp_all add: div_mult2_eq [symmetric])
  show "radix_i0 p = radix_i0 q \<and> radix_i1 p = radix_i1 q \<and> radix_i2 p = radix_i2 q"
    unfolding radix_i0_eq radix_i1_eq radix_i2_eq up eq by (intro conjI refl)
qed

lemma child_or_new_Some:
  "child_or_new nw m i n = Some (c, n') \<Longrightarrow> c = (case m i of None \<Rightarrow> Map.empty | Some c \<Rightarrow> c)"
  by (auto simp: child_or_new_def split: option.splits if_splits)

lemma leaf_of_block: "p div 512 = q div 512 \<Longrightarrow> leaf_of r p = leaf_of r q"
  using block_iff [of p q] by (simp add: leaf_of_def split: option.split)

lemma leaf_of_update:
  assumes "child_or_new nw r (radix_i0 s) n = Some (p1, n1)" and "child_or_new nw p1 (radix_i1 s) n1 = Some (p2, n2)"
    and "child_or_new nw p2 (radix_i2 s) n2 = Some (p3, n3)"
  shows "leaf_of (r(radix_i0 s \<mapsto> p1(radix_i1 s \<mapsto> p2(radix_i2 s \<mapsto> leaf)))) q =
      (if q div 512 = s div 512 then leaf else leaf_of r q)" (is "leaf_of ?r q = _")
    and "p3 = leaf_of r s"
proof -
  note c = assms [THEN child_or_new_Some]
  show "p3 = leaf_of r s" using c by (simp add: leaf_of_def split: option.split)
  show "leaf_of ?r q = (if q div 512 = s div 512 then leaf else leaf_of r q)"
  proof (cases "q div 512 = s div 512")
    case True
    then have "leaf_of ?r q = leaf_of ?r s" by (rule leaf_of_block)
    with True show ?thesis by (simp add: leaf_of_def)
  next
    case False
    then consider "radix_i0 q \<noteq> radix_i0 s" | "radix_i0 q = radix_i0 s" "radix_i1 q \<noteq> radix_i1 s"
      | "radix_i0 q = radix_i0 s" "radix_i1 q = radix_i1 s" "radix_i2 q \<noteq> radix_i2 s"
      using block_iff by blast
    then have "leaf_of ?r q = leaf_of r q"
      using c by cases (simp_all add: leaf_of_def split: option.split)
    with False show ?thesis by simp
  qed
qed

lemma set_slots_apply: "set_slots p i k v j = (if i \<le> j \<and> j < i + k then v else p j)"
  by (induction k) auto

lemma same_block_range:
  fixes s :: nat
  assumes "s mod 512 + cnt \<le> 512"
  shows "q div 512 = s div 512 \<and> s mod 512 \<le> q mod 512 \<and> q mod 512 < s mod 512 + cnt \<longleftrightarrow>
    s \<le> q \<and> q < s + cnt"
proof -
  define a b c d where "a = q div 512" "b = q mod 512" "c = s div 512" "d = s mod 512"
  then have e: "q = a * 512 + b" "s = c * 512 + d" "b < 512" "d + cnt \<le> 512" using assms by simp_all
  have ac: "a = c" if "s \<le> q" "q < s + cnt"
  proof (rule ccontr)
    assume "a \<noteq> c"
    then consider "a + 1 \<le> c" | "c + 1 \<le> a" by linarith
    then show False using that e by cases linarith+
  qed
  have "a = c \<and> d \<le> b \<and> b < d + cnt \<longleftrightarrow> s \<le> q \<and> q < s + cnt"
  proof (cases "a = c")
    case True
    then show ?thesis using e by simp
  qed (use ac in blast)
  then show ?thesis unfolding a_b_c_d_def .
qed

lemma flat_update:
  assumes "child_or_new nw r (radix_i0 s) n = Some (p1, n1)" and "child_or_new nw p1 (radix_i1 s) n1 = Some (p2, n2)"
    and "child_or_new nw p2 (radix_i2 s) n2 = Some (p3, n3)" and "s mod 512 + cnt \<le> 512"
  shows "flat (r(radix_i0 s \<mapsto> p1(radix_i1 s \<mapsto> p2(radix_i2 s \<mapsto> set_slots p3 (s mod 512) cnt v)))) q =
      (if s \<le> q \<and> q < s + cnt then v else flat r q)"
proof -
  have "leaf_of r s = leaf_of r q" if "q div 512 = s div 512"
    using leaf_of_block that by metis
  then show ?thesis
    using same_block_range [OF assms(4), of q]
    by (auto simp: flat_def leaf_of_update [OF assms(1-3)] set_slots_apply)
qed

section \<open>The writers implement range updates\<close>

lemma SetSpan_loop_flat:
  "SetSpan_loop nw sp s e r n = Inr (r', n') \<Longrightarrow>
    flat r' q = (if s \<le> q \<and> q < e then Some sp else flat r q)"
proof (induction nw sp s e r n rule: SetSpan_loop.induct)
  case (1 nw sp s e r n)
  show ?case
  proof (cases "s < e")
    case False
    with "1.prems" show ?thesis by (auto simp: SetSpan_loop.simps)
  next
    case True
    from "1.prems" True obtain p1 n1 p2 n2 p3 n3 where
      i0: "\<not> RADIX_ROOT_SIZE \<le> radix_i0 s" and
      c: "child_or_new nw r (radix_i0 s) n = Some (p1, n1)" "child_or_new nw p1 (radix_i1 s) n1 = Some (p2, n2)"
        "child_or_new nw p2 (radix_i2 s) n2 = Some (p3, n3)"
      by (subst (asm) SetSpan_loop.simps) (auto simp: Let_def split: if_splits option.splits prod.splits)
    let ?cnt = "min (e - s) (RADIX_NODE_SIZE - radix_i3 s)"
    let ?r = "r(radix_i0 s \<mapsto> p1(radix_i1 s \<mapsto> p2(radix_i2 s \<mapsto> set_slots p3 (radix_i3 s) ?cnt (Some sp))))"
    have run: "SetSpan_loop nw sp (s + ?cnt) e ?r n3 = Inr (r', n')"
      using "1.prems" True i0 c by (subst (asm) SetSpan_loop.simps) (simp add: Let_def)
    have IH: "flat r' q = (if s + ?cnt \<le> q \<and> q < e then Some sp else flat ?r q)"
      by (rule "1.IH" [OF True refl refl refl refl i0 c(1) refl c(2) refl c(3) refl refl refl run])
    have "s mod 512 + ?cnt \<le> 512" "?cnt \<le> e - s"
      by (simp_all add: radix_i3_eq RADIX_NODE_SIZE_eq) 
    from flat_update [OF c this(1)] have "flat ?r q = (if s \<le> q \<and> q < s + ?cnt then Some sp else flat r q)"
      by (simp add: radix_i3_eq)
    with IH True \<open>?cnt \<le> e - s\<close> show ?thesis by auto
  qed
qed

lemma same_coverage:
  fixes p :: nat
  assumes "p \<le> q" and "q < p + (m - p mod m)"
  shows "q div m = p div m"
proof (rule div_nat_eqI)
  have e: "p div m * m + p mod m = p" by simp
  show "m * (p div m) \<le> q" using assms(1) times_div_less_eq_dividend [of m p] by linarith
  have "0 < m - p mod m" using assms by linarith
  then have "p + (m - p mod m) = p div m * m + m" using e by linarith
  then show "q < m * Suc (p div m)" using assms(2) by (simp add: mult.commute)
qed

lemma flat_absent:
  shows flat_absent_0: "r (radix_i0 p) = None \<Longrightarrow> q div 2 ^ 27 = p div 2 ^ 27 \<Longrightarrow> flat r q = None"
    and flat_absent_1: "r (radix_i0 p) = Some p1 \<Longrightarrow> p1 (radix_i1 p) = None \<Longrightarrow>
      q div 2 ^ 18 = p div 2 ^ 18 \<Longrightarrow> flat r q = None"
    and flat_absent_2: "r (radix_i0 p) = Some p1 \<Longrightarrow> p1 (radix_i1 p) = Some p2 \<Longrightarrow> p2 (radix_i2 p) = None \<Longrightarrow>
      q div 512 = p div 512 \<Longrightarrow> flat r q = None"
proof -
  show "r (radix_i0 p) = None \<Longrightarrow> q div 2 ^ 27 = p div 2 ^ 27 \<Longrightarrow> flat r q = None"
    by (simp add: flat_def leaf_of_def radix_i0_eq)
  have "x div 2 ^ 27 = x div 2 ^ 18 div 512" for x :: nat by (simp add: div_mult2_eq [symmetric])
  then show "r (radix_i0 p) = Some p1 \<Longrightarrow> p1 (radix_i1 p) = None \<Longrightarrow>
      q div 2 ^ 18 = p div 2 ^ 18 \<Longrightarrow> flat r q = None"
    by (simp only: flat_def leaf_of_def radix_i0_eq radix_i1_eq option.case)
  show "r (radix_i0 p) = Some p1 \<Longrightarrow> p1 (radix_i1 p) = Some p2 \<Longrightarrow> p2 (radix_i2 p) = None \<Longrightarrow>
      q div 512 = p div 512 \<Longrightarrow> flat r q = None"
    using leaf_of_block [of q p r] by (simp add: flat_def leaf_of_def)
qed

lemma clear_skip_range:
  assumes "p \<le> q" and "q < p + clear_skip b p n"
  shows "q div 2 ^ b = p div 2 ^ b"
proof (rule same_coverage [OF assms(1)])
  have "clear_skip b p n \<le> 2 ^ b - p mod 2 ^ b" unfolding clear_skip_eq by (rule min.cobounded2)
  with assms(2) show "q < p + (2 ^ b - p mod 2 ^ b)" by linarith
qed

lemma child_or_new_present: "m i = Some c \<Longrightarrow> child_or_new nw m i n = Some (c, n)"
  by (simp add: child_or_new_def)

lemma radix_path_cases [case_names fin l0 l1 l2 l3]:
  fixes n :: nat and r :: "'a radix_root"
  obtains "n = 0"
  | "n > 0" and "r (radix_i0 s) = None"
  | p1 where "n > 0" and "r (radix_i0 s) = Some p1" and "p1 (radix_i1 s) = None"
  | p1 p2 where "n > 0" and "r (radix_i0 s) = Some p1" and "p1 (radix_i1 s) = Some p2" and "p2 (radix_i2 s) = None"
  | p1 p2 p3 where "n > 0" and "r (radix_i0 s) = Some p1" and "p1 (radix_i1 s) = Some p2"
      and "p2 (radix_i2 s) = Some p3"
  by (meson gr0I not_Some_eq)

lemma ClearRange_loop_flat:
  "ClearRange_loop s n r = Inr r' \<Longrightarrow>
    flat r' q = (if s \<le> q \<and> q < s + n then None else flat r q)"
proof (induction s n r rule: ClearRange_loop.induct)
  case (1 s n r)
  have skip: "flat r' q = (if s \<le> q \<and> q < s + n then None else flat r q)"
    if "flat r' q = (if s + k \<le> q \<and> q < s + k + (n - k) then None else flat r q)"
      and "s \<le> q \<and> q < s + k \<Longrightarrow> flat r q = None" and "k \<le> n" for k
    using that by auto
  have le: "clear_skip b s n \<le> n" for b by (simp add: clear_skip_eq)
  have ok: "n > 0 \<Longrightarrow> \<not> RADIX_ROOT_SIZE \<le> radix_i0 s"
    using "1.prems" by (subst (asm) ClearRange_loop.simps) (auto simp: Let_def)
  note unf = ClearRange_loop.simps [of s n r]
  show ?case
  proof (cases rule: radix_path_cases [where n = n and r = r and s = s])
    case fin
    with "1.prems" unf show ?thesis by auto
  next
    case l0
    let ?k = "clear_skip (RADIX_NODE_BITS * 3) s n"
    have run: "ClearRange_loop (s + ?k) (n - ?k) r = Inr r'"
      using "1.prems" unf l0 ok by (simp add: Let_def)
    show ?thesis
    proof (rule skip [OF "1.IH"(1) [OF l0(1) refl ok [OF l0(1)] l0(2) refl run] _ le])
      assume "s \<le> q \<and> q < s + ?k"
      then have "q div 2 ^ (RADIX_NODE_BITS * 3) = s div 2 ^ (RADIX_NODE_BITS * 3)" using clear_skip_range by blast
      then show "flat r q = None" using flat_absent_0 [of r s, OF l0(2)] by (simp add: RADIX_NODE_BITS_def)
    qed
  next
    case (l1 p1)
    let ?k = "clear_skip (RADIX_NODE_BITS * 2) s n"
    have run: "ClearRange_loop (s + ?k) (n - ?k) r = Inr r'"
      using "1.prems" unf l1 ok by (simp add: Let_def)
    show ?thesis
    proof (rule skip [OF "1.IH"(2) [OF l1(1) refl ok [OF l1(1)] l1(2) refl l1(3) refl run] _ le])
      assume "s \<le> q \<and> q < s + ?k"
      then have "q div 2 ^ (RADIX_NODE_BITS * 2) = s div 2 ^ (RADIX_NODE_BITS * 2)" using clear_skip_range by blast
      then show "flat r q = None" using flat_absent_1 [of r s, OF l1(2,3)] by (simp add: RADIX_NODE_BITS_def)
    qed
  next
    case (l2 p1 p2)
    let ?k = "clear_skip (RADIX_NODE_BITS) s n"
    have run: "ClearRange_loop (s + ?k) (n - ?k) r = Inr r'"
      using "1.prems" unf l2 ok by (simp add: Let_def)
    show ?thesis
    proof (rule skip [OF "1.IH"(3) [OF l2(1) refl ok [OF l2(1)] l2(2) refl l2(3) refl l2(4) refl run] _ le])
      assume "s \<le> q \<and> q < s + ?k"
      then have "q div 2 ^ (RADIX_NODE_BITS) = s div 2 ^ (RADIX_NODE_BITS)" using clear_skip_range by blast
      then show "flat r q = None" using flat_absent_2 [of r s, OF l2(2-4)] by (simp add: RADIX_NODE_BITS_def)
    qed
  next
    case (l3 p1 p2 p3)
    let ?cnt = "min n (RADIX_NODE_SIZE - radix_i3 s)"
    let ?r = "r(radix_i0 s \<mapsto> p1(radix_i1 s \<mapsto> p2(radix_i2 s \<mapsto> set_slots p3 (radix_i3 s) ?cnt None)))"
    have run: "ClearRange_loop (s + ?cnt) (n - ?cnt) ?r = Inr r'"
      using "1.prems" unf l3 ok by (simp add: Let_def)
    have "flat r' q = (if s + ?cnt \<le> q \<and> q < s + ?cnt + (n - ?cnt) then None else flat ?r q)"
      by (rule "1.IH"(4) [OF l3(1) refl ok [OF l3(1)] l3(2) refl l3(3) refl l3(4) refl refl refl run])
    moreover have "s mod 512 + ?cnt \<le> 512" by (simp add: radix_i3_eq RADIX_NODE_SIZE_eq)
    from flat_update [OF child_or_new_present [of r, OF l3(2)] child_or_new_present [of p1, OF l3(3)]
      child_or_new_present [of p2, OF l3(4)] this]
    have "flat ?r q = (if s \<le> q \<and> q < s + ?cnt then None else flat r q)" by (simp add: radix_i3_eq)
    ultimately show ?thesis by auto
  qed
qed

text \<open>Three fresh nodes per leaf touched are enough.\<close>

primrec provides :: "('p \<Rightarrow> 'p option) \<Rightarrow> nat \<Rightarrow> 'p \<Rightarrow> bool" where
  "provides nw 0 p \<longleftrightarrow> True"
| "provides nw (Suc n) p \<longleftrightarrow> (case nw p of None \<Rightarrow> False | Some p' \<Rightarrow> provides nw n p')"

lemma provides_Suc: "provides nw (Suc n) p \<Longrightarrow> provides nw n p"
  by (induction n arbitrary: p) (auto split: option.splits)

lemma child_or_new_enough:
  "provides nw (Suc n) p \<Longrightarrow> \<exists>c p'. child_or_new nw m i p = Some (c, p') \<and> provides nw n p'"
  using provides_Suc [of nw n p] by (auto simp: child_or_new_def split: option.splits)

lemma path_enough:
  assumes "provides nw (Suc (Suc (Suc n))) p"
  obtains p1 n1 p2 n2 p3 n3 where "child_or_new nw r i0 p = Some (p1, n1)"
    and "child_or_new nw p1 i1 n1 = Some (p2, n2)" and "child_or_new nw p2 i2 n2 = Some (p3, n3)"
    and "provides nw n n3"
proof -
  obtain p1 n1 where 1: "child_or_new nw r i0 p = Some (p1, n1)" "provides nw (Suc (Suc n)) n1"
    using child_or_new_enough [OF assms, of r i0] by blast
  obtain p2 n2 where 2: "child_or_new nw p1 i1 n1 = Some (p2, n2)" "provides nw (Suc n) n2"
    using child_or_new_enough [OF 1(2), of p1 i1] by blast
  obtain p3 n3 where 3: "child_or_new nw p2 i2 n2 = Some (p3, n3)" "provides nw n n3"
    using child_or_new_enough [OF 2(2), of p2 i2] by blast
  show ?thesis by (rule that [OF 1(1) 2(1) 3])
qed

lemma block_below: "s < e \<Longrightarrow> s div 512 < (e + 511) div 512" for s e :: nat
proof -
  assume "s < e"
  then have "s + 512 \<le> e + 511" by simp
  then have "(s + 512) div 512 \<le> (e + 511) div 512" by (rule div_le_mono)
  then show ?thesis by simp
qed

lemma SetSpan_loop_total:
  "e \<le> 2 ^ 36 \<Longrightarrow> (s < e \<longrightarrow> provides nw (3 * ((e + 511) div 512 - s div 512)) n) \<Longrightarrow>
    \<exists>r' n'. SetSpan_loop nw sp s e r n = Inr (r', n')"
proof (induction nw sp s e r n rule: SetSpan_loop.induct)
  case (1 nw sp s e r n)
  show ?case
  proof (cases "s < e")
    case False
    then show ?thesis by (simp add: SetSpan_loop.simps)
  next
    case True
    define need where "need = (e + 511) div 512 - Suc (s div 512)"
    have "3 * ((e + 511) div 512 - s div 512) = Suc (Suc (Suc (3 * need)))"
      using block_below [OF True] unfolding need_def by linarith
    then have "provides nw (Suc (Suc (Suc (3 * need)))) n" using "1.prems"(2) True by simp
    then obtain p1 n1 p2 n2 p3 n3 where c: "child_or_new nw r (radix_i0 s) n = Some (p1, n1)"
      "child_or_new nw p1 (radix_i1 s) n1 = Some (p2, n2)" "child_or_new nw p2 (radix_i2 s) n2 = Some (p3, n3)"
      and left: "provides nw (3 * need) n3"
      by (rule path_enough)
    have i0: "\<not> RADIX_ROOT_SIZE \<le> radix_i0 s"
      using True "1.prems"(1) by (simp add: RADIX_ROOT_SIZE_eq radix_i0_eq less_eq_div_iff_mult_less_eq)
    let ?cnt = "min (e - s) (RADIX_NODE_SIZE - radix_i3 s)"
    let ?r = "r(radix_i0 s \<mapsto> p1(radix_i1 s \<mapsto> p2(radix_i2 s \<mapsto> set_slots p3 (radix_i3 s) ?cnt (Some sp))))"
    have "s + ?cnt < e \<longrightarrow> provides nw (3 * ((e + 511) div 512 - (s + ?cnt) div 512)) n3"
    proof
      assume "s + ?cnt < e"
      then have "s + ?cnt = s + (512 - s mod 512)" by (auto simp: radix_i3_eq RADIX_NODE_SIZE_eq)
      also have "\<dots> = s div 512 * 512 + 512"
        using div_mult_mod_eq [of s 512] mod_less_divisor [of 512 s] by linarith
      finally have "(s + ?cnt) div 512 = Suc (s div 512)" by simp
      with left show "provides nw (3 * ((e + 511) div 512 - (s + ?cnt) div 512)) n3" by (simp add: need_def)
    qed
    from "1.IH" [OF True refl refl refl refl i0 c(1) refl c(2) refl c(3) refl refl refl "1.prems"(1) this]
    obtain r' n' where run: "SetSpan_loop nw sp (s + ?cnt) e ?r n3 = Inr (r', n')" by blast
    have "SetSpan_loop nw sp s e r n = Inr (r', n')"
      using True i0 c run by (subst SetSpan_loop.simps) (simp add: Let_def)
    then show ?thesis by blast
  qed
qed

lemma child_or_new_inv:
  "child_or_new nw m i p = Some (c, p') \<Longrightarrow> P p \<Longrightarrow> (\<And>q q'. P q \<Longrightarrow> nw q = Some q' \<Longrightarrow> P q') \<Longrightarrow> P p'"
  by (auto simp: child_or_new_def split: option.splits)

lemma SetSpan_loop_inv:
  "SetSpan_loop nw sp s e r n = Inr (r', n') \<Longrightarrow> P n \<Longrightarrow> (\<And>q q'. P q \<Longrightarrow> nw q = Some q' \<Longrightarrow> P q') \<Longrightarrow> P n'"
proof (induction nw sp s e r n rule: SetSpan_loop.induct)
  case (1 nw sp s e r n)
  show ?case
  proof (cases "s < e")
    case False
    with "1.prems"(1,2) show ?thesis by (simp add: SetSpan_loop.simps)
  next
    case True
    from "1.prems"(1) True obtain p1 n1 p2 n2 p3 n3 where
      i0: "\<not> RADIX_ROOT_SIZE \<le> radix_i0 s" and
      c: "child_or_new nw r (radix_i0 s) n = Some (p1, n1)" "child_or_new nw p1 (radix_i1 s) n1 = Some (p2, n2)"
        "child_or_new nw p2 (radix_i2 s) n2 = Some (p3, n3)"
      by (subst (asm) SetSpan_loop.simps) (auto simp: Let_def split: if_splits option.splits prod.splits)
    let ?cnt = "min (e - s) (RADIX_NODE_SIZE - radix_i3 s)"
    have run: "SetSpan_loop nw sp (s + ?cnt) e (r(radix_i0 s \<mapsto> p1(radix_i1 s \<mapsto> p2(radix_i2 s \<mapsto>
        set_slots p3 (radix_i3 s) ?cnt (Some sp))))) n3 = Inr (r', n')"
      using "1.prems"(1) True i0 c by (subst (asm) SetSpan_loop.simps) (simp add: Let_def)
    have "P n3" using c [THEN child_or_new_inv [where P = P]] "1.prems"(2,3) by blast
    from "1.IH" [OF True refl refl refl refl i0 c(1) refl c(2) refl c(3) refl refl refl run this "1.prems"(3)]
    show ?thesis .
  qed
qed

lemma ClearRange_loop_total:
  "s + n \<le> 2 ^ 36 \<Longrightarrow> \<exists>r'. ClearRange_loop s n r = Inr r'"
proof (induction s n r rule: ClearRange_loop.induct)
  case (1 s n r)
  have i0: "\<not> RADIX_ROOT_SIZE \<le> radix_i0 s" if "0 < n"
    using that "1.prems" by (simp add: RADIX_ROOT_SIZE_eq radix_i0_eq less_eq_div_iff_mult_less_eq)
  have le: "s + clear_skip b s n + (n - clear_skip b s n) \<le> 2 ^ 36" for b
    using "1.prems" by (simp add: clear_skip_eq)
  have le3: "s + min n k + (n - min n k) \<le> 2 ^ 36" for k
    using "1.prems" by simp
  note unf = ClearRange_loop.simps [of s n r]
  show ?case
  proof (cases rule: radix_path_cases [where n = n and r = r and s = s])
    case l0
    with "1.IH"(1) [OF l0(1) refl i0 [OF l0(1)] l0(2) refl le] i0 unf show ?thesis by (simp add: Let_def)
  next
    case (l1 p1)
    with "1.IH"(2) [OF l1(1) refl i0 [OF l1(1)] l1(2) refl l1(3) refl le] i0 unf show ?thesis by (simp add: Let_def)
  next
    case (l2 p1 p2)
    with "1.IH"(3) [OF l2(1) refl i0 [OF l2(1)] l2(2) refl l2(3) refl l2(4) refl le] i0 unf
    show ?thesis by (simp add: Let_def)
  next
    case (l3 p1 p2 p3)
    let ?cnt = "min n (RADIX_NODE_SIZE - radix_i3 s)"
    let ?r = "r(radix_i0 s \<mapsto> p1(radix_i1 s \<mapsto> p2(radix_i2 s \<mapsto> set_slots p3 (radix_i3 s) ?cnt None)))"
    have "\<exists>r'. ClearRange_loop (s + ?cnt) (n - ?cnt) ?r = Inr r'"
      by (rule "1.IH"(4) [OF l3(1) refl i0 [OF l3(1)] l3(2) refl l3(3) refl l3(4) refl refl refl le3])
    then show ?thesis using unf l3 i0 by (simp add: Let_def)
  qed (simp add: ClearRange_loop.simps)
qed

lemma flat_empty [simp]: "flat Map.empty q = None"
  by (simp add: flat_def leaf_of_def)

lemma GetSpan_SetSpan:
  assumes "s + n \<le> 2 ^ 36" and "SetSpan nw sp s n pm k = Inr (pm', k')"
  shows "GetSpan pm' q = (if s \<le> q \<and> q < s + n then Some sp else GetSpan pm q)"
proof -
  let ?r = "case root pm of Some r \<Rightarrow> r | None \<Rightarrow> Map.empty"
  have e: "(s + n) mod 2 ^ 64 = s + n" using assms(1) by simp
  from assms(2) obtain r' where "SetSpan_loop nw sp s (s + n) ?r k = Inr (r', k')" and pm': "pm' = pm\<lparr>root := Some r'\<rparr>"
    unfolding SetSpan_def e by (cases "SetSpan_loop nw sp s (s + n) ?r k") auto
  from SetSpan_loop_flat [OF this(1)] have "flat r' q = (if s \<le> q \<and> q < s + n then Some sp else flat ?r q)" .
  then show ?thesis
    using assms(1) by (auto simp: GetSpan_flat pm' split: option.split)
qed

lemma SetSpan_total:
  assumes "s + n \<le> 2 ^ 36" and "provides nw (3 * ((s + n + 511) div 512 - s div 512)) k"
  shows "\<exists>pm' k'. SetSpan nw sp s n pm k = Inr (pm', k')"
proof -
  let ?r = "case root pm of Some r \<Rightarrow> r | None \<Rightarrow> Map.empty"
  have e: "(s + n) mod 2 ^ 64 = s + n" using assms(1) by simp
  from SetSpan_loop_total [OF assms(1) impI [OF assms(2)], of sp ?r]
  obtain r' n' where "SetSpan_loop nw sp s (s + n) ?r k = Inr (r', n')" by blast
  then show ?thesis unfolding SetSpan_def e by simp
qed

lemma SetSpan_inv:
  assumes "SetSpan nw sp s n pm k = Inr (pm', k')" and "P k" and "\<And>q q'. P q \<Longrightarrow> nw q = Some q' \<Longrightarrow> P q'"
  shows "P k'"
proof -
  let ?r = "case root pm of Some r \<Rightarrow> r | None \<Rightarrow> Map.empty"
  from assms(1) obtain r' where "SetSpan_loop nw sp s ((s + n) mod 2 ^ 64) ?r k = Inr (r', k')"
    unfolding SetSpan_def Let_def by (cases "SetSpan_loop nw sp s ((s + n) mod 2 ^ 64) ?r k") auto
  from SetSpan_loop_inv [OF this, of P] assms(2,3) show ?thesis by blast
qed

lemma ClearRange_ok:
  assumes "s + n \<le> 2 ^ 36"
  shows "\<exists>pm'. ClearRange s n pm = Inr pm' \<and>
    (\<forall>q. GetSpan pm' q = (if s \<le> q \<and> q < s + n then None else GetSpan pm q))"
proof (cases "root pm")
  case None
  then show ?thesis by (simp add: ClearRange_def GetSpan_flat)
next
  case (Some r)
  obtain r' where r': "ClearRange_loop s n r = Inr r'" using ClearRange_loop_total [OF assms] by blast
  then have "ClearRange s n pm = Inr (pm\<lparr>root := Some r'\<rparr>)" using Some by (simp add: ClearRange_def)
  moreover have "GetSpan (pm\<lparr>root := Some r'\<rparr>) q = (if s \<le> q \<and> q < s + n then None else GetSpan pm q)" for q
    using Some ClearRange_loop_flat [OF r'] by (simp add: GetSpan_flat)
  ultimately show ?thesis by blast
qed

lemma GetSpan_Reset: "GetSpan (Reset pm) q = None"
  by (simp add: Reset_def GetSpan_def)

text \<open>Rewriting pages that are all mapped needs no new node.\<close>

lemma flat_path:
  assumes "flat r s \<noteq> None"
  obtains p1 p2 p3 where "r (radix_i0 s) = Some p1" and "p1 (radix_i1 s) = Some p2" and "p2 (radix_i2 s) = Some p3"
  using assms by (auto simp: flat_def leaf_of_def split: option.splits)

lemma SetSpan_loop_mapped:
  "e \<le> 2 ^ 36 \<Longrightarrow> (\<And>q. s \<le> q \<Longrightarrow> q < e \<Longrightarrow> flat r q \<noteq> None) \<Longrightarrow>
    \<exists>r'. SetSpan_loop nw sp s e r n = Inr (r', n)"
proof (induction nw sp s e r n rule: SetSpan_loop.induct)
  case (1 nw sp s e r n)
  show ?case
  proof (cases "s < e")
    case False
    then show ?thesis by (simp add: SetSpan_loop.simps)
  next
    case True
    then have "flat r s \<noteq> None" using "1.prems"(2) by simp
    then obtain p1 p2 p3 where p: "r (radix_i0 s) = Some p1" "p1 (radix_i1 s) = Some p2" "p2 (radix_i2 s) = Some p3"
      by (rule flat_path)
    have c: "child_or_new nw r (radix_i0 s) n = Some (p1, n)" "child_or_new nw p1 (radix_i1 s) n = Some (p2, n)"
      "child_or_new nw p2 (radix_i2 s) n = Some (p3, n)"
      using p by (simp_all add: child_or_new_present)
    have i0: "\<not> RADIX_ROOT_SIZE \<le> radix_i0 s"
      using True "1.prems"(1) by (simp add: RADIX_ROOT_SIZE_eq radix_i0_eq less_eq_div_iff_mult_less_eq)
    let ?cnt = "min (e - s) (RADIX_NODE_SIZE - radix_i3 s)"
    let ?r = "r(radix_i0 s \<mapsto> p1(radix_i1 s \<mapsto> p2(radix_i2 s \<mapsto> set_slots p3 (radix_i3 s) ?cnt (Some sp))))"
    have "s mod 512 + ?cnt \<le> 512" by (simp add: radix_i3_eq RADIX_NODE_SIZE_eq)
    from flat_update [OF c this] have f: "flat ?r q = (if s \<le> q \<and> q < s + ?cnt then Some sp else flat r q)" for q
      by (simp add: radix_i3_eq)
    have "flat ?r q \<noteq> None" if "s + ?cnt \<le> q" "q < e" for q
      unfolding f using "1.prems"(2) [of q] that by simp
    from "1.IH" [OF True refl refl refl refl i0 c(1) refl c(2) refl c(3) refl refl refl "1.prems"(1) this]
    obtain r' where run: "SetSpan_loop nw sp (s + ?cnt) e ?r n = Inr (r', n)" by blast
    have "SetSpan_loop nw sp s e r n = Inr (r', n)"
      using True i0 c run by (subst SetSpan_loop.simps) (simp add: Let_def)
    then show ?thesis by blast
  qed
qed

lemma SetSpan_mapped:
  assumes "s + n \<le> 2 ^ 36" and "\<And>q. s \<le> q \<Longrightarrow> q < s + n \<Longrightarrow> GetSpan pm q \<noteq> None"
  shows "\<exists>pm'. SetSpan nw sp s n pm k = Inr (pm', k)"
proof -
  let ?r = "case root pm of Some r \<Rightarrow> r | None \<Rightarrow> Map.empty"
  have e: "(s + n) mod 2 ^ 64 = s + n" using assms(1) by simp
  have "flat ?r q \<noteq> None" if "s \<le> q" "q < s + n" for q
    using assms(2) [OF that] by (auto simp: GetSpan_flat split: option.splits if_splits)
  from SetSpan_loop_mapped [OF assms(1) this, where nw = nw and sp = sp and n = k]
  obtain r' where "SetSpan_loop nw sp s (s + n) ?r k = Inr (r', k)" by blast
  then show ?thesis unfolding SetSpan_def e by simp
qed

lemma SetSpan_loop_error:
  "e \<le> 2 ^ 36 \<Longrightarrow> SetSpan_loop nw sp s e r n = Inl err \<Longrightarrow> err = BadAlloc"
proof (induction nw sp s e r n rule: SetSpan_loop.induct)
  case (1 nw sp s e r n)
  have s: "s < e" using "1.prems"(2) by (rule contrapos_pp) (simp add: SetSpan_loop.simps)
  then have i0: "\<not> RADIX_ROOT_SIZE \<le> radix_i0 s"
    using "1.prems"(1) by (simp add: RADIX_ROOT_SIZE_eq radix_i0_eq less_eq_div_iff_mult_less_eq)
  show ?case
  proof (cases "\<exists>p1 n1 p2 n2 p3 n3. child_or_new nw r (radix_i0 s) n = Some (p1, n1) \<and>
      child_or_new nw p1 (radix_i1 s) n1 = Some (p2, n2) \<and> child_or_new nw p2 (radix_i2 s) n2 = Some (p3, n3)")
    case False
    with "1.prems"(2) s i0 show ?thesis
      by (subst (asm) SetSpan_loop.simps) (auto simp: Let_def split: option.splits)
  next
    case True
    then obtain p1 n1 p2 n2 p3 n3 where c: "child_or_new nw r (radix_i0 s) n = Some (p1, n1)"
      "child_or_new nw p1 (radix_i1 s) n1 = Some (p2, n2)" "child_or_new nw p2 (radix_i2 s) n2 = Some (p3, n3)"
      by blast
    let ?cnt = "min (e - s) (RADIX_NODE_SIZE - radix_i3 s)"
    have run: "SetSpan_loop nw sp (s + ?cnt) e (r(radix_i0 s \<mapsto> p1(radix_i1 s \<mapsto> p2(radix_i2 s \<mapsto>
        set_slots p3 (radix_i3 s) ?cnt (Some sp))))) n3 = Inl err"
      using "1.prems"(2) s i0 c by (subst (asm) SetSpan_loop.simps) (simp add: Let_def)
    from "1.IH" [OF s refl refl refl refl i0 c(1) refl c(2) refl c(3) refl refl refl "1.prems"(1) run]
    show ?thesis .
  qed
qed

lemma SetSpan_error:
  assumes "s + n \<le> 2 ^ 36" and "SetSpan nw sp s n pm k = Inl err"
  shows "err = BadAlloc"
proof -
  let ?r = "case root pm of Some r \<Rightarrow> r | None \<Rightarrow> Map.empty"
  have e: "(s + n) mod 2 ^ 64 = s + n" using assms(1) by simp
  from assms(2) have "SetSpan_loop nw sp s (s + n) ?r k = Inl err"
    unfolding SetSpan_def e by (cases "SetSpan_loop nw sp s (s + n) ?r k") auto
  then show ?thesis by (rule SetSpan_loop_error [OF assms(1)])
qed

section \<open>The contract of a page table\<close>

text \<open>
  What PageCache relies on: publishing a span maps exactly its pages, clearing unmaps exactly
  the range; \<open>limit\<close> is the number of pages of the address space.
\<close>

locale page_table =
  fixes lookup :: "'m \<Rightarrow> nat \<Rightarrow> 'a option"
    and publish :: "'a \<Rightarrow> nat \<Rightarrow> nat \<Rightarrow> 'm \<Rightarrow> 'p \<Rightarrow> pm_error + 'm \<times> 'p"
    and unmap :: "nat \<Rightarrow> nat \<Rightarrow> 'm \<Rightarrow> pm_error + 'm"
    and reset :: "'m \<Rightarrow> 'm" and limit :: nat
  assumes lookup_publish: "s + n \<le> limit \<Longrightarrow> publish sp s n m k = Inr (m', k') \<Longrightarrow>
      lookup m' q = (if s \<le> q \<and> q < s + n then Some sp else lookup m q)"
    and unmap_ok: "s + n \<le> limit \<Longrightarrow> \<exists>m'. unmap s n m = Inr m' \<and>
      (\<forall>q. lookup m' q = (if s \<le> q \<and> q < s + n then None else lookup m q))"
    and lookup_reset: "lookup (reset m) q = None"
begin

lemma publish_unmap:
  assumes "s + n \<le> limit" and "publish sp s n m k = Inr (m', k')"
    and "\<And>q. s \<le> q \<Longrightarrow> q < s + n \<Longrightarrow> lookup m q = None"
  shows "\<exists>m''. unmap s n m' = Inr m'' \<and> lookup m'' = lookup m"
proof -
  obtain m'' where u: "unmap s n m' = Inr m''"
    "\<And>q. lookup m'' q = (if s \<le> q \<and> q < s + n then None else lookup m' q)"
    using unmap_ok [OF assms(1), of m'] by blast
  have "lookup m'' q = lookup m q" for q
    unfolding u(2) lookup_publish [OF assms(1,2)] using assms(3) by simp
  with u(1) show ?thesis by blast
qed

lemma publish_split:
  assumes "s + n \<le> limit" and "j \<le> n"
    and "publish a s j m k = Inr (m1, k1)" and "publish b (s + j) (n - j) m1 k1 = Inr (m2, k2)"
  shows "lookup m2 q = (if s \<le> q \<and> q < s + j then Some a
    else if s + j \<le> q \<and> q < s + n then Some b else lookup m q)"
proof -
  have "s + j \<le> limit" "s + j + (n - j) \<le> limit" "s + j + (n - j) = s + n" using assms(1,2) by simp_all
  then show ?thesis
    unfolding lookup_publish [OF \<open>s + j + (n - j) \<le> limit\<close> assms(4)] lookup_publish [OF \<open>s + j \<le> limit\<close> assms(3)]
    by auto
qed

end

interpretation pm: page_table GetSpan "SetSpan nw" ClearRange Reset "2 ^ 36" for nw :: "'p \<Rightarrow> 'p option"
  by unfold_locales (rule GetSpan_SetSpan ClearRange_ok GetSpan_Reset; assumption)+

section \<open>Properties\<close>

text \<open>
  C26: the radix tree implements a flat map.  After \<open>SetSpan\<close> every page of the span, and no
  other page, is looked up as that span, however many leaves the range crosses.
\<close>

theorem page_map_set_lookup:
  assumes "s + n \<le> 2 ^ 36" and "SetSpan nw sp s n m k = Inr (m', k')"
  shows "GetSpan m' q = (if s \<le> q \<and> q < s + n then Some sp else GetSpan m q)"
  by (rule pm.lookup_publish [OF assms])

lemma SetSpan_demo:
  "\<exists>m' k'. SetSpan Some (7 :: nat) 1000 2000 \<lparr>root = None\<rparr> () = Inr (m', k')"
proof (rule SetSpan_total)
  have "provides Some n ()" for n by (induction n) auto
  then show "provides Some (3 * ((1000 + 2000 + 511) div 512 - 1000 div 512)) ()" .
qed simp

theorem page_map_set_lookup_witness:
  "\<exists>m' k'. SetSpan Some (7 :: nat) 1000 2000 \<lparr>root = None\<rparr> () = Inr (m', k') \<and>
     GetSpan m' 1500 = Some 7 \<and> GetSpan m' 3000 = None"
proof -
  obtain m' k' where s: "SetSpan Some (7 :: nat) 1000 2000 \<lparr>root = None\<rparr> () = Inr (m', k')"
    using SetSpan_demo by blast
  show ?thesis
    using page_map_set_lookup [OF _ s, of 1500] page_map_set_lookup [OF _ s, of 3000] s
    by (simp add: GetSpan_def)
qed

text \<open>
  C28: \<open>SetSpan\<close> succeeds for every range of the 48-bit address space when the node pool can provide
  three nodes per leaf touched; it neither indexes outside of the root array nor loops forever.
\<close>

theorem page_map_set_total:
  assumes "s + n \<le> 2 ^ 36" and "provides nw (3 * ((s + n + 511) div 512 - s div 512)) k"
  shows "\<exists>m' k'. SetSpan nw sp s n m k = Inr (m', k')"
  by (rule SetSpan_total [OF assms])

theorem page_map_set_total_witness:
  "\<exists>m' k'. SetSpan (\<lambda>n. if n = 0 then None else Some (n - 1)) (7 :: nat) 1000 2000 \<lparr>root = None\<rparr> (15 :: nat) = Inr (m', k')"
proof (rule page_map_set_total)
  have "provides (\<lambda>n. if n = 0 then None else Some (n - 1)) k n" if "k \<le> n" for k n :: nat
    using that by (induction k arbitrary: n) auto
  from this [of 15 15]
  show "provides (\<lambda>n. if n = 0 then None else Some (n - 1)) (3 * ((1000 + 2000 + 511) div 512 - 1000 div 512)) (15 :: nat)"
    by simp
qed simp

text \<open>
  C27: \<open>ClearRange\<close> never fails inside of the address space, although it skips whole missing
  subtrees: exactly the pages of the range are unmapped.
\<close>

theorem page_map_clear_lookup:
  assumes "s + n \<le> 2 ^ 36"
  shows "\<exists>m'. ClearRange s n m = Inr m' \<and>
    (\<forall>q. GetSpan m' q = (if s \<le> q \<and> q < s + n then None else GetSpan m q))"
  by (rule pm.unmap_ok [OF assms])

theorem page_map_clear_lookup_witness:
  "\<exists>m'. ClearRange 5 (2 ^ 30) \<lparr>root = Some (Map.empty :: nat radix_root)\<rparr> = Inr m' \<and> GetSpan m' 5 = None"
  using page_map_clear_lookup [of 5 "2 ^ 30" "\<lparr>root = Some (Map.empty :: nat radix_root)\<rparr>"] by force

end
