(* ===== verification/Huge_Page_Cache.thy ===== *)
theory Huge_Page_Cache
  imports Size_Class
begin

text \<open>
  \<open>HugePageCache\<close> of \<open>page_allocator.cpp\<close>: two stacks of slot indices, linked through the slots'
  \<open>next\<close> fields, whose heads pack a 16-bit index with a 48-bit tag.  The operations are those of
  one thread running alone, where every \<open>compare_exchange_weak\<close> that is retried long enough
  succeeds on the value loaded; they are proved to implement a bounded stack of pages.
\<close>

section \<open>Operations\<close>

definition HUGE_PAGE_CACHE_SIZE :: nat where [config_defs]: "HUGE_PAGE_CACHE_SIZE = 16"
definition kInvalid :: nat where [config_defs]: "kInvalid = 0xFFFF"
definition kIndexMask :: nat where [config_defs]: "kIndexMask = 0xFFFF"
definition kTagMask :: nat where [config_defs]: "kTagMask = push_bit 48 1 - 1"

record hp_slot =
  slot_ptr :: addr
  slot_next :: nat

record hp_cache =
  free_head :: nat
  used_head :: nat
  slots :: "hp_slot list"

definition Pack :: "nat \<Rightarrow> nat \<Rightarrow> nat" where
  "Pack index tag = (push_bit 16 (tag AND kTagMask)) OR index"

definition HeadIndex :: "nat \<Rightarrow> nat" where
  "HeadIndex head = head AND kIndexMask"

definition HeadTag :: "nat \<Rightarrow> nat" where
  "HeadTag head = drop_bit 16 head"

definition HugePageCache_ctor :: hp_cache where
  "HugePageCache_ctor =
     \<lparr>free_head = Pack 0 0, used_head = Pack kInvalid 0,
      slots = map (\<lambda>i. \<lparr>slot_ptr = 0,
                        slot_next = (if i < HUGE_PAGE_CACHE_SIZE - 1 then i + 1 else kInvalid)\<rparr>)
                [0..<HUGE_PAGE_CACHE_SIZE]\<rparr>"

text \<open>\<open>Pop\<close> on the head value: the new head and the index taken, \<open>None\<close> when the stack is empty.\<close>

definition Pop :: "hp_slot list \<Rightarrow> nat \<Rightarrow> (nat \<times> nat) option" where
  "Pop sl old_val =
     (let index = HeadIndex old_val
      in if index = kInvalid then None
         else Some (Pack (slot_next (sl ! index)) (HeadTag old_val + 1), index))"

text \<open>\<open>Push\<close>: links the slot to the old top; the new slots and the new head.\<close>

definition Push :: "hp_slot list \<Rightarrow> nat \<Rightarrow> nat \<Rightarrow> hp_slot list \<times> nat" where
  "Push sl old_val index =
     (sl[index := (sl ! index)\<lparr>slot_next := HeadIndex old_val\<rparr>],
      Pack index (HeadTag old_val + 1))"

definition Get :: "hp_cache \<Rightarrow> hp_cache \<times> addr option" where
  "Get c =
     (case Pop (slots c) (used_head c) of
        None \<Rightarrow> (c, None)
      | Some (h, index) \<Rightarrow>
          let ptr = slot_ptr (slots c ! index);
              (sl, f) = Push (slots c) (free_head c) index
          in (c\<lparr>used_head := h, free_head := f, slots := sl\<rparr>, if ptr = 0 then None else Some ptr))"

definition Put :: "addr \<Rightarrow> hp_cache \<Rightarrow> hp_cache \<times> bool" where
  "Put ptr c =
     (case Pop (slots c) (free_head c) of
        None \<Rightarrow> (c, False)
      | Some (h, index) \<Rightarrow>
          let sl1 = (slots c)[index := (slots c ! index)\<lparr>slot_ptr := ptr\<rparr>];
              (sl2, u) = Push sl1 (used_head c) index
          in (c\<lparr>free_head := h, used_head := u, slots := sl2\<rparr>, True))"

section \<open>The two stacks\<close>

lemma Pack_eq: "i < 2 ^ 16 \<Longrightarrow> Pack i t = (t mod 2 ^ 48) * 2 ^ 16 + i"
proof -
  assume i: "i < 2 ^ 16"
  have k: "kTagMask = 2 ^ 48 - 1" by (simp add: kTagMask_def push_bit_eq_mult)
  have "Pack i t = push_bit 16 (t mod 2 ^ 48) OR i"
    by (simp add: Pack_def and_mask_mod [OF k])
  also have "\<dots> = push_bit 16 (t mod 2 ^ 48) + i"
  proof (rule disjunctive_add [symmetric])
    fix n
    have "take_bit 16 i = i" using i by (simp add: take_bit_nat_eq_self_iff)
    then have "bit i n \<Longrightarrow> n < 16" by (metis bit_take_bit_iff)
    then show "\<not> bit (push_bit 16 (t mod 2 ^ 48)) n \<or> \<not> bit i n" by (auto simp: bit_push_bit_iff)
  qed
  finally show ?thesis by (simp add: push_bit_eq_mult)
qed

lemma HeadIndex_eq: "HeadIndex h = h mod 2 ^ 16"
proof -
  have "kIndexMask = 2 ^ 16 - 1" by (simp add: kIndexMask_def)
  then show ?thesis unfolding HeadIndex_def by (rule and_mask_mod)
qed

lemma HeadIndex_Pack [simp]: "i < 2 ^ 16 \<Longrightarrow> HeadIndex (Pack i t) = i"
  by (simp add: HeadIndex_eq Pack_eq)

lemma HeadTag_Pack [simp]: "i < 2 ^ 16 \<Longrightarrow> HeadTag (Pack i t) = t mod 2 ^ 48"
  by (simp add: HeadTag_def drop_bit_eq_div Pack_eq)

text \<open>The indices linked from \<open>i\<close>, top first.\<close>

fun linked :: "hp_slot list \<Rightarrow> nat \<Rightarrow> nat list \<Rightarrow> bool" where
  "linked sl i [] \<longleftrightarrow> i = kInvalid"
| "linked sl i (x # xs) \<longleftrightarrow> i = x \<and> x < length sl \<and> linked sl (slot_next (sl ! x)) xs"

definition hp_inv :: "nat list \<Rightarrow> nat list \<Rightarrow> hp_cache \<Rightarrow> bool" where
  "hp_inv fs us c \<longleftrightarrow>
     length (slots c) = HUGE_PAGE_CACHE_SIZE \<and>
     linked (slots c) (HeadIndex (free_head c)) fs \<and> linked (slots c) (HeadIndex (used_head c)) us \<and>
     distinct (fs @ us) \<and> set (fs @ us) = {..<HUGE_PAGE_CACHE_SIZE} \<and>
     (\<forall>i \<in> set us. slot_ptr (slots c ! i) \<noteq> 0)"

definition cached :: "nat list \<Rightarrow> hp_cache \<Rightarrow> addr list" where
  "cached us c = map (\<lambda>i. slot_ptr (slots c ! i)) us"

lemma linked_less: "linked sl i xs \<Longrightarrow> x \<in> set xs \<Longrightarrow> x < length sl"
  by (induction xs arbitrary: i) auto

lemma linked_update:
  "linked sl i xs \<Longrightarrow> k \<notin> set xs \<Longrightarrow> linked (sl[k := v]) i xs"
  by (induction xs arbitrary: i) auto

lemma linked_ptr_update:
  "linked sl i xs \<Longrightarrow> linked (sl[k := (sl ! k)\<lparr>slot_ptr := p\<rparr>]) i xs"
proof (induction xs arbitrary: i)
  case (Cons x xs)
  then show ?case by (cases "x = k") auto
qed simp

lemma linked_index: "linked sl i xs \<Longrightarrow> length sl = HUGE_PAGE_CACHE_SIZE \<Longrightarrow> i < 2 ^ 16"
  by (cases xs) (auto simp: config_defs)

lemma linked_Cons_ne: "linked sl i (x # xs) \<Longrightarrow> length sl = HUGE_PAGE_CACHE_SIZE \<Longrightarrow> i \<noteq> kInvalid"
  by (auto simp: config_defs)

lemma Pop_linked:
  assumes "linked sl (HeadIndex h) (x # xs)" and "length sl = HUGE_PAGE_CACHE_SIZE"
  shows "\<exists>h'. Pop sl h = Some (h', x) \<and> linked sl (HeadIndex h') xs"
proof -
  have "HeadIndex h = x" "HeadIndex h \<noteq> kInvalid" and r: "linked sl (slot_next (sl ! x)) xs"
    using assms(1) linked_Cons_ne [OF assms] by simp_all
  moreover have "slot_next (sl ! x) < 2 ^ 16" by (rule linked_index [OF r assms(2)])
  ultimately show ?thesis by (simp add: Pop_def)
qed

lemma Push_linked:
  assumes "linked sl (HeadIndex h) xs" and "x < length sl" and "x \<notin> set xs" and "length sl = HUGE_PAGE_CACHE_SIZE"
  shows "\<exists>sl' h'. Push sl h x = (sl', h') \<and> linked sl' (HeadIndex h') (x # xs) \<and>
    sl' = sl[x := (sl ! x)\<lparr>slot_next := HeadIndex h\<rparr>]"
proof -
  have "x < 2 ^ 16" using assms(2,4) by (simp add: config_defs)
  then show ?thesis using assms linked_update [OF assms(1,3)] by (simp add: Push_def)
qed

lemma hp_inv_ctor: "hp_inv [0..<16] [] HugePageCache_ctor"
proof -
  have "linked (slots HugePageCache_ctor) i [i..<16]" if "i < 16" for i
    using that
  proof (induction "15 - i" arbitrary: i)
    case 0
    then have "i = 15" by simp
    then show ?case by (simp add: HugePageCache_ctor_def config_defs upt_rec)
  next
    case (Suc n)
    then have "linked (slots HugePageCache_ctor) (Suc i) [Suc i..<16]" by simp
    with Suc show ?case by (simp add: HugePageCache_ctor_def config_defs upt_rec [of i])
  qed
  from this [of 0] show ?thesis
    by (auto simp: hp_inv_def HugePageCache_ctor_def HUGE_PAGE_CACHE_SIZE_def kInvalid_def)
qed

lemma Get_empty: "hp_inv fs [] c \<Longrightarrow> Get c = (c, None)"
  by (simp add: hp_inv_def Get_def Pop_def)

lemma Get_Cons:
  assumes "hp_inv fs (x # us) c"
  shows "\<exists>c'. Get c = (c', Some (slot_ptr (slots c ! x))) \<and> hp_inv (x # fs) us c' \<and> cached us c' = cached us c"
proof -
  note i = assms [unfolded hp_inv_def]
  from i Pop_linked obtain h where p: "Pop (slots c) (used_head c) = Some (h, x)" "linked (slots c) (HeadIndex h) us"
    by blast
  have x: "x < length (slots c)" "x \<notin> set fs" "x \<notin> set us" using i linked_less by auto
  from i x Push_linked [of "slots c" "free_head c" fs x] obtain sl f where
    q: "Push (slots c) (free_head c) x = (sl, f)" "linked sl (HeadIndex f) (x # fs)"
    and sl: "sl = (slots c)[x := (slots c ! x)\<lparr>slot_next := HeadIndex (free_head c)\<rparr>]" by blast
  have g: "Get c = (c\<lparr>used_head := h, free_head := f, slots := sl\<rparr>, Some (slot_ptr (slots c ! x)))"
    using p q i by (simp add: Get_def)
  have "linked sl (HeadIndex h) us" unfolding sl by (rule linked_update [OF p(2) x(3)])
  then have "hp_inv (x # fs) us (c\<lparr>used_head := h, free_head := f, slots := sl\<rparr>)"
    using i q x by (auto simp: hp_inv_def sl nth_list_update)
  moreover have "cached us (c\<lparr>used_head := h, free_head := f, slots := sl\<rparr>) = cached us c"
    using x(1,3) by (auto simp: cached_def sl nth_list_update)
  ultimately show ?thesis using g by blast
qed

lemma Put_full: "hp_inv [] us c \<Longrightarrow> Put p c = (c, False)"
  by (simp add: hp_inv_def Put_def Pop_def)

lemma Put_Cons:
  assumes "hp_inv (x # fs) us c" and "p \<noteq> 0"
  shows "\<exists>c'. Put p c = (c', True) \<and> hp_inv fs (x # us) c' \<and> cached (x # us) c' = p # cached us c"
proof -
  note i = assms(1) [unfolded hp_inv_def]
  let ?sl = "(slots c)[x := (slots c ! x)\<lparr>slot_ptr := p\<rparr>]"
  from i Pop_linked obtain h where pop: "Pop (slots c) (free_head c) = Some (h, x)" "linked (slots c) (HeadIndex h) fs"
    by blast
  have x: "x < length (slots c)" "x \<notin> set fs" "x \<notin> set us" using i linked_less by auto
  have "linked ?sl (HeadIndex (used_head c)) us" using i by (intro linked_ptr_update) simp
  from Push_linked [OF this _ x(3)] x i obtain sl u where
    q: "Push ?sl (used_head c) x = (sl, u)" "linked sl (HeadIndex u) (x # us)"
    and sl: "sl = ?sl[x := (?sl ! x)\<lparr>slot_next := HeadIndex (used_head c)\<rparr>]" by auto
  have g: "Put p c = (c\<lparr>free_head := h, used_head := u, slots := sl\<rparr>, True)"
    using pop q by (simp add: Put_def)
  have "linked sl (HeadIndex h) fs" unfolding sl
    by (intro linked_update linked_ptr_update pop(2) x(2))
  then have "hp_inv fs (x # us) (c\<lparr>free_head := h, used_head := u, slots := sl\<rparr>)"
    using i q x assms(2) by (auto simp: hp_inv_def sl nth_list_update)
  moreover have "cached (x # us) (c\<lparr>free_head := h, used_head := u, slots := sl\<rparr>) = p # cached us c"
    using x by (auto simp: cached_def sl nth_list_update)
  ultimately show ?thesis using g by blast
qed

section \<open>The contract of the cache\<close>

text \<open>
  A bounded last-in first-out cache: \<open>contents\<close> lists the pages it holds, the most recently
  stored first.
\<close>

definition hp_wf :: "hp_cache \<Rightarrow> addr list \<Rightarrow> bool" where
  "hp_wf c ps \<longleftrightarrow> (\<exists>fs us. hp_inv fs us c \<and> ps = cached us c)"

lemma hp_wf_length: "hp_wf c ps \<Longrightarrow> length ps \<le> HUGE_PAGE_CACHE_SIZE"
proof -
  assume "hp_wf c ps"
  then obtain fs us where h: "hp_inv fs us c" "ps = cached us c" by (auto simp: hp_wf_def)
  then have "length (fs @ us) = card {..<HUGE_PAGE_CACHE_SIZE}"
    unfolding hp_inv_def by (metis distinct_card)
  with h(2) show ?thesis by (simp add: cached_def)
qed

fun chain :: "nat \<Rightarrow> hp_slot list \<Rightarrow> nat \<Rightarrow> nat list" where
  "chain 0 sl i = []"
| "chain (Suc n) sl i = (if i = kInvalid then [] else i # chain n sl (slot_next (sl ! i)))"

definition contents :: "hp_cache \<Rightarrow> addr list" where
  "contents c = cached (chain HUGE_PAGE_CACHE_SIZE (slots c) (HeadIndex (used_head c))) c"

lemma chain_linked:
  "linked sl i xs \<Longrightarrow> length sl = HUGE_PAGE_CACHE_SIZE \<Longrightarrow> length xs \<le> n \<Longrightarrow> chain n sl i = xs"
proof (induction n arbitrary: i xs)
  case (Suc n)
  then show ?case by (cases xs) (auto simp: HUGE_PAGE_CACHE_SIZE_def kInvalid_def)
qed simp

lemma hp_wf_contents: "hp_wf c ps \<Longrightarrow> contents c = ps"
proof -
  assume w: "hp_wf c ps"
  then obtain fs us where h: "hp_inv fs us c" "ps = cached us c" by (auto simp: hp_wf_def)
  then have "chain HUGE_PAGE_CACHE_SIZE (slots c) (HeadIndex (used_head c)) = us"
    using hp_wf_length [OF w] by (intro chain_linked) (auto simp: hp_inv_def cached_def)
  with h(2) show ?thesis by (simp add: contents_def)
qed

locale page_stack =
  fixes holds :: "'c \<Rightarrow> addr list \<Rightarrow> bool" and get :: "'c \<Rightarrow> 'c \<times> addr option"
    and put :: "addr \<Rightarrow> 'c \<Rightarrow> 'c \<times> bool" and bound :: nat
  assumes holds_bound: "holds c ps \<Longrightarrow> length ps \<le> bound"
    and holds_nonnull: "holds c ps \<Longrightarrow> 0 \<notin> set ps"
    and get_Nil: "holds c [] \<Longrightarrow> get c = (c, None)"
    and get_Cons: "holds c (p # ps) \<Longrightarrow> \<exists>c'. get c = (c', Some p) \<and> holds c' ps"
    and put_room: "holds c ps \<Longrightarrow> p \<noteq> 0 \<Longrightarrow> length ps < bound \<Longrightarrow> \<exists>c'. put p c = (c', True) \<and> holds c' (p # ps)"
    and put_full: "holds c ps \<Longrightarrow> p \<noteq> 0 \<Longrightarrow> length ps = bound \<Longrightarrow> put p c = (c, False)"
begin

lemma get_cases:
  assumes "holds c ps"
  obtains (miss) "ps = []" "get c = (c, None)"
  | (hit) p qs c' where "ps = p # qs" "get c = (c', Some p)" "holds c' qs"
  using assms get_Nil get_Cons by (cases ps) blast+

lemma put_cases:
  assumes "holds c ps" and "p \<noteq> 0"
  obtains (stored) c' where "put p c = (c', True)" "holds c' (p # ps)"
  | (full) "put p c = (c, False)"
  using assms put_room put_full holds_bound le_neq_implies_less by metis

lemma put_get:
  assumes "holds c ps" and "p \<noteq> 0" and "put p c = (c', True)"
  shows "\<exists>c''. get c' = (c'', Some p) \<and> holds c'' ps"
  using put_cases [OF assms(1,2)] assms(3) get_Cons by (metis prod.inject)

end

interpretation hpc: page_stack hp_wf Get Put HUGE_PAGE_CACHE_SIZE
proof unfold_locales
  fix c p ps
  show "hp_wf c ps \<Longrightarrow> length ps \<le> HUGE_PAGE_CACHE_SIZE" by (rule hp_wf_length)
  show "hp_wf c ps \<Longrightarrow> 0 \<notin> set ps" by (force simp: hp_wf_def hp_inv_def cached_def)
  show "hp_wf c [] \<Longrightarrow> Get c = (c, None)" by (auto simp: hp_wf_def cached_def intro: Get_empty)
  show "hp_wf c (p # ps) \<Longrightarrow> \<exists>c'. Get c = (c', Some p) \<and> hp_wf c' ps"
  proof -
    assume "hp_wf c (p # ps)"
    then obtain fs x us where "hp_inv fs (x # us) c" "p = slot_ptr (slots c ! x)" "ps = cached us c"
      by (auto simp: hp_wf_def cached_def Cons_eq_map_conv)
    with Get_Cons [OF this(1)] show ?thesis unfolding hp_wf_def by metis
  qed
next
  fix c p ps assume w: "hp_wf c ps" and p: "p \<noteq> (0 :: nat)"
  from w obtain fs us where h: "hp_inv fs us c" "ps = cached us c" by (auto simp: hp_wf_def)
  then have len: "length fs + length ps = HUGE_PAGE_CACHE_SIZE"
    unfolding hp_inv_def cached_def by (metis card_lessThan distinct_card length_append length_map)
  show "\<exists>c'. Put p c = (c', True) \<and> hp_wf c' (p # ps)" if "length ps < HUGE_PAGE_CACHE_SIZE"
  proof -
    from that len obtain x fs' where "fs = x # fs'" by (cases fs) auto
    with Put_Cons [of x fs' us c p] h p show ?thesis unfolding hp_wf_def by metis
  qed
  show "Put p c = (c, False)" if "length ps = HUGE_PAGE_CACHE_SIZE"
    using that len h Put_full by simp
qed

lemma hp_wf_ctor: "hp_wf HugePageCache_ctor []"
  unfolding hp_wf_def using hp_inv_ctor by (auto simp: cached_def)

section \<open>Properties\<close>

text \<open>
  The dual-stack cache behaves as a bounded stack of at most sixteen pages: a page that
  \<open>Put\<close> accepts is the next one \<open>Get\<close> returns, and the other cached pages stay; \<open>Put\<close> refuses
  only when sixteen pages are cached.
\<close>

theorem huge_cache_put_get:
  assumes "hp_wf c ps" and "p \<noteq> 0"
  shows "(case Put p c of
      (c', True) \<Rightarrow> length ps < HUGE_PAGE_CACHE_SIZE \<and> (\<exists>c''. Get c' = (c'', Some p) \<and> hp_wf c'' ps)
    | (c', False) \<Rightarrow> length ps = HUGE_PAGE_CACHE_SIZE \<and> c' = c)"
proof (cases "length ps = HUGE_PAGE_CACHE_SIZE")
  case True
  then show ?thesis using hpc.put_full [OF assms] by simp
next
  case False
  then have "length ps < HUGE_PAGE_CACHE_SIZE" using hpc.holds_bound [OF assms(1)] by simp
  with hpc.put_room [OF assms this] hpc.get_Cons show ?thesis by force
qed

theorem huge_cache_put_get_witness:
  "case Put 4194304 HugePageCache_ctor of
      (c', True) \<Rightarrow> (\<exists>c''. Get c' = (c'', Some 4194304) \<and> hp_wf c'' [])
    | (c', False) \<Rightarrow> False"
  using huge_cache_put_get [OF hp_wf_ctor, of 4194304]
  by (auto simp: HUGE_PAGE_CACHE_SIZE_def split: prod.splits bool.splits)

end
