(* ===== verification/Page_Allocator.thy ===== *)
theory Page_Allocator
  imports Huge_Page_Cache
begin

text \<open>
  \<open>PageAllocator\<close> of \<open>page_allocator.h\<close> and \<open>page_allocator.cpp\<close>.  The operating system is a
  parameter: a record of the system calls the code makes, acting on a kernel state of any type.
  \<open>kernel_ok\<close> states the documented behaviour of those calls relative to the set of mapped
  addresses.  The telemetry counters are the record \<open>pa_stats\<close>.
\<close>

section \<open>System calls and state\<close>

datatype errno = ENOMEM | EOther
datatype advice = MADV_HUGEPAGE | MADV_WILLNEED | MADV_DONTNEED

text \<open>\<open>mmap\<close> with its length and whether \<open>MAP_POPULATE\<close> is set; \<open>munmap\<close> and \<open>madvise\<close> say whether they returned 0.\<close>

record 'k os =
  mmap :: "nat \<Rightarrow> bool \<Rightarrow> 'k \<Rightarrow> (errno + addr) \<times> 'k"
  munmap :: "addr \<Rightarrow> nat \<Rightarrow> 'k \<Rightarrow> bool \<times> 'k"
  madvise :: "addr \<Rightarrow> nat \<Rightarrow> advice \<Rightarrow> 'k \<Rightarrow> bool \<times> 'k"
  steady_clock_ms :: "'k \<Rightarrow> nat \<times> 'k"
  UseMapPopulate :: bool

record pa_stats =
  normal_alloc_count :: u64
  normal_alloc_success :: u64
  normal_alloc_bytes :: u64
  huge_alloc_count :: u64
  huge_alloc_success :: u64
  huge_alloc_bytes :: u64
  huge_align_waste_bytes :: u64
  huge_cache_hit_count :: u64
  huge_cache_miss_count :: u64
  free_count :: u64
  free_bytes :: u64
  normal_alloc_failed_count :: u64
  huge_alloc_failed_count :: u64
  alloc_failed_count :: u64
  huge_fallback_to_normal_count :: u64
  mmap_enomem_count :: u64
  mmap_other_error_count :: u64
  munmap_failed_count :: u64
  madvise_failed_count :: u64

definition zero_stats :: pa_stats where
  "zero_stats =
     \<lparr>normal_alloc_count = 0, normal_alloc_success = 0, normal_alloc_bytes = 0,
      huge_alloc_count = 0, huge_alloc_success = 0, huge_alloc_bytes = 0,
      huge_align_waste_bytes = 0, huge_cache_hit_count = 0, huge_cache_miss_count = 0,
      free_count = 0, free_bytes = 0, normal_alloc_failed_count = 0, huge_alloc_failed_count = 0,
      alloc_failed_count = 0, huge_fallback_to_normal_count = 0, mmap_enomem_count = 0,
      mmap_other_error_count = 0, munmap_failed_count = 0, madvise_failed_count = 0\<rparr>"

record 'k pa =
  kernel :: 'k
  stats :: pa_stats
  cache :: hp_cache

definition tally :: "(pa_stats \<Rightarrow> pa_stats) \<Rightarrow> 'k pa \<Rightarrow> 'k pa" where
  "tally f st = st\<lparr>stats := f (stats st)\<rparr>"

definition ResetStats :: "'k pa \<Rightarrow> 'k pa" where
  "ResetStats st = st\<lparr>stats := zero_stats\<rparr>"

definition MAX_ALLOC_RETRIES :: nat where [config_defs]: "MAX_ALLOC_RETRIES = 3"

section \<open>Operations\<close>

definition IsHugePageAligned :: "addr \<Rightarrow> bool" where
  "IsHugePageAligned ptr \<longleftrightarrow> ptr AND (HUGE_PAGE_SIZE - 1) = 0"

definition SafeMunmap :: "'k os \<Rightarrow> addr \<Rightarrow> nat \<Rightarrow> 'k pa \<Rightarrow> bool \<times> 'k pa" where
  "SafeMunmap os ptr sz st =
     (if ptr = 0 \<or> sz = 0 then (True, st)
      else case munmap os ptr sz (kernel st) of
        (True, k) \<Rightarrow> (True, st\<lparr>kernel := k\<rparr>)
      | (False, k) \<Rightarrow> (False, tally (munmap_failed_count_update (\<lambda>x. x + 1)) (st\<lparr>kernel := k\<rparr>)))"

text \<open>The retry loop of \<open>AllocWithRetry\<close> with the number of attempts that are left.\<close>

primrec retry_loop :: "'k os \<Rightarrow> nat \<Rightarrow> bool \<Rightarrow> nat \<Rightarrow> 'k pa \<Rightarrow> addr option \<times> 'k pa" where
  "retry_loop os sz populate 0 st = (None, st)"
| "retry_loop os sz populate (Suc n) st =
     (case mmap os sz populate (kernel st) of
        (Inr ptr, k) \<Rightarrow> (Some ptr, st\<lparr>kernel := k\<rparr>)
      | (Inl ENOMEM, k) \<Rightarrow>
          retry_loop os sz populate n (tally (mmap_enomem_count_update (\<lambda>x. x + 1)) (st\<lparr>kernel := k\<rparr>))
      | (Inl EOther, k) \<Rightarrow>
          (None, tally (mmap_other_error_count_update (\<lambda>x. x + 1)) (st\<lparr>kernel := k\<rparr>)))"

definition AllocWithRetry :: "'k os \<Rightarrow> nat \<Rightarrow> bool \<Rightarrow> 'k pa \<Rightarrow> addr option \<times> 'k pa" where
  "AllocWithRetry os sz populate st = retry_loop os sz populate MAX_ALLOC_RETRIES st"

definition advise :: "'k os \<Rightarrow> addr \<Rightarrow> nat \<Rightarrow> advice \<Rightarrow> 'k pa \<Rightarrow> bool \<times> 'k pa" where
  "advise os ptr sz a st =
     (case madvise os ptr sz a (kernel st) of
        (True, k) \<Rightarrow> (True, st\<lparr>kernel := k\<rparr>)
      | (False, k) \<Rightarrow> (False, tally (madvise_failed_count_update (\<lambda>x. x + 1)) (st\<lparr>kernel := k\<rparr>)))"

definition ApplyHugePageHint :: "'k os \<Rightarrow> addr \<Rightarrow> nat \<Rightarrow> 'k pa \<Rightarrow> 'k pa" where
  "ApplyHugePageHint os ptr sz st =
     (let st1 = snd (advise os ptr sz MADV_HUGEPAGE st)
      in if UseMapPopulate os then snd (advise os ptr sz MADV_WILLNEED st1) else st1)"

definition AllocNormalPage :: "'k os \<Rightarrow> nat \<Rightarrow> 'k pa \<Rightarrow> addr option \<times> 'k pa" where
  "AllocNormalPage os sz st =
     (case AllocWithRetry os sz (UseMapPopulate os)
             (tally (normal_alloc_count_update (\<lambda>x. x + 1)) st) of
        (None, st1) \<Rightarrow> (None, tally (normal_alloc_failed_count_update (\<lambda>x. x + 1)) st1)
      | (Some ptr, st1) \<Rightarrow>
          (Some ptr, tally (normal_alloc_success_update (\<lambda>x. x + 1) \<circ>
                            normal_alloc_bytes_update (\<lambda>x. x + of_nat sz)) st1))"

text \<open>The cleanup closure: unmaps the pieces that are still mapped, except for the one that just failed.\<close>

definition cleanup_remaining_mappings ::
  "'k os \<Rightarrow> (addr \<times> nat \<times> bool) \<Rightarrow> (addr \<times> nat) \<Rightarrow> (addr \<times> nat \<times> bool) \<Rightarrow> bool \<Rightarrow> bool \<Rightarrow> 'k pa \<Rightarrow> 'k pa" where
  "cleanup_remaining_mappings os head body tail skip_head skip_tail st =
     (case (head, body, tail) of
        ((head_ptr, head_gap, head_mapped), (body_ptr, body_size), (tail_ptr, tail_gap, tail_mapped)) \<Rightarrow>
          let st1 = snd (SafeMunmap os body_ptr body_size st);
              st2 = (if \<not> skip_tail \<and> tail_mapped then snd (SafeMunmap os tail_ptr tail_gap st1) else st1)
          in if \<not> skip_head \<and> head_mapped then snd (SafeMunmap os head_ptr head_gap st2) else st2)"

text \<open>The part of \<open>AllocHugePageWithTrim\<close> after the over-allocation: trims head and tail.\<close>

definition trim_mapping :: "'k os \<Rightarrow> addr \<Rightarrow> nat \<Rightarrow> 'k pa \<Rightarrow> addr option \<times> 'k pa" where
  "trim_mapping os raw_addr sz st =
     (let alloc_size = sz + HUGE_PAGE_SIZE;
          aligned_addr = align_down (raw_addr + HUGE_PAGE_SIZE - 1) HUGE_PAGE_SIZE;
          head_gap = aligned_addr - raw_addr;
          tail_gap = alloc_size - head_gap - sz;
          tail_ptr = aligned_addr + sz;
          failed = tally (huge_alloc_failed_count_update (\<lambda>x. x + 1));
          (head_ok, st1) = (if head_gap > 0 then SafeMunmap os raw_addr head_gap st else (True, st))
      in if \<not> head_ok then
           (None, failed (cleanup_remaining_mappings os (raw_addr, head_gap, True)
              (aligned_addr, sz) (tail_ptr, tail_gap, tail_gap > 0) True False st1))
         else
           let (tail_ok, st2) = (if tail_gap > 0 then SafeMunmap os tail_ptr tail_gap st1 else (True, st1))
           in if \<not> tail_ok then
                (None, failed (cleanup_remaining_mappings os (raw_addr, head_gap, False)
                   (aligned_addr, sz) (tail_ptr, tail_gap, True) False True st2))
              else
                (Some aligned_addr,
                 tally (huge_alloc_success_update (\<lambda>x. x + 1) \<circ>
                        huge_alloc_bytes_update (\<lambda>x. x + of_nat sz))
                   (ApplyHugePageHint os aligned_addr sz
                      (tally (huge_align_waste_bytes_update (\<lambda>x. x + of_nat (head_gap + tail_gap))) st2))))"

definition AllocHugePageWithTrim :: "'k os \<Rightarrow> nat \<Rightarrow> 'k pa \<Rightarrow> addr option \<times> 'k pa" where
  "AllocHugePageWithTrim os sz st =
     (let failed = tally (huge_alloc_failed_count_update (\<lambda>x. x + 1))
      in if sz > SIZE_MAX - HUGE_PAGE_SIZE then (None, failed st)
         else case AllocWithRetry os (sz + HUGE_PAGE_SIZE) False st of
           (None, st1) \<Rightarrow> (None, failed st1)
         | (Some raw_addr, st1) \<Rightarrow> trim_mapping os raw_addr sz st1)"

definition AllocHugePage :: "'k os \<Rightarrow> nat \<Rightarrow> 'k pa \<Rightarrow> addr option \<times> 'k pa" where
  "AllocHugePage os sz st =
     (case AllocWithRetry os sz False (tally (huge_alloc_count_update (\<lambda>x. x + 1)) st) of
        (None, st1) \<Rightarrow> (None, tally (huge_alloc_failed_count_update (\<lambda>x. x + 1)) st1)
      | (Some ptr, st1) \<Rightarrow>
          if IsHugePageAligned ptr then
            (Some ptr, tally (huge_alloc_success_update (\<lambda>x. x + 1) \<circ>
                              huge_alloc_bytes_update (\<lambda>x. x + of_nat sz)) (ApplyHugePageHint os ptr sz st1))
          else AllocHugePageWithTrim os sz (snd (SafeMunmap os ptr sz st1)))"

text \<open>The pieces of \<open>SystemAlloc\<close>: failure telemetry, the cache lookup and the availability-first fallback.\<close>

definition count_failed :: "addr option \<times> 'k pa \<Rightarrow> addr option \<times> 'k pa" where
  "count_failed res =
     (case res of
        (None, st) \<Rightarrow> (None, tally (alloc_failed_count_update (\<lambda>x. x + 1)) st)
      | (Some ptr, st) \<Rightarrow> (Some ptr, st))"

definition huge_cache_lookup :: "nat \<Rightarrow> 'k pa \<Rightarrow> addr option \<times> 'k pa" where
  "huge_cache_lookup sz st =
     (if sz = HUGE_PAGE_SIZE then
        (case Get (cache st) of
           (c, Some ptr) \<Rightarrow>
             if IsHugePageAligned ptr
             then (Some ptr, tally (huge_cache_hit_count_update (\<lambda>x. x + 1)) (st\<lparr>cache := c\<rparr>))
             else (None, tally (huge_cache_miss_count_update (\<lambda>x. x + 1)) (st\<lparr>cache := c\<rparr>))
         | (c, None) \<Rightarrow> (None, tally (huge_cache_miss_count_update (\<lambda>x. x + 1)) (st\<lparr>cache := c\<rparr>)))
      else (None, st))"

definition alloc_huge_or_normal :: "'k os \<Rightarrow> nat \<Rightarrow> 'k pa \<Rightarrow> addr option \<times> 'k pa" where
  "alloc_huge_or_normal os sz st =
     (case AllocHugePage os sz st of
        (Some ptr, st1) \<Rightarrow> (Some ptr, st1)
      | (None, st1) \<Rightarrow>
          count_failed (AllocNormalPage os sz (tally (huge_fallback_to_normal_count_update (\<lambda>x. x + 1)) st1)))"

definition SystemAlloc :: "'k os \<Rightarrow> nat \<Rightarrow> 'k pa \<Rightarrow> addr option \<times> 'k pa" where
  "SystemAlloc os pages st =
     (if pages = 0 \<or> pages > drop_bit PAGE_SHIFT SIZE_MAX then (None, st)
      else
        let sz = push_bit PAGE_SHIFT pages
        in if sz < drop_bit 1 HUGE_PAGE_SIZE then count_failed (AllocNormalPage os sz st)
           else case huge_cache_lookup sz st of
             (Some ptr, st1) \<Rightarrow> (Some ptr, st1)
           | (None, st1) \<Rightarrow> alloc_huge_or_normal os sz st1)"

definition SystemFree :: "'k os \<Rightarrow> addr \<Rightarrow> nat \<Rightarrow> 'k pa \<Rightarrow> 'k pa" where
  "SystemFree os ptr pages st =
     (if ptr = 0 \<or> pages = 0 \<or> pages > drop_bit PAGE_SHIFT SIZE_MAX then st
      else
        let sz = push_bit PAGE_SHIFT pages;
            st1 = tally (free_count_update (\<lambda>x. x + 1) \<circ> free_bytes_update (\<lambda>x. x + of_nat sz)) st
        in if sz = HUGE_PAGE_SIZE \<and> IsHugePageAligned ptr then
             (case advise os ptr sz MADV_DONTNEED st1 of
                (False, st2) \<Rightarrow> snd (SafeMunmap os ptr sz st2)
              | (True, st2) \<Rightarrow>
                  (case Put ptr (cache st2) of
                     (c, True) \<Rightarrow> st2\<lparr>cache := c\<rparr>
                   | (c, False) \<Rightarrow> snd (SafeMunmap os ptr sz (st2\<lparr>cache := c\<rparr>))))
           else snd (SafeMunmap os ptr sz st1))"

text \<open>\<open>ReleaseAllForTesting\<close>: the loop ends after at most \<open>HUGE_PAGE_CACHE_SIZE\<close> pages.\<close>

primrec release_loop :: "'k os \<Rightarrow> nat \<Rightarrow> 'k pa \<Rightarrow> 'k pa" where
  "release_loop os 0 st = st"
| "release_loop os (Suc n) st =
     (case Get (cache st) of
        (c, None) \<Rightarrow> st\<lparr>cache := c\<rparr>
      | (c, Some ptr) \<Rightarrow>
          (case munmap os ptr HUGE_PAGE_SIZE (kernel st) of
             (True, k) \<Rightarrow> release_loop os n (st\<lparr>cache := c, kernel := k\<rparr>)
           | (False, k) \<Rightarrow> release_loop os n
               (tally (munmap_failed_count_update (\<lambda>x. x + 1)) (st\<lparr>cache := c, kernel := k\<rparr>))))"

definition ReleaseHugePageCache :: "'k os \<Rightarrow> 'k pa \<Rightarrow> 'k pa" where
  "ReleaseHugePageCache os st = release_loop os (Suc HUGE_PAGE_CACHE_SIZE) st"

section \<open>The kernel contract\<close>

definition bytes :: "addr \<Rightarrow> nat \<Rightarrow> addr set" where
  "bytes p n = {p..<p + n}"

text \<open>
  The documented behaviour of the calls on anonymous mappings of whole pages: \<open>mmap\<close> returns a
  page-aligned, non-null range of the user address space that was not mapped before; \<open>munmap\<close>
  removes exactly its range when it succeeds; \<open>madvise\<close> and the clock leave the mappings alone.
\<close>

definition kernel_ok :: "'k os \<Rightarrow> ('k \<Rightarrow> addr set) \<Rightarrow> bool" where
  "kernel_ok os mapped \<longleftrightarrow>
     (\<forall>n b k p k'. 0 < n \<longrightarrow> n mod PAGE_SIZE = 0 \<longrightarrow> mmap os n b k = (Inr p, k') \<longrightarrow>
        p \<noteq> 0 \<and> p mod PAGE_SIZE = 0 \<and> p + n \<le> 2 ^ 47 \<and>
        bytes p n \<inter> mapped k = {} \<and> mapped k' = mapped k \<union> bytes p n) \<and>
     (\<forall>n b k e k'. mmap os n b k = (Inl e, k') \<longrightarrow> mapped k' = mapped k) \<and>
     (\<forall>p n k k'. p mod PAGE_SIZE = 0 \<longrightarrow> n mod PAGE_SIZE = 0 \<longrightarrow> munmap os p n k = (True, k') \<longrightarrow>
        mapped k' = mapped k - bytes p n) \<and>
     (\<forall>p n k k'. munmap os p n k = (False, k') \<longrightarrow> mapped k' = mapped k) \<and>
     (\<forall>p n a k. mapped (snd (madvise os p n a k)) = mapped k) \<and>
     (\<forall>k. mapped (snd (steady_clock_ms os k)) = mapped k)"

definition munmap_succeeds :: "'k os \<Rightarrow> bool" where
  "munmap_succeeds os \<longleftrightarrow> (\<forall>p n k. fst (munmap os p n k))"

lemma kernel_mmap_ok:
  assumes "kernel_ok os mapped" and "0 < n" and "n mod PAGE_SIZE = 0" and "mmap os n b k = (Inr p, k')"
  shows "p \<noteq> 0 \<and> p mod PAGE_SIZE = 0 \<and> p + n \<le> 2 ^ 47 \<and>
    bytes p n \<inter> mapped k = {} \<and> mapped k' = mapped k \<union> bytes p n"
  using assms(1) [unfolded kernel_ok_def, THEN conjunct1] assms(2-4) by metis

lemma kernel_mmap_fail: "kernel_ok os mapped \<Longrightarrow> mmap os n b k = (Inl e, k') \<Longrightarrow> mapped k' = mapped k"
  unfolding kernel_ok_def by (elim conjE) metis

lemma kernel_munmap:
  assumes "kernel_ok os mapped" and "p mod PAGE_SIZE = 0" and "n mod PAGE_SIZE = 0" and "munmap os p n k = (ok, k')"
  shows "mapped k' = (if ok then mapped k - bytes p n else mapped k)"
proof (cases ok)
  case True
  have "\<forall>p n k k'. p mod PAGE_SIZE = 0 \<longrightarrow> n mod PAGE_SIZE = 0 \<longrightarrow> munmap os p n k = (True, k') \<longrightarrow>
        mapped k' = mapped k - bytes p n" using assms(1) unfolding kernel_ok_def by (elim conjE)
  with True assms(2-4) show ?thesis by simp
next
  case False
  have "\<forall>p n k k'. munmap os p n k = (False, k') \<longrightarrow> mapped k' = mapped k"
    using assms(1) unfolding kernel_ok_def by (elim conjE)
  with False assms(4) show ?thesis by simp
qed

lemma kernel_madvise:
  assumes "kernel_ok os mapped" and "madvise os p n a k = (ok, k')"
  shows "mapped k' = mapped k"
proof -
  have "\<forall>p n a k. mapped (snd (madvise os p n a k)) = mapped k"
    using assms(1) unfolding kernel_ok_def by (elim conjE)
  from this [rule_format, of p n a k] assms(2) show ?thesis by simp
qed

lemma kernel_clock:
  assumes "kernel_ok os mapped" and "steady_clock_ms os k = (t, k')"
  shows "mapped k' = mapped k"
proof -
  have "\<forall>k. mapped (snd (steady_clock_ms os k)) = mapped k"
    using assms(1) unfolding kernel_ok_def by (elim conjE)
  from this [rule_format, of k] assms(2) show ?thesis by simp
qed

lemma tally_simps [simp]:
  "kernel (tally f st) = kernel st" "cache (tally f st) = cache st"
  by (simp_all add: tally_def)

section \<open>What the helpers do to the mappings\<close>

text \<open>What an allocation of \<open>n\<close> bytes outside of the cache may do.\<close>

definition granted :: "nat \<Rightarrow> addr option \<Rightarrow> addr set" where
  "granted n r = (case r of None \<Rightarrow> {} | Some p \<Rightarrow> bytes p n)"

definition alloc_spec :: "'k os \<Rightarrow> ('k \<Rightarrow> addr set) \<Rightarrow> nat \<Rightarrow> 'k pa \<Rightarrow> addr option \<times> 'k pa \<Rightarrow> bool" where
  "alloc_spec os mapped n st res \<longleftrightarrow>
     (case res of (r, st') \<Rightarrow>
        cache st' = cache st \<and>
        (\<forall>p. r = Some p \<longrightarrow> p \<noteq> 0 \<and> p mod PAGE_SIZE = 0 \<and> p + n \<le> 2 ^ 47) \<and>
        granted n r \<inter> mapped (kernel st) = {} \<and>
        mapped (kernel st) \<union> granted n r \<subseteq> mapped (kernel st') \<and>
        (munmap_succeeds os \<longrightarrow> mapped (kernel st') = mapped (kernel st) \<union> granted n r))"

lemma SafeMunmap_spec:
  assumes "kernel_ok os mapped" and "p mod PAGE_SIZE = 0" and "n mod PAGE_SIZE = 0" and "p \<noteq> 0"
    and "SafeMunmap os p n st = (ok, st')"
  shows "cache st' = cache st \<and> (munmap_succeeds os \<longrightarrow> ok) \<and>
    mapped (kernel st') = (if ok then mapped (kernel st) - bytes p n else mapped (kernel st))"
proof (cases "n = 0")
  case True
  then show ?thesis using assms(5) by (simp add: SafeMunmap_def bytes_def split: if_splits)
next
  case False
  obtain ok' k where m: "munmap os p n (kernel st) = (ok', k)" by (rule prod.exhaust)
  have "ok = ok'" "cache st' = cache st" "kernel st' = k"
    using assms(4,5) m False by (cases ok'; simp add: SafeMunmap_def; force)+
  moreover have "munmap_succeeds os \<Longrightarrow> ok'"
    unfolding munmap_succeeds_def by (drule spec [of _ p], drule spec [of _ n], drule spec [of _ "kernel st"]) (simp add: m)
  ultimately show ?thesis using kernel_munmap [OF assms(1-3) m] by simp
qed

lemma advise_spec:
  assumes "kernel_ok os mapped" and "advise os p n a st = (ok, st')"
  shows "cache st' = cache st \<and> mapped (kernel st') = mapped (kernel st)"
  using assms kernel_madvise [OF assms(1)]
  by (auto simp: advise_def split: prod.splits bool.splits)

lemma ApplyHugePageHint_spec:
  assumes "kernel_ok os mapped"
  shows "cache (ApplyHugePageHint os p n st) = cache st \<and>
    mapped (kernel (ApplyHugePageHint os p n st)) = mapped (kernel st)"
  using advise_spec [OF assms prod.collapse [symmetric]] by (simp add: ApplyHugePageHint_def Let_def)

lemma retry_loop_spec:
  assumes "kernel_ok os mapped" and "0 < n" and "n mod PAGE_SIZE = 0"
  shows "alloc_spec os mapped n st (retry_loop os n b m st) \<and>
    (case retry_loop os n b m st of (r, st') \<Rightarrow> mapped (kernel st') = mapped (kernel st) \<union> granted n r)"
proof (induction m arbitrary: st)
  case 0
  then show ?case by (simp add: alloc_spec_def granted_def)
next
  case (Suc m)
  obtain x k where k: "mmap os n b (kernel st) = (x, k)" by (rule prod.exhaust)
  show ?case
  proof (cases x)
    case (Inr p)
    with k kernel_mmap_ok [OF assms, of b "kernel st" p k] show ?thesis
      by (auto simp: alloc_spec_def granted_def)
  next
    case (Inl e)
    with k have "mapped k = mapped (kernel st)" using kernel_mmap_fail [OF assms(1)] by blast
    with k Inl Suc.IH [of "tally (mmap_enomem_count_update (\<lambda>x. x + 1)) (st\<lparr>kernel := k\<rparr>)"] show ?thesis
      by (cases e) (auto simp: alloc_spec_def granted_def split: prod.splits)
  qed
qed

lemma alloc_spec_tally:
  "alloc_spec os mapped n st (r, st') \<Longrightarrow> alloc_spec os mapped n (tally f st) (r, tally g st')"
  by (simp add: alloc_spec_def)

lemma AllocWithRetry_spec:
  assumes "kernel_ok os mapped" and "0 < n" and "n mod PAGE_SIZE = 0" and "AllocWithRetry os n b st = (r, st')"
  shows "alloc_spec os mapped n st (r, st')" and "mapped (kernel st') = mapped (kernel st) \<union> granted n r"
  using retry_loop_spec [OF assms(1-3), of st b MAX_ALLOC_RETRIES] assms(4)
  by (auto simp: AllocWithRetry_def)

lemma AllocNormalPage_spec:
  assumes "kernel_ok os mapped" and "0 < n" and "n mod PAGE_SIZE = 0"
  shows "alloc_spec os mapped n st (AllocNormalPage os n st)"
proof -
  let ?st = "tally (normal_alloc_count_update (\<lambda>x. x + 1)) st"
  obtain r st1 where a: "AllocWithRetry os n (UseMapPopulate os) ?st = (r, st1)" by (rule prod.exhaust)
  note AllocWithRetry_spec(1) [OF assms a]
  with a show ?thesis by (cases r) (simp_all add: AllocNormalPage_def alloc_spec_def)
qed

lemma SafeMunmap_keeps:
  assumes "kernel_ok os mapped" and "p mod PAGE_SIZE = 0" and "n mod PAGE_SIZE = 0" and "p \<noteq> 0"
    and "M \<subseteq> mapped (kernel st)" and "bytes p n \<inter> M = {}"
  shows "M \<subseteq> mapped (kernel (snd (SafeMunmap os p n st))) \<and> cache (snd (SafeMunmap os p n st)) = cache st"
  using SafeMunmap_spec [OF assms(1-4) prod.collapse [symmetric], of st] assms(5,6) by auto

lemma cleanup_keeps:
  assumes "kernel_ok os mapped" and "hp mod PAGE_SIZE = 0" "hn mod PAGE_SIZE = 0" "hp \<noteq> 0"
    and "bp mod PAGE_SIZE = 0" "bn mod PAGE_SIZE = 0" "bp \<noteq> 0"
    and "tp mod PAGE_SIZE = 0" "tn mod PAGE_SIZE = 0" "tp \<noteq> 0"
    and "M \<subseteq> mapped (kernel st)" and "bytes hp hn \<inter> M = {}" "bytes bp bn \<inter> M = {}" "bytes tp tn \<inter> M = {}"
  shows "M \<subseteq> mapped (kernel (cleanup_remaining_mappings os (hp, hn, hm) (bp, bn) (tp, tn, tm) sh sk st)) \<and>
    cache (cleanup_remaining_mappings os (hp, hn, hm) (bp, bn) (tp, tn, tm) sh sk st) = cache st"
proof -
  let ?st1 = "snd (SafeMunmap os bp bn st)"
  let ?st2 = "if \<not> sk \<and> tm then snd (SafeMunmap os tp tn ?st1) else ?st1"
  have 1: "M \<subseteq> mapped (kernel ?st1) \<and> cache ?st1 = cache st"
    using assms by (intro SafeMunmap_keeps)
  have 2: "M \<subseteq> mapped (kernel ?st2) \<and> cache ?st2 = cache st"
    using SafeMunmap_keeps [of os mapped tp tn M ?st1] 1 assms by simp
  show ?thesis
    using SafeMunmap_keeps [of os mapped hp hn M ?st2] 2 assms
    by (simp add: cleanup_remaining_mappings_def Let_def)
qed

lemma mod_dvd_mod_0: "x mod (a :: nat) = 0 \<Longrightarrow> b dvd a \<Longrightarrow> x mod b = 0"
  by (meson dvd_trans mod_0_imp_dvd dvd_imp_mod_0)

lemma page_dvd_huge: "PAGE_SIZE dvd HUGE_PAGE_SIZE"
  by (simp add: PAGE_SIZE_def HUGE_PAGE_SIZE_def)

lemma trim_layout:
  fixes raw sz :: nat
  assumes "raw mod PAGE_SIZE = 0" and "sz mod PAGE_SIZE = 0"
  defines "A \<equiv> align_down (raw + HUGE_PAGE_SIZE - 1) HUGE_PAGE_SIZE"
  shows "raw \<le> A" "A - raw < HUGE_PAGE_SIZE" "A mod PAGE_SIZE = 0" "(A - raw) mod PAGE_SIZE = 0"
    "sz + HUGE_PAGE_SIZE - (A - raw) - sz = HUGE_PAGE_SIZE - (A - raw)"
    "(HUGE_PAGE_SIZE - (A - raw)) mod PAGE_SIZE = 0" "(A + sz) mod PAGE_SIZE = 0" "A mod HUGE_PAGE_SIZE = 0"
proof -
  have H: "0 < HUGE_PAGE_SIZE" by (simp add: HUGE_PAGE_SIZE_def)
  note b = align_up_bounds [OF H, of raw, folded A_def]
  show le: "raw \<le> A" and A: "A mod HUGE_PAGE_SIZE = 0" by (rule b)+
  show lt: "A - raw < HUGE_PAGE_SIZE" using b(1,2) by linarith
  show Ap: "A mod PAGE_SIZE = 0" by (rule mod_dvd_mod_0 [OF A page_dvd_huge])
  show d: "(A - raw) mod PAGE_SIZE = 0"
    using Ap assms(1) le by (metis dvd_diff_nat dvd_imp_mod_0 mod_0_imp_dvd)
  show "(HUGE_PAGE_SIZE - (A - raw)) mod PAGE_SIZE = 0"
    using d page_dvd_huge by (metis dvd_diff_nat dvd_imp_mod_0 mod_0_imp_dvd)
  show "(A + sz) mod PAGE_SIZE = 0" using Ap assms(2) by (metis dvd_add dvd_imp_mod_0 mod_0_imp_dvd)
  show "sz + HUGE_PAGE_SIZE - (A - raw) - sz = HUGE_PAGE_SIZE - (A - raw)" by simp
qed

lemma unmap_piece:
  assumes "kernel_ok os mapped" and "p mod PAGE_SIZE = 0" and "n mod PAGE_SIZE = 0" and "p \<noteq> 0"
    and "(if 0 < n then SafeMunmap os p n st else (True, st)) = (ok, st')"
  shows "cache st' = cache st \<and> (munmap_succeeds os \<longrightarrow> ok) \<and>
    mapped (kernel st') = (if ok then mapped (kernel st) - bytes p n else mapped (kernel st))"
  using SafeMunmap_spec [OF assms(1-4)] assms(5) by (auto simp: bytes_def split: if_splits)

lemma trim_mapping_spec:
  assumes os: "kernel_ok os mapped" and n: "n mod PAGE_SIZE = 0"
    and raw: "raw \<noteq> 0" "raw mod PAGE_SIZE = 0" "raw + (n + HUGE_PAGE_SIZE) \<le> 2 ^ 47"
    and M: "bytes raw (n + HUGE_PAGE_SIZE) \<inter> M = {}" "mapped (kernel st) = M \<union> bytes raw (n + HUGE_PAGE_SIZE)"
    and res: "trim_mapping os raw n st = (r, st')"
  shows "cache st' = cache st \<and>
    (\<forall>p. r = Some p \<longrightarrow> p \<noteq> 0 \<and> p mod PAGE_SIZE = 0 \<and> p + n \<le> 2 ^ 47) \<and>
    granted n r \<inter> M = {} \<and> M \<union> granted n r \<subseteq> mapped (kernel st') \<and>
    (munmap_succeeds os \<longrightarrow> mapped (kernel st') = M \<union> granted n r)"
proof -
  let ?H = HUGE_PAGE_SIZE
  define A where "A = align_down (raw + ?H - 1) ?H"
  define hg where "hg = A - raw"
  define tg where "tg = ?H - hg"
  note lay = trim_layout [OF raw(2) n, folded A_def, folded hg_def, folded tg_def]
  have eq: "bytes raw (n + ?H) = bytes raw hg \<union> bytes A n \<union> bytes (A + n) tg"
    "bytes raw hg \<inter> bytes A n = {}" "bytes (A + n) tg \<inter> bytes A n = {}"
    using lay(1,2) by (auto simp: bytes_def hg_def tg_def)
  have nz: "A \<noteq> 0" "A + n \<noteq> 0" "A + n \<le> 2 ^ 47" using raw(1,3) lay(1,2) by (simp_all add: hg_def)
  have off: "bytes raw hg \<inter> M = {}" "bytes A n \<inter> M = {}" "bytes (A + n) tg \<inter> M = {}"
    using M(1) eq(1) by auto
  obtain hok st1 where h: "(if 0 < hg then SafeMunmap os raw hg st else (True, st)) = (hok, st1)"
    by (rule prod.exhaust)
  note st1 = unmap_piece [OF os raw(2) lay(4) raw(1) h]
  obtain tok st2 where t: "(if 0 < tg then SafeMunmap os (A + n) tg st1 else (True, st1)) = (tok, st2)"
    by (rule prod.exhaust)
  note st2 = unmap_piece [OF os lay(7) lay(6) nz(2) t]
  note unf = res [unfolded trim_mapping_def Let_def, folded A_def, folded hg_def, unfolded lay(5), unfolded h, simplified,
      unfolded t, simplified]
  have M1: "M \<subseteq> mapped (kernel st1)" "M \<subseteq> mapped (kernel st2)" using st1 st2 M(2) off by auto
  note clean = cleanup_keeps [OF os raw(2) lay(4) raw(1) lay(3) n nz(1) lay(7) lay(6) nz(2) _ off]
  consider "\<not> hok" | "hok" "\<not> tok" | "hok" "tok" by blast
  then show ?thesis
  proof cases
    case 1
    with unf have "r = None" "kernel st' = kernel (cleanup_remaining_mappings os (raw, hg, True)
        (A, n) (A + n, tg, 0 < tg) True False st1)" "cache st' = cache (cleanup_remaining_mappings os (raw, hg, True)
        (A, n) (A + n, tg, 0 < tg) True False st1)" by auto
    with 1 st1 clean [OF M1(1)] show ?thesis by (simp add: granted_def)
  next
    case 2
    with unf have "r = None" "kernel st' = kernel (cleanup_remaining_mappings os (raw, hg, False)
        (A, n) (A + n, tg, True) False True st2)" "cache st' = cache (cleanup_remaining_mappings os (raw, hg, False)
        (A, n) (A + n, tg, True) False True st2)" by auto
    with 2 st1 st2 clean [OF M1(2)] show ?thesis by (simp add: granted_def)
  next
    case 3
    with unf have r: "r = Some A" and c: "cache st' = cache st2 \<and> mapped (kernel st') = mapped (kernel st2)"
      using ApplyHugePageHint_spec [OF os] by auto
    have "mapped (kernel st2) = M \<union> bytes A n"
      using 3 st1 st2 M(2) eq off by auto
    with r c st1 st2 nz lay(3) off show ?thesis by (simp add: granted_def)
  qed
qed

lemma AllocHugePageWithTrim_spec:
  assumes os: "kernel_ok os mapped" and n: "0 < n" "n mod PAGE_SIZE = 0"
  shows "alloc_spec os mapped n st (AllocHugePageWithTrim os n st)"
proof (cases "n > SIZE_MAX - HUGE_PAGE_SIZE")
  case True
  then show ?thesis by (simp add: AllocHugePageWithTrim_def alloc_spec_def granted_def Let_def)
next
  case False
  let ?N = "n + HUGE_PAGE_SIZE"
  obtain r st1 where a: "AllocWithRetry os ?N False st = (r, st1)" by (rule prod.exhaust)
  have N: "0 < ?N" "?N mod PAGE_SIZE = 0" using n page_dvd_huge by (auto simp: mod_eq_0_iff_dvd)
  note sp = AllocWithRetry_spec [OF os N a]
  show ?thesis
  proof (cases r)
    case None
    with a False sp show ?thesis by (simp add: AllocHugePageWithTrim_def alloc_spec_def granted_def Let_def)
  next
    case (Some raw)
    obtain r' st' where t: "trim_mapping os raw n st1 = (r', st')" by (rule prod.exhaust)
    have "AllocHugePageWithTrim os n st = (r', st')"
      using a False Some t by (simp add: AllocHugePageWithTrim_def Let_def)
    then show ?thesis
      using trim_mapping_spec [OF os n(2) _ _ _ _ _ t, of "mapped (kernel st)"] sp Some
      by (simp add: alloc_spec_def granted_def)
  qed
qed

lemma AllocHugePage_spec:
  assumes os: "kernel_ok os mapped" and n: "0 < n" "n mod PAGE_SIZE = 0"
  shows "alloc_spec os mapped n st (AllocHugePage os n st)"
proof -
  let ?st = "tally (huge_alloc_count_update (\<lambda>x. x + 1)) st"
  obtain r st1 where a: "AllocWithRetry os n False ?st = (r, st1)" by (rule prod.exhaust)
  note sp = AllocWithRetry_spec [OF os n a]
  show ?thesis
  proof (cases r)
    case None
    with a sp show ?thesis by (simp add: AllocHugePage_def alloc_spec_def granted_def)
  next
    case (Some p)
    show ?thesis
    proof (cases "IsHugePageAligned p")
      case True
      with a Some sp ApplyHugePageHint_spec [OF os, of p n st1] show ?thesis
        by (simp add: AllocHugePage_def alloc_spec_def)
    next
      case False
      let ?st2 = "snd (SafeMunmap os p n st1)"
      have p: "p mod PAGE_SIZE = 0" "p \<noteq> 0" "bytes p n \<inter> mapped (kernel st) = {}"
        "mapped (kernel st1) = mapped (kernel st) \<union> bytes p n" "cache st1 = cache st"
        using sp Some by (simp_all add: alloc_spec_def granted_def)
      have m: "cache ?st2 = cache st" "mapped (kernel st) \<subseteq> mapped (kernel ?st2)"
        "munmap_succeeds os \<longrightarrow> mapped (kernel ?st2) = mapped (kernel st)"
        using SafeMunmap_spec [OF os p(1) n(2) p(2) prod.collapse [symmetric], of st1] p(3-5) by auto
      have "AllocHugePage os n st = AllocHugePageWithTrim os n ?st2"
        using a Some False by (simp add: AllocHugePage_def)
      then show ?thesis
        using AllocHugePageWithTrim_spec [OF os n, of ?st2] m by (auto simp: alloc_spec_def)
    qed
  qed
qed

section \<open>Ownership\<close>

text \<open>
  \<open>pa_inv\<close>: the cached pages are mapped, aligned and distinct.  \<open>in_use\<close> is the mapped memory
  that is not in the cache.
\<close>

definition cached_bytes :: "addr list \<Rightarrow> addr set" where
  "cached_bytes ps = (\<Union>p \<in> set ps. bytes p HUGE_PAGE_SIZE)"

definition pa_inv :: "('k \<Rightarrow> addr set) \<Rightarrow> 'k pa \<Rightarrow> bool" where
  "pa_inv mapped st \<longleftrightarrow>
     (\<exists>ps. hp_wf (cache st) ps \<and> distinct ps \<and> (\<forall>p \<in> set ps. p mod HUGE_PAGE_SIZE = 0 \<and> p + HUGE_PAGE_SIZE \<le> 2 ^ 47) \<and>
       cached_bytes ps \<subseteq> mapped (kernel st))"

definition in_use :: "('k \<Rightarrow> addr set) \<Rightarrow> 'k pa \<Rightarrow> addr set" where
  "in_use mapped st = mapped (kernel st) - cached_bytes (contents (cache st))"

lemma IsHugePageAligned_iff: "IsHugePageAligned p \<longleftrightarrow> p mod HUGE_PAGE_SIZE = 0"
proof -
  have "p AND (2097152 - 1) = p mod 2 ^ 21" by (rule and_mask_mod) simp
  then show ?thesis by (simp add: IsHugePageAligned_def HUGE_PAGE_SIZE_def)
qed

lemma aligned_disjoint:
  assumes "p mod HUGE_PAGE_SIZE = 0" and "q mod HUGE_PAGE_SIZE = 0" and "p \<noteq> q"
  shows "bytes p HUGE_PAGE_SIZE \<inter> bytes q HUGE_PAGE_SIZE = {}"
proof -
  have "x div HUGE_PAGE_SIZE = r div HUGE_PAGE_SIZE"
    if "r mod HUGE_PAGE_SIZE = 0" "x \<in> bytes r HUGE_PAGE_SIZE" for x r
    using that by (intro div_nat_eqI) (auto simp: bytes_def)
  moreover have "p div HUGE_PAGE_SIZE \<noteq> q div HUGE_PAGE_SIZE"
    using assms by (metis mod_0_imp_dvd dvd_div_mult_self)
  ultimately show ?thesis using assms by (metis disjoint_iff)
qed

lemma cached_bytes_Cons [simp]: "cached_bytes (p # ps) = bytes p HUGE_PAGE_SIZE \<union> cached_bytes ps"
  by (simp add: cached_bytes_def)

lemma cached_bytes_disjoint:
  assumes "p mod HUGE_PAGE_SIZE = 0" and "p \<notin> set ps" and "\<forall>q \<in> set ps. q mod HUGE_PAGE_SIZE = 0"
  shows "bytes p HUGE_PAGE_SIZE \<inter> cached_bytes ps = {}"
proof -
  have "bytes p HUGE_PAGE_SIZE \<inter> bytes q HUGE_PAGE_SIZE = {}" if "q \<in> set ps" for q
    using that assms by (intro aligned_disjoint) auto
  then show ?thesis by (auto simp: cached_bytes_def)
qed

definition pa_spec :: "'k os \<Rightarrow> ('k \<Rightarrow> addr set) \<Rightarrow> nat \<Rightarrow> 'k pa \<Rightarrow> addr option \<times> 'k pa \<Rightarrow> bool" where
  "pa_spec os mapped n st res \<longleftrightarrow>
     (case res of (r, st') \<Rightarrow>
        pa_inv mapped st' \<and>
        (\<forall>p. r = Some p \<longrightarrow> p \<noteq> 0 \<and> p mod PAGE_SIZE = 0 \<and> p + n \<le> 2 ^ 47) \<and>
        granted n r \<inter> in_use mapped st = {} \<and>
        in_use mapped st \<union> granted n r \<subseteq> in_use mapped st' \<and>
        (munmap_succeeds os \<longrightarrow> in_use mapped st' = in_use mapped st \<union> granted n r))"

lemma pa_spec_alloc:
  assumes "pa_inv mapped st" and "alloc_spec os mapped n st (r, st')"
  shows "pa_spec os mapped n st (r, st')"
proof -
  from assms(1) obtain ps where ps: "hp_wf (cache st) ps" "distinct ps"
    "\<forall>p \<in> set ps. p mod HUGE_PAGE_SIZE = 0 \<and> p + HUGE_PAGE_SIZE \<le> 2 ^ 47" "cached_bytes ps \<subseteq> mapped (kernel st)"
    unfolding pa_inv_def by blast
  have c: "contents (cache st) = ps" by (rule hp_wf_contents [OF ps(1)])
  have a: "cache st' = cache st" "mapped (kernel st) \<union> granted n r \<subseteq> mapped (kernel st')"
    "granted n r \<inter> mapped (kernel st) = {}"
    using assms(2) by (simp_all add: alloc_spec_def)
  have "pa_inv mapped st'" unfolding pa_inv_def using ps a by (intro exI [of _ ps]) auto
  with assms(2) a c ps(4) show ?thesis unfolding pa_spec_def alloc_spec_def in_use_def by auto
qed

lemma pa_spec_tally:
  "pa_spec os mapped n st (r, st') \<Longrightarrow> pa_spec os mapped n (tally f st) (r, st')"
  "pa_spec os mapped n st (r, st') \<Longrightarrow> pa_spec os mapped n st (r, tally f st')"
  by (simp_all add: pa_spec_def pa_inv_def in_use_def)

lemma pa_inv_tally [simp]: "pa_inv mapped (tally f st) = pa_inv mapped st"
  by (simp add: pa_inv_def)

lemma pa_spec_hit:
  assumes "pa_inv mapped st" and "Get (cache st) = (c, Some p)"
  shows "pa_spec os mapped HUGE_PAGE_SIZE st (Some p, st\<lparr>cache := c\<rparr>)" and "IsHugePageAligned p"
proof -
  from assms(1) obtain ps where ps: "hp_wf (cache st) ps" "distinct ps"
    "\<forall>p \<in> set ps. p mod HUGE_PAGE_SIZE = 0 \<and> p + HUGE_PAGE_SIZE \<le> 2 ^ 47" "cached_bytes ps \<subseteq> mapped (kernel st)"
    unfolding pa_inv_def by blast
  from ps(1) obtain qs where q: "ps = p # qs" "hp_wf c qs"
    by (cases rule: hpc.get_cases) (use assms(2) in auto)
  have nz: "p \<noteq> 0" using hpc.holds_nonnull [OF ps(1)] q by auto
  have cs: "contents (cache st) = p # qs" "contents c = qs"
    using hp_wf_contents [OF ps(1)] hp_wf_contents [OF q(2)] q(1) by simp_all
  have "bytes p HUGE_PAGE_SIZE \<inter> cached_bytes qs = {}"
    using ps q by (intro cached_bytes_disjoint) auto
  moreover have "pa_inv mapped (st\<lparr>cache := c\<rparr>)"
    unfolding pa_inv_def using ps q by (intro exI [of _ qs]) auto
  moreover have "p mod PAGE_SIZE = 0" using ps q mod_dvd_mod_0 page_dvd_huge by auto
  ultimately show "pa_spec os mapped HUGE_PAGE_SIZE st (Some p, st\<lparr>cache := c\<rparr>)"
    using ps q cs nz unfolding pa_spec_def in_use_def by (auto simp: granted_def)
  show "IsHugePageAligned p" using ps q by (simp add: IsHugePageAligned_iff)
qed

lemma huge_miss_cache: "pa_inv mapped st \<Longrightarrow> Get (cache st) = (c, None) \<Longrightarrow> c = cache st"
  unfolding pa_inv_def by (auto elim: hpc.get_cases)

lemma pa_spec_count_failed:
  "pa_spec os mapped n st res \<Longrightarrow> pa_spec os mapped n st (count_failed res)"
  using pa_spec_tally(2) by (cases res; cases "fst res") (auto simp: count_failed_def)

lemma pa_spec_normal:
  assumes "kernel_ok os mapped" and "0 < n" "n mod PAGE_SIZE = 0" and "pa_inv mapped st"
  shows "pa_spec os mapped n st (AllocNormalPage os n st)"
  using pa_spec_alloc [OF assms(4)] AllocNormalPage_spec [OF assms(1-3)] by (metis prod.collapse)

lemma pa_spec_huge_or_normal:
  assumes os: "kernel_ok os mapped" and n: "0 < n" "n mod PAGE_SIZE = 0" and inv: "pa_inv mapped st"
  shows "pa_spec os mapped n st (alloc_huge_or_normal os n st)"
proof -
  obtain r st2 where h: "AllocHugePage os n st = (r, st2)" by (rule prod.exhaust)
  note a = AllocHugePage_spec [OF os n, of st, unfolded h]
  note s = pa_spec_alloc [OF inv a]
  show ?thesis
  proof (cases r)
    case (Some p)
    with h s show ?thesis by (simp add: alloc_huge_or_normal_def)
  next
    case None
    let ?st2 = "tally (huge_fallback_to_normal_count_update (\<lambda>x. x + 1)) st2"
    have "pa_spec os mapped n ?st2 (AllocNormalPage os n ?st2)"
      using s by (intro pa_spec_normal [OF os n]) (simp add: pa_spec_def)
    then have "pa_spec os mapped n st (AllocNormalPage os n ?st2)"
      using s None by (auto simp: pa_spec_def granted_def in_use_def)
    with h None show ?thesis by (simp add: alloc_huge_or_normal_def pa_spec_count_failed)
  qed
qed

lemma page_bytes: "push_bit PAGE_SHIFT pages = pages * PAGE_SIZE"
  by (simp add: push_bit_eq_mult PAGE_SHIFT_def PAGE_SIZE_def)

lemma SystemAlloc_spec:
  assumes os: "kernel_ok os mapped" and inv: "pa_inv mapped st"
  shows "pa_spec os mapped (pages * PAGE_SIZE) st (SystemAlloc os pages st)"
proof (cases "pages = 0 \<or> pages > drop_bit PAGE_SHIFT SIZE_MAX")
  case True
  with inv show ?thesis by (auto simp: SystemAlloc_def pa_spec_def granted_def)
next
  case False
  let ?n = "pages * PAGE_SIZE"
  have n: "0 < ?n" "?n mod PAGE_SIZE = 0" using False by (simp_all add: PAGE_SIZE_def)
  note unf = SystemAlloc_def [of os pages st, unfolded Let_def page_bytes]
  show ?thesis
  proof (cases "?n < drop_bit 1 HUGE_PAGE_SIZE")
    case True
    with False pa_spec_count_failed [OF pa_spec_normal [OF os n inv]] show ?thesis by (simp add: unf)
  next
    case big: False
    obtain r st1 where l: "huge_cache_lookup ?n st = (r, st1)" by (rule prod.exhaust)
    show ?thesis
    proof (cases r)
      case (Some p)
      with l False big pa_spec_hit [OF inv] show ?thesis
        by (auto simp: unf huge_cache_lookup_def pa_spec_tally split: if_splits prod.splits option.splits)
    next
      case None
      have "cache st1 = cache st \<and> kernel st1 = kernel st"
        using l None inv pa_spec_hit(2) [OF inv] huge_miss_cache [OF inv]
        by (auto simp: huge_cache_lookup_def split: if_splits prod.splits option.splits)
      then have "pa_inv mapped st1" "in_use mapped st1 = in_use mapped st"
        using inv by (simp_all add: pa_inv_def in_use_def)
      with pa_spec_huge_or_normal [OF os n, of st1] l None False big show ?thesis
        by (simp add: unf pa_spec_def)
    qed
  qed
qed

definition free_spec :: "'k os \<Rightarrow> ('k \<Rightarrow> addr set) \<Rightarrow> addr set \<Rightarrow> 'k pa \<Rightarrow> 'k pa \<Rightarrow> bool" where
  "free_spec os mapped R st st' \<longleftrightarrow>
     pa_inv mapped st' \<and> in_use mapped st - R \<subseteq> in_use mapped st' \<and> in_use mapped st' \<subseteq> in_use mapped st \<and>
     (munmap_succeeds os \<longrightarrow> in_use mapped st' = in_use mapped st - R)"

lemma free_spec_munmap:
  assumes os: "kernel_ok os mapped" and inv: "pa_inv mapped st" and p: "p \<noteq> 0" "p mod PAGE_SIZE = 0" "n mod PAGE_SIZE = 0"
    and own: "bytes p n \<subseteq> in_use mapped st"
  shows "free_spec os mapped (bytes p n) st (snd (SafeMunmap os p n st))"
proof -
  from inv obtain ps where ps: "hp_wf (cache st) ps" "distinct ps"
    "\<forall>p \<in> set ps. p mod HUGE_PAGE_SIZE = 0 \<and> p + HUGE_PAGE_SIZE \<le> 2 ^ 47" "cached_bytes ps \<subseteq> mapped (kernel st)"
    unfolding pa_inv_def by blast
  let ?st = "snd (SafeMunmap os p n st)"
  note m = SafeMunmap_spec [OF os p(2,3,1) prod.collapse [symmetric], of st]
  have "cached_bytes ps \<subseteq> mapped (kernel ?st)"
    using m ps(4) own hp_wf_contents [OF ps(1)] by (auto simp: in_use_def)
  then have "pa_inv mapped ?st" unfolding pa_inv_def using ps m by (intro exI [of _ ps]) simp
  with m show ?thesis by (auto simp: free_spec_def in_use_def)
qed

lemma free_spec_put:
  assumes inv: "pa_inv mapped st" and p: "p \<noteq> 0" "p mod HUGE_PAGE_SIZE = 0" "p + HUGE_PAGE_SIZE \<le> 2 ^ 47"
    and own: "bytes p HUGE_PAGE_SIZE \<subseteq> in_use mapped st" and put: "Put p (cache st) = (c, True)"
  shows "free_spec os mapped (bytes p HUGE_PAGE_SIZE) st (st\<lparr>cache := c\<rparr>)"
proof -
  from inv obtain ps where ps: "hp_wf (cache st) ps" "distinct ps"
    "\<forall>p \<in> set ps. p mod HUGE_PAGE_SIZE = 0 \<and> p + HUGE_PAGE_SIZE \<le> 2 ^ 47" "cached_bytes ps \<subseteq> mapped (kernel st)"
    unfolding pa_inv_def by blast
  have c: "hp_wf c (p # ps)" using hpc.put_cases [OF ps(1) p(1)] put by (metis prod.inject)
  note cs = hp_wf_contents [OF ps(1)] hp_wf_contents [OF c]
  have "p \<in> bytes p HUGE_PAGE_SIZE" by (simp add: bytes_def HUGE_PAGE_SIZE_def)
  then have "p \<notin> set ps" using own cs by (auto simp: in_use_def cached_bytes_def)
  then have "pa_inv mapped (st\<lparr>cache := c\<rparr>)"
    unfolding pa_inv_def using ps c p own by (intro exI [of _ "p # ps"]) (auto simp: in_use_def)
  then show ?thesis using cs by (auto simp: free_spec_def in_use_def)
qed

lemma free_spec_cong:
  assumes "free_spec os mapped R st st'" and "cache s = cache st" and "mapped (kernel s) = mapped (kernel st)"
  shows "free_spec os mapped R s st'"
  using assms by (simp add: free_spec_def in_use_def)

lemma Put_refused: "pa_inv mapped st \<Longrightarrow> p \<noteq> 0 \<Longrightarrow> Put p (cache st) = (c, False) \<Longrightarrow> c = cache st"
  unfolding pa_inv_def by (auto elim: hpc.put_cases)

lemma SystemFree_spec:
  assumes os: "kernel_ok os mapped" and inv: "pa_inv mapped st"
    and p: "p mod PAGE_SIZE = 0" "p + pages * PAGE_SIZE \<le> 2 ^ 47" "p \<noteq> 0"
    and own: "bytes p (pages * PAGE_SIZE) \<subseteq> in_use mapped st"
  shows "free_spec os mapped (bytes p (pages * PAGE_SIZE)) st (SystemFree os p pages st)"
proof -
  let ?n = "pages * PAGE_SIZE"
  have n: "?n mod PAGE_SIZE = 0" by (simp add: PAGE_SIZE_def)
  have lim: "\<not> pages > drop_bit PAGE_SHIFT SIZE_MAX"
    using p(2) by (simp add: PAGE_SHIFT_def PAGE_SIZE_def drop_bit_eq_div)
  define st1 where "st1 = tally (free_count_update (\<lambda>x. x + 1) \<circ> free_bytes_update (\<lambda>x. x + of_nat ?n)) st"
  have s1: "cache st1 = cache st" "kernel st1 = kernel st" by (simp_all add: st1_def)
  have transfer: "pa_inv mapped s \<and> bytes p ?n \<subseteq> in_use mapped s"
    if "cache s = cache st" "mapped (kernel s) = mapped (kernel st)" for s
    using inv own that by (simp add: pa_inv_def in_use_def)
  have unmap: "free_spec os mapped (bytes p ?n) st (snd (SafeMunmap os p ?n s))"
    if "cache s = cache st" "mapped (kernel s) = mapped (kernel st)" for s
  proof (rule free_spec_cong)
    show "free_spec os mapped (bytes p ?n) s (snd (SafeMunmap os p ?n s))"
      using transfer [OF that] by (intro free_spec_munmap [OF os _ p(3,1) n]) auto
  qed (use that in simp_all)
  note unf = SystemFree_def [of os p pages st, unfolded Let_def page_bytes, folded st1_def]
  consider (zero) "pages = 0" | (plain) "pages \<noteq> 0" "\<not> (?n = HUGE_PAGE_SIZE \<and> IsHugePageAligned p)"
    | (huge) "pages \<noteq> 0" "?n = HUGE_PAGE_SIZE" "IsHugePageAligned p" by blast
  then show ?thesis
  proof cases
    case zero
    with inv show ?thesis by (simp add: SystemFree_def free_spec_def bytes_def)
  next
    case plain
    with lim p(3) unmap [of st1] s1 show ?thesis by (auto simp: unf)
  next
    case huge
    obtain ok st2 where a: "advise os p ?n MADV_DONTNEED st1 = (ok, st2)" by (rule prod.exhaust)
    have s2: "cache st2 = cache st" "mapped (kernel st2) = mapped (kernel st)"
      using advise_spec [OF os a] s1 by simp_all
    obtain c stored where put: "Put p (cache st2) = (c, stored)" by (rule prod.exhaust)
    have full: "c = cache st2" if "\<not> stored"
      using Put_refused [OF inv p(3)] that put s2(1) by simp
    have "free_spec os mapped (bytes p ?n) st (st2\<lparr>cache := c\<rparr>)" if stored
    proof (rule free_spec_cong)
      show "free_spec os mapped (bytes p ?n) st2 (st2\<lparr>cache := c\<rparr>)"
        unfolding huge(2) using put that huge p transfer [OF s2]
        by (intro free_spec_put) (simp_all add: IsHugePageAligned_iff)
    qed (use s2 in simp_all)
    with huge lim p(3) a put unmap [OF s2] full unmap [of "st2\<lparr>cache := c\<rparr>"] s2 show ?thesis
      by (cases ok; cases stored) (simp_all add: unf)
  qed
qed

lemma Get_contents:
  assumes "pa_inv mapped st" and "Get (cache st) = (c, r)"
  shows "(r = None \<and> c = cache st \<and> contents (cache st) = []) \<or>
    (\<exists>p. r = Some p \<and> contents (cache st) = p # contents c)"
proof -
  from assms(1) obtain ps where ps: "hp_wf (cache st) ps" unfolding pa_inv_def by blast
  then show ?thesis
    by (cases rule: hpc.get_cases) (use assms(2) hp_wf_contents ps in auto)
qed

lemma release_loop_spec:
  assumes os: "kernel_ok os mapped" and "pa_inv mapped st" and "length (contents (cache st)) < n"
  shows "pa_inv mapped (release_loop os n st) \<and> contents (cache (release_loop os n st)) = [] \<and>
    in_use mapped st \<subseteq> in_use mapped (release_loop os n st) \<and>
    (munmap_succeeds os \<longrightarrow> mapped (kernel (release_loop os n st)) = in_use mapped st)"
  using assms(2,3)
proof (induction n arbitrary: st)
  case (Suc n)
  obtain c r where g: "Get (cache st) = (c, r)" by (rule prod.exhaust)
  show ?case
  proof (cases r)
    case None
    then have c: "c = cache st" "contents (cache st) = []"
      using Get_contents [OF Suc.prems(1) g] by auto
    with Suc.prems None g show ?thesis by (simp add: in_use_def cached_bytes_def)
  next
    case (Some p)
    let ?H = HUGE_PAGE_SIZE
    note hit = pa_spec_hit(1) [OF Suc.prems(1) g [unfolded Some], of os]
    obtain ok k where m: "munmap os p ?H (kernel st) = (ok, k)" by (rule prod.exhaust)
    define st' where "st' = (if ok then st\<lparr>cache := c, kernel := k\<rparr>
      else tally (munmap_failed_count_update (\<lambda>x. x + 1)) (st\<lparr>cache := c, kernel := k\<rparr>))"
    have step: "release_loop os (Suc n) st = release_loop os n st'" using g Some m by (simp add: st'_def)
    have p: "p \<noteq> 0" "p mod PAGE_SIZE = 0" "bytes p ?H \<subseteq> in_use mapped (st\<lparr>cache := c\<rparr>)"
      "in_use mapped st \<inter> bytes p ?H = {}" "pa_inv mapped (st\<lparr>cache := c\<rparr>)"
      "in_use mapped st \<subseteq> in_use mapped (st\<lparr>cache := c\<rparr>)"
      "munmap_succeeds os \<longrightarrow> in_use mapped (st\<lparr>cache := c\<rparr>) = in_use mapped st \<union> bytes p ?H"
      using hit unfolding pa_spec_def granted_def by (simp_all add: Int_commute)
    have c: "cache st' = c" "kernel st' = k" by (simp_all add: st'_def)
    have run: "SafeMunmap os p ?H (st\<lparr>cache := c\<rparr>) = (ok, st')"
      using m p(1) by (simp add: SafeMunmap_def st'_def HUGE_PAGE_SIZE_def split: bool.split)
    have H: "?H mod PAGE_SIZE = 0" using page_dvd_huge by simp
    note f = free_spec_munmap [OF os p(5,1,2) H p(3), unfolded run snd_conv free_spec_def]
    have len: "length (contents (cache st')) < n"
      using Suc.prems(2) Get_contents [OF Suc.prems(1) g] Some c by auto
    have use: "in_use mapped st \<subseteq> in_use mapped st'" "munmap_succeeds os \<longrightarrow> in_use mapped st' = in_use mapped st"
      using f p(4,6,7) by blast+
    have "pa_inv mapped st'" using f by blast
    from Suc.IH [OF this len] use show ?thesis unfolding step by (metis subset_trans)
  qed
qed simp

section \<open>A kernel for the witnesses\<close>

text \<open>A kernel that maps at increasing addresses and never runs into a mapping.\<close>

type_synonym bump_kernel = "nat \<times> addr set"

definition bump_os :: "bump_kernel os" where
  "bump_os =
     \<lparr>mmap = (\<lambda>n _ (next_addr, m).
        if next_addr \<noteq> 0 \<and> next_addr mod PAGE_SIZE = 0 \<and> next_addr + n \<le> 2 ^ 47 \<and> bytes next_addr n \<inter> m = {}
        then (Inr next_addr, (next_addr + n, m \<union> bytes next_addr n)) else (Inl ENOMEM, (next_addr, m))),
      munmap = (\<lambda>p n (next_addr, m). (True, (next_addr, m - bytes p n))),
      madvise = (\<lambda>_ _ _ k. (True, k)),
      steady_clock_ms = (\<lambda>k. (0, k)),
      UseMapPopulate = False\<rparr>"

definition boot :: "bump_kernel pa" where
  "boot = \<lparr>kernel = (HUGE_PAGE_SIZE, {}), stats = zero_stats, cache = HugePageCache_ctor\<rparr>"

lemma kernel_ok_bump: "kernel_ok bump_os snd"
  by (auto simp: kernel_ok_def bump_os_def split: if_splits)

lemma pa_inv_boot: "pa_inv snd boot"
  unfolding pa_inv_def using hp_wf_ctor by (auto simp: boot_def cached_bytes_def)

lemma in_use_boot: "in_use snd boot = {}"
  by (simp add: in_use_def boot_def)

lemma AllocWithRetry_first:
  "mmap os n b (kernel st) = (Inr p, k) \<Longrightarrow> AllocWithRetry os n b st = (Some p, st\<lparr>kernel := k\<rparr>)"
  by (simp add: AllocWithRetry_def MAX_ALLOC_RETRIES_def numeral_3_eq_3)

lemma bump_first:
  assumes "kernel st = (HUGE_PAGE_SIZE, {})" and "n \<le> 2 ^ 40"
  shows "AllocWithRetry bump_os n b st = (Some HUGE_PAGE_SIZE, st\<lparr>kernel := (HUGE_PAGE_SIZE + n, bytes HUGE_PAGE_SIZE n)\<rparr>)"
  using assms by (intro AllocWithRetry_first) (simp add: bump_os_def HUGE_PAGE_SIZE_def PAGE_SIZE_def)

lemma kernel_boot: "kernel boot = (HUGE_PAGE_SIZE, {})"
  by (simp add: boot_def)

section \<open>Properties\<close>

text \<open>
  C24: \<open>SystemAlloc\<close> never hands out memory that is in use.  Whatever path it takes (normal pages,
  cached huge page, aligned mapping, over-allocation with trimming, fallback after failures),
  a returned range is page-aligned, non-null, inside of the user address space, disjoint from all
  memory in use and mapped; nothing in use is unmapped; and when \<open>munmap\<close> does not fail nothing
  else stays mapped.
\<close>

theorem system_alloc_fresh:
  assumes "kernel_ok os mapped" and "pa_inv mapped st" and "SystemAlloc os pages st = (r, st')"
  shows "pa_inv mapped st' \<and> in_use mapped st \<subseteq> in_use mapped st' \<and>
    (case r of
       None \<Rightarrow> munmap_succeeds os \<longrightarrow> in_use mapped st' = in_use mapped st
     | Some p \<Rightarrow> p \<noteq> 0 \<and> p mod PAGE_SIZE = 0 \<and> p + pages * PAGE_SIZE \<le> 2 ^ 47 \<and>
         bytes p (pages * PAGE_SIZE) \<inter> in_use mapped st = {} \<and>
         bytes p (pages * PAGE_SIZE) \<subseteq> in_use mapped st' \<and>
         (munmap_succeeds os \<longrightarrow> in_use mapped st' = in_use mapped st \<union> bytes p (pages * PAGE_SIZE)))"
  using SystemAlloc_spec [OF assms(1,2), of pages] assms(3)
  by (cases r) (simp_all add: pa_spec_def granted_def)

theorem system_alloc_fresh_witness:
  "\<exists>p st'. SystemAlloc bump_os 3 boot = (Some p, st') \<and> p mod PAGE_SIZE = 0 \<and>
     bytes p (3 * PAGE_SIZE) \<subseteq> in_use snd st'"
proof -
  have "fst (SystemAlloc bump_os 3 boot) = Some HUGE_PAGE_SIZE"
    by (simp add: SystemAlloc_def page_bytes PAGE_SHIFT_def PAGE_SIZE_def Let_def drop_bit_eq_div
        AllocNormalPage_def bump_first kernel_boot count_failed_def) (simp add: HUGE_PAGE_SIZE_def)
  then obtain st' where s: "SystemAlloc bump_os 3 boot = (Some HUGE_PAGE_SIZE, st')" by (metis prod.collapse)
  show ?thesis using system_alloc_fresh [OF kernel_ok_bump pa_inv_boot s] s by auto
qed

text \<open>
  \<open>SystemFree\<close> gives up exactly the range it is given: all other memory in use stays mapped,
  the cached huge pages stay mapped and aligned, and when \<open>munmap\<close> does not fail the range is no
  longer in use (it is unmapped, or kept in the huge page cache).
\<close>

theorem system_free_exact:
  assumes "kernel_ok os mapped" and "pa_inv mapped st"
    and "p mod PAGE_SIZE = 0" and "p + pages * PAGE_SIZE \<le> 2 ^ 47" and "p \<noteq> 0"
    and "bytes p (pages * PAGE_SIZE) \<subseteq> in_use mapped st"
  shows "pa_inv mapped (SystemFree os p pages st) \<and>
    in_use mapped st - bytes p (pages * PAGE_SIZE) \<subseteq> in_use mapped (SystemFree os p pages st) \<and>
    in_use mapped (SystemFree os p pages st) \<subseteq> in_use mapped st \<and>
    (munmap_succeeds os \<longrightarrow>
       in_use mapped (SystemFree os p pages st) = in_use mapped st - bytes p (pages * PAGE_SIZE))"
  using SystemFree_spec [OF assms] by (simp add: free_spec_def)

theorem system_free_exact_witness:
  "\<exists>p st. fst (SystemAlloc bump_os 512 boot) = Some p \<and> snd (SystemAlloc bump_os 512 boot) = st \<and>
     in_use snd (SystemFree bump_os p 512 st) = {}"
proof -
  let ?st = "snd (SystemAlloc bump_os 512 boot)" and ?H = HUGE_PAGE_SIZE
  have n: "512 * PAGE_SIZE = ?H" by (simp add: PAGE_SIZE_def HUGE_PAGE_SIZE_def)
  have get: "Get HugePageCache_ctor = (HugePageCache_ctor, None)"
    by (rule hpc.get_Nil [OF hp_wf_ctor])
  have f: "fst (SystemAlloc bump_os 512 boot) = Some ?H"
  proof -
    have "huge_cache_lookup ?H boot = (None, tally (huge_cache_miss_count_update (\<lambda>x. x + 1)) boot)"
      using get by (simp add: huge_cache_lookup_def boot_def)
    moreover have "AllocHugePage bump_os ?H (tally f boot) =
        (Some ?H, tally (huge_alloc_success_update (\<lambda>x. x + 1) \<circ> huge_alloc_bytes_update (\<lambda>x. x + of_nat ?H))
           (ApplyHugePageHint bump_os ?H ?H (tally (huge_alloc_count_update (\<lambda>x. x + 1)) (tally f boot)
              \<lparr>kernel := (?H + ?H, bytes ?H ?H)\<rparr>)))" for f
      using bump_first [of "tally (huge_alloc_count_update (\<lambda>x. x + 1)) (tally f boot)" ?H False] kernel_boot
      by (simp add: AllocHugePage_def) (simp add: HUGE_PAGE_SIZE_def IsHugePageAligned_iff)
    moreover have "\<not> ?H < ?H div 2" by simp
    ultimately show ?thesis
      using page_bytes [of 512] n
      by (simp add: SystemAlloc_def Let_def alloc_huge_or_normal_def PAGE_SHIFT_def drop_bit_eq_div)
  qed
  have H: "?H mod PAGE_SIZE = 0" "?H + ?H \<le> 2 ^ 47" "?H \<noteq> 0"
    by (simp_all add: HUGE_PAGE_SIZE_def PAGE_SIZE_def)
  have ok: "munmap_succeeds bump_os" by (auto simp: munmap_succeeds_def bump_os_def)
  have s: "pa_inv snd ?st" "in_use snd ?st = bytes ?H ?H"
    using SystemAlloc_spec [OF kernel_ok_bump pa_inv_boot, of 512] f ok in_use_boot unfolding n pa_spec_def
    by (simp_all add: case_prod_unfold granted_def)
  have "in_use snd (SystemFree bump_os ?H 512 ?st) = {}"
    using system_free_exact [OF kernel_ok_bump s(1), of ?H 512] s(2) ok H unfolding n by simp
  with f show ?thesis by blast
qed

text \<open>
  C25: \<open>ReleaseHugePageCache\<close> terminates with an empty cache after at most sixteen pages, without
  touching memory in use; when \<open>munmap\<close> does not fail, exactly the memory in use stays mapped.
\<close>

theorem release_cache_complete:
  assumes "kernel_ok os mapped" and "pa_inv mapped st"
  shows "contents (cache (ReleaseHugePageCache os st)) = [] \<and>
    in_use mapped st \<subseteq> in_use mapped (ReleaseHugePageCache os st) \<and>
    (munmap_succeeds os \<longrightarrow> mapped (kernel (ReleaseHugePageCache os st)) = in_use mapped st)"
proof -
  obtain ps where "hp_wf (cache st) ps" using assms(2) unfolding pa_inv_def by blast
  then have "length (contents (cache st)) < Suc HUGE_PAGE_CACHE_SIZE"
    using hpc.holds_bound hp_wf_contents by fastforce
  from release_loop_spec [OF assms this] show ?thesis by (simp add: ReleaseHugePageCache_def)
qed

theorem release_cache_complete_witness:
  "contents (cache (ReleaseHugePageCache bump_os boot)) = []"
  using release_cache_complete [OF kernel_ok_bump pa_inv_boot] by simp

end
