(* ===== verification/Object_Pool.thy ===== *)
theory Object_Pool
  imports Page_Allocator
begin

text \<open>
  \<open>ObjectPool\<close> of \<open>page_allocator.h\<close>: fixed-size storage carved from chunks of pages, with an
  intrusive free list (the list of addresses) and an intrusive list of chunks (address and page
  count).  The template arguments \<open>sizeof(T)\<close>, \<open>alignof(T)\<close> and \<open>CHUNK_SIZE\<close> are the record
  \<open>pool_type\<close>.  \<open>New\<close> returns the address of the storage, \<open>None\<close> when it throws \<open>bad_alloc\<close>.
\<close>

section \<open>Operations\<close>

record pool_type =
  obj_bytes :: nat
  obj_align :: nat
  chunk_bytes :: nat

record obj_pool =
  pool_data :: addr
  remain_bytes :: nat
  free_list :: "addr list"
  chunk_list :: "(addr \<times> nat) list"

definition ObjectPool_ctor :: obj_pool where
  "ObjectPool_ctor = \<lparr>pool_data = 0, remain_bytes = 0, free_list = [], chunk_list = []\<rparr>"

definition chunk_header_bytes :: nat where
  "chunk_header_bytes = 16"

definition chunk_pages :: "pool_type \<Rightarrow> nat" where
  "chunk_pages t =
     (let num_objs = max 10 (chunk_bytes t div obj_bytes t);
          needed_bytes = chunk_header_bytes + num_objs * obj_bytes t + obj_align t - 1
      in drop_bit PAGE_SHIFT (needed_bytes + PAGE_SIZE - 1))"

text \<open>The refill branch: link the new chunk and compute the aligned data area.\<close>

definition add_chunk :: "pool_type \<Rightarrow> addr \<Rightarrow> nat \<Rightarrow> obj_pool \<Rightarrow> obj_pool" where
  "add_chunk t ptr pages pool =
     (let raw_data_start = ptr + chunk_header_bytes;
          aligned_data_start = align_down (raw_data_start + obj_align t - 1) (obj_align t);
          total_bytes = push_bit PAGE_SHIFT pages
      in pool\<lparr>chunk_list := (ptr, pages) # chunk_list pool,
              pool_data := aligned_data_start,
              remain_bytes := total_bytes - (aligned_data_start - ptr)\<rparr>)"

definition carve :: "pool_type \<Rightarrow> obj_pool \<Rightarrow> addr \<times> obj_pool" where
  "carve t pool =
     (pool_data pool,
      pool\<lparr>pool_data := pool_data pool + obj_bytes t, remain_bytes := remain_bytes pool - obj_bytes t\<rparr>)"

definition New :: "'k os \<Rightarrow> pool_type \<Rightarrow> obj_pool \<Rightarrow> 'k pa \<Rightarrow> addr option \<times> obj_pool \<times> 'k pa" where
  "New os t pool st =
     (case free_list pool of
        obj # rest \<Rightarrow> (Some obj, pool\<lparr>free_list := rest\<rparr>, st)
      | [] \<Rightarrow>
          if remain_bytes pool < obj_bytes t then
            (case SystemAlloc os (chunk_pages t) st of
               (None, st1) \<Rightarrow> (None, pool, st1)
             | (Some ptr, st1) \<Rightarrow>
                 let (obj, pool1) = carve t (add_chunk t ptr (chunk_pages t) pool)
                 in (Some obj, pool1, st1))
          else let (obj, pool1) = carve t pool in (Some obj, pool1, st))"

definition Delete :: "addr \<Rightarrow> obj_pool \<Rightarrow> obj_pool" where
  "Delete obj pool = pool\<lparr>free_list := obj # free_list pool\<rparr>"

definition ReleaseMemory :: "'k os \<Rightarrow> obj_pool \<Rightarrow> 'k pa \<Rightarrow> obj_pool \<times> 'k pa" where
  "ReleaseMemory os pool st =
     (pool\<lparr>chunk_list := [], free_list := [], pool_data := 0, remain_bytes := 0\<rparr>,
      fold (\<lambda>(ptr, pages). SystemFree os ptr pages) (chunk_list pool) st)"

section \<open>Invariant\<close>

definition chunks_mem :: "(addr \<times> nat) list \<Rightarrow> addr set" where
  "chunks_mem cs = (\<Union>(c, n) \<in> set cs. bytes c (n * PAGE_SIZE))"

abbreviation pool_mem :: "obj_pool \<Rightarrow> addr set" where
  "pool_mem pool \<equiv> chunks_mem (chunk_list pool)"

fun chunks_ok :: "(addr \<times> nat) list \<Rightarrow> bool" where
  "chunks_ok [] \<longleftrightarrow> True"
| "chunks_ok ((c, n) # cs) \<longleftrightarrow>
     c \<noteq> 0 \<and> c mod PAGE_SIZE = 0 \<and> c + n * PAGE_SIZE \<le> 2 ^ 47 \<and>
     bytes c (n * PAGE_SIZE) \<inter> chunks_mem cs = {} \<and> chunks_ok cs"

definition headers :: "obj_pool \<Rightarrow> addr set" where
  "headers pool = (\<Union>(c, n) \<in> set (chunk_list pool). bytes c chunk_header_bytes)"

definition pool_type_ok :: "pool_type \<Rightarrow> bool" where
  "pool_type_ok t \<longleftrightarrow> 0 < obj_bytes t \<and> 0 < obj_align t \<and> obj_align t dvd obj_bytes t"

text \<open>
  \<open>live\<close> are the objects handed out: their storage, the recycled storage and the unused tail of
  the current chunk are pairwise disjoint parts of the chunks, away from the chunk headers.
\<close>

definition pool_wf :: "pool_type \<Rightarrow> addr set \<Rightarrow> obj_pool \<Rightarrow> bool" where
  "pool_wf t live pool \<longleftrightarrow>
     distinct (free_list pool) \<and> live \<inter> set (free_list pool) = {} \<and>
     (\<forall>p \<in> live \<union> set (free_list pool). \<forall>q \<in> live \<union> set (free_list pool).
        p \<noteq> q \<longrightarrow> bytes p (obj_bytes t) \<inter> bytes q (obj_bytes t) = {}) \<and>
     (\<forall>p \<in> live \<union> set (free_list pool).
        p \<noteq> 0 \<and> p mod obj_align t = 0 \<and> bytes p (obj_bytes t) \<subseteq> pool_mem pool - headers pool \<and>
        bytes p (obj_bytes t) \<inter> bytes (pool_data pool) (remain_bytes pool) = {}) \<and>
     bytes (pool_data pool) (remain_bytes pool) \<subseteq> pool_mem pool - headers pool \<and>
     headers pool \<subseteq> pool_mem pool \<and> chunks_ok (chunk_list pool) \<and>
     (0 < remain_bytes pool \<longrightarrow> pool_data pool \<noteq> 0 \<and> pool_data pool mod obj_align t = 0)"

lemma pool_wf_ctor: "pool_wf t {} ObjectPool_ctor"
  by (simp add: pool_wf_def ObjectPool_ctor_def bytes_def headers_def)

lemma headers_simps [simp]:
  "headers (pool\<lparr>free_list := fl\<rparr>) = headers pool"
  "headers (pool\<lparr>pool_data := d, remain_bytes := r\<rparr>) = headers pool"
  by (simp_all add: headers_def)

lemma chunks_mem_simps [simp]:
  "chunks_mem [] = {}" "chunks_mem ((c, n) # cs) = bytes c (n * PAGE_SIZE) \<union> chunks_mem cs"
  by (simp_all add: chunks_mem_def)

lemma reuse_wf:
  assumes "pool_wf t live pool" and "free_list pool = p # rest"
  shows "pool_wf t (insert p live) (pool\<lparr>free_list := rest\<rparr>) \<and> p \<notin> live"
proof -
  have "insert p live \<union> set rest = live \<union> set (free_list pool)" using assms(2) by auto
  with assms show ?thesis unfolding pool_wf_def by auto
qed

lemma Delete_wf:
  assumes "pool_wf t live pool" and "p \<in> live"
  shows "pool_wf t (live - {p}) (Delete p pool)"
proof -
  have "(live - {p}) \<union> set (p # free_list pool) = live \<union> set (free_list pool)" using assms(2) by auto
  with assms show ?thesis unfolding pool_wf_def Delete_def by auto
qed

lemma carve_wf:
  assumes wf: "pool_wf t live pool" and t: "pool_type_ok t" and r: "obj_bytes t \<le> remain_bytes pool"
    and c: "carve t pool = (p, pool')"
  shows "pool_wf t (insert p live) pool' \<and> p \<notin> live \<and> pool_mem pool' = pool_mem pool"
proof -
  let ?b = "obj_bytes t"
  have p: "p = pool_data pool"
    "pool' = pool\<lparr>pool_data := pool_data pool + ?b, remain_bytes := remain_bytes pool - ?b\<rparr>"
    using c by (auto simp: carve_def)
  have b: "0 < ?b" "obj_align t dvd ?b" using t by (auto simp: pool_type_ok_def)
  have split: "bytes p (remain_bytes pool) = bytes p ?b \<union> bytes (p + ?b) (remain_bytes pool - ?b)"
    "bytes p ?b \<inter> bytes (p + ?b) (remain_bytes pool - ?b) = {}"
    using r by (auto simp: bytes_def)
  have old: "bytes q ?b \<inter> bytes p (remain_bytes pool) = {}" if "q \<in> live \<union> set (free_list pool)" for q
    using wf that p(1) by (auto simp: pool_wf_def)
  have pin: "p \<in> bytes p ?b" using b by (simp add: bytes_def)
  have new: "p \<notin> live \<union> set (free_list pool)" using old [of p] pin split(1) by auto
  have al: "(p + ?b) mod obj_align t = 0" "p mod obj_align t = 0" "p \<noteq> 0"
    using wf r b p(1) by (auto simp: pool_wf_def mod_eq_0_iff_dvd)
  have "\<forall>q \<in> live \<union> set (free_list pool). bytes q ?b \<inter> bytes p ?b = {} \<and>
      bytes q ?b \<inter> bytes (p + ?b) (remain_bytes pool - ?b) = {}"
    using old split(1) by blast
  with wf new al split show ?thesis unfolding pool_wf_def p by (auto simp: Int_commute)
qed

lemma chunk_pages_enough:
  assumes "pool_type_ok t"
  shows "chunk_header_bytes + obj_align t - 1 + obj_bytes t \<le> chunk_pages t * PAGE_SIZE" and "0 < chunk_pages t"
proof -
  let ?need = "chunk_header_bytes + max 10 (chunk_bytes t div obj_bytes t) * obj_bytes t + obj_align t - 1"
  have cp: "chunk_pages t = (?need + 4095) div 4096"
    by (simp add: chunk_pages_def Let_def PAGE_SHIFT_def PAGE_SIZE_def drop_bit_eq_div)
  have "?need \<le> (?need + 4095) div 4096 * 4096" using div_mult_mod_eq [of "?need + 4095" 4096]
    mod_less_divisor [of 4096 "?need + 4095"] by linarith
  then have le: "?need \<le> chunk_pages t * PAGE_SIZE" by (simp add: cp PAGE_SIZE_def)
  have "obj_bytes t \<le> max 10 (chunk_bytes t div obj_bytes t) * obj_bytes t" by (simp add: max_def)
  with le show g: "chunk_header_bytes + obj_align t - 1 + obj_bytes t \<le> chunk_pages t * PAGE_SIZE"
    using assms unfolding pool_type_ok_def by linarith
  show "0 < chunk_pages t"
    using g by (cases "chunk_pages t") (auto simp: chunk_header_bytes_def)
qed

lemma add_chunk_wf:
  assumes wf: "pool_wf t live pool" and t: "pool_type_ok t" 
    and ptr: "ptr \<noteq> 0" "ptr mod PAGE_SIZE = 0" "ptr + chunk_pages t * PAGE_SIZE \<le> 2 ^ 47"
    and fresh: "bytes ptr (chunk_pages t * PAGE_SIZE) \<inter> pool_mem pool = {}" and fl: "free_list pool = []"
  defines "pool' \<equiv> add_chunk t ptr (chunk_pages t) pool"
  shows "pool_wf t live pool' \<and> obj_bytes t \<le> remain_bytes pool' \<and>
    pool_mem pool' = pool_mem pool \<union> bytes ptr (chunk_pages t * PAGE_SIZE)"
proof -
  let ?n = "chunk_pages t * PAGE_SIZE"
  define A where "A = align_down (ptr + chunk_header_bytes + obj_align t - 1) (obj_align t)"
  have al: "0 < obj_align t" using t by (simp add: pool_type_ok_def)
  note A = align_up_bounds [OF al, of "ptr + chunk_header_bytes", folded A_def]
  note en = chunk_pages_enough [OF t]
  have p': "pool' = pool\<lparr>chunk_list := (ptr, chunk_pages t) # chunk_list pool, pool_data := A,
      remain_bytes := ?n - (A - ptr)\<rparr>"
    by (simp add: pool'_def add_chunk_def Let_def A_def page_bytes)
  have rem: "obj_bytes t \<le> ?n - (A - ptr)" "A - ptr \<le> ?n" using A(1,2) en(1) by linarith+
  have area: "bytes A (?n - (A - ptr)) \<subseteq> bytes ptr ?n" "bytes A (?n - (A - ptr)) \<inter> bytes ptr chunk_header_bytes = {}"
    using A(1) rem(2) by (auto simp: bytes_def)
  have hdr: "bytes ptr chunk_header_bytes \<subseteq> bytes ptr ?n"
    using en(1) al by (auto simp: bytes_def)
  have mem: "pool_mem pool' = pool_mem pool \<union> bytes ptr ?n" "headers pool' = headers pool \<union> bytes ptr chunk_header_bytes"
    by (auto simp: p' headers_def)
  have old: "bytes q (obj_bytes t) \<subseteq> pool_mem pool - headers pool" if "q \<in> live" for q
    using wf that by (auto simp: pool_wf_def)
  have "bytes q (obj_bytes t) \<inter> bytes A (?n - (A - ptr)) = {} \<and>
      bytes q (obj_bytes t) \<subseteq> pool_mem pool' - headers pool'" if "q \<in> live" for q
    using old [OF that] area(1) hdr fresh unfolding mem by blast
  moreover have "headers pool \<subseteq> pool_mem pool" using wf by (simp add: pool_wf_def)
  moreover have "bytes A (?n - (A - ptr)) \<subseteq> pool_mem pool' - headers pool'"
    using area fresh \<open>headers pool \<subseteq> pool_mem pool\<close> unfolding mem by blast
  moreover have "A \<noteq> 0" using A(1) ptr(1) by simp
  moreover have "chunks_ok (chunk_list pool')" using wf ptr fresh by (simp add: p' pool_wf_def)
  moreover have "remain_bytes pool' = ?n - (A - ptr)" "pool_data pool' = A" "free_list pool' = []"
    using fl by (simp_all add: p')
  ultimately show ?thesis
    using wf A(3) rem mem hdr fl unfolding pool_wf_def by auto
qed

section \<open>The operations on the page allocator\<close>

lemma New_spec:
  assumes os: "kernel_ok os mapped" and inv: "pa_inv mapped st" and t: "pool_type_ok t"
    and wf: "pool_wf t live pool" and own: "pool_mem pool \<subseteq> in_use mapped st"
    and new: "New os t pool st = (r, pool', st')"
  shows "pa_inv mapped st' \<and> in_use mapped st \<subseteq> in_use mapped st' \<and> pool_mem pool \<subseteq> pool_mem pool' \<and>
    pool_mem pool' \<subseteq> in_use mapped st' \<and> (pool_mem pool' - pool_mem pool) \<inter> in_use mapped st = {} \<and>
    (case r of None \<Rightarrow> pool' = pool | Some p \<Rightarrow> p \<notin> live \<and> pool_wf t (insert p live) pool')"
proof (cases "free_list pool")
  case (Cons p rest)
  with new reuse_wf [OF wf Cons] inv own show ?thesis by (auto simp: New_def)
next
  case Nil
  show ?thesis
  proof (cases "remain_bytes pool < obj_bytes t")
    case False
    obtain p pool1 where c: "carve t pool = (p, pool1)" by (rule prod.exhaust)
    with new Nil False carve_wf [OF wf t _ c] inv own show ?thesis by (auto simp: New_def)
  next
    case True
    obtain x st1 where a: "SystemAlloc os (chunk_pages t) st = (x, st1)" by (rule prod.exhaust)
    note sa = SystemAlloc_spec [OF os inv, of "chunk_pages t", unfolded a pa_spec_def, simplified]
    show ?thesis
    proof (cases x)
      case None
      with new Nil True a sa own show ?thesis by (auto simp: New_def granted_def)
    next
      case (Some ptr)
      let ?pool1 = "add_chunk t ptr (chunk_pages t) pool"
      obtain p pool2 where c: "carve t ?pool1 = (p, pool2)" by (rule prod.exhaust)
      have res: "r = Some p" "pool' = pool2" "st' = st1" using new Nil True a Some c by (auto simp: New_def)
      have g: "ptr \<noteq> 0" "ptr mod PAGE_SIZE = 0" "ptr + chunk_pages t * PAGE_SIZE \<le> 2 ^ 47"
        "bytes ptr (chunk_pages t * PAGE_SIZE) \<inter> in_use mapped st = {}"
        "bytes ptr (chunk_pages t * PAGE_SIZE) \<subseteq> in_use mapped st1" "in_use mapped st \<subseteq> in_use mapped st1"
        "pa_inv mapped st1"
        using sa Some by (simp_all add: granted_def)
      have fr: "bytes ptr (chunk_pages t * PAGE_SIZE) \<inter> pool_mem pool = {}" using g(4) own by blast
      note aw = add_chunk_wf [OF wf t g(1-3) fr Nil]
      have cw: "pool_wf t (insert p live) pool2 \<and> p \<notin> live \<and> pool_mem pool2 = pool_mem ?pool1"
        using carve_wf [OF _ t _ c, of live] aw by blast
      show ?thesis unfolding res using cw aw g own by auto
    qed
  qed
qed

lemma release_chunks:
  assumes os: "kernel_ok os mapped"
  shows "chunks_ok cs \<Longrightarrow> pa_inv mapped st \<Longrightarrow> chunks_mem cs \<subseteq> in_use mapped st \<Longrightarrow>
    pa_inv mapped (fold (\<lambda>(ptr, pages). SystemFree os ptr pages) cs st) \<and>
    in_use mapped st - chunks_mem cs \<subseteq> in_use mapped (fold (\<lambda>(ptr, pages). SystemFree os ptr pages) cs st) \<and>
    (munmap_succeeds os \<longrightarrow>
       in_use mapped (fold (\<lambda>(ptr, pages). SystemFree os ptr pages) cs st) = in_use mapped st - chunks_mem cs)"
proof (induction cs arbitrary: st)
  case (Cons x cs)
  obtain c n where x: "x = (c, n)" by (rule prod.exhaust)
  have ok: "c \<noteq> 0" "c mod PAGE_SIZE = 0" "c + n * PAGE_SIZE \<le> 2 ^ 47" "bytes c (n * PAGE_SIZE) \<inter> chunks_mem cs = {}"
    "chunks_ok cs" "bytes c (n * PAGE_SIZE) \<subseteq> in_use mapped st" "chunks_mem cs \<subseteq> in_use mapped st"
    using Cons.prems unfolding x by simp_all
  note f = SystemFree_spec [OF os Cons.prems(2) ok(2,3,1,6), unfolded free_spec_def]
  have "chunks_mem cs \<subseteq> in_use mapped (SystemFree os c n st)" using f ok(4,7) by blast
  with Cons.IH [OF ok(5), of "SystemFree os c n st"] f show ?case unfolding x by auto
qed simp

section \<open>Properties\<close>

text \<open>
  C29: \<open>ObjectPool::New\<close> never returns storage of a live object.  On success the address is new,
  aligned, and its bytes overlap no live object, no recycled storage and no chunk header; the
  pool only grows by memory that was not in use; on failure the pool is unchanged.
\<close>

theorem object_pool_new_fresh:
  assumes "kernel_ok os mapped" and "pa_inv mapped st" and "pool_type_ok t"
    and "pool_wf t live pool" and "pool_mem pool \<subseteq> in_use mapped st" and "New os t pool st = (r, pool', st')"
  shows "pa_inv mapped st' \<and> in_use mapped st \<subseteq> in_use mapped st' \<and> pool_mem pool' \<subseteq> in_use mapped st' \<and>
    (case r of
       None \<Rightarrow> pool' = pool
     | Some p \<Rightarrow> p \<notin> live \<and> p mod obj_align t = 0 \<and> pool_wf t (insert p live) pool' \<and>
         (\<forall>q. q \<in> live \<longrightarrow> bytes p (obj_bytes t) \<inter> bytes q (obj_bytes t) = {}))"
proof (cases r)
  case None
  with New_spec [OF assms] show ?thesis by auto
next
  case (Some p)
  with New_spec [OF assms] have p: "p \<notin> live" "pool_wf t (insert p live) pool'" by simp_all
  then have "p mod obj_align t = 0" "\<forall>q. q \<in> live \<longrightarrow> bytes p (obj_bytes t) \<inter> bytes q (obj_bytes t) = {}"
    unfolding pool_wf_def by auto
  with New_spec [OF assms] Some p show ?thesis by simp
qed

text \<open>The span metadata pool: one cache line per object, chunks of 64 KiB.\<close>

definition span_pool_type :: pool_type where
  "span_pool_type = \<lparr>obj_bytes = 64, obj_align = 64, chunk_bytes = 64 * 1024\<rparr>"

lemma New_demo: "\<exists>p pool' st'. New bump_os span_pool_type ObjectPool_ctor boot = (Some p, pool', st')"
proof -
  have "chunk_pages span_pool_type = 17"
    by (simp add: chunk_pages_def span_pool_type_def chunk_header_bytes_def PAGE_SHIFT_def PAGE_SIZE_def drop_bit_eq_div)
  moreover have "\<exists>p st. SystemAlloc bump_os 17 boot = (Some p, st)"
    by (simp add: SystemAlloc_def page_bytes PAGE_SHIFT_def PAGE_SIZE_def Let_def drop_bit_eq_div
        AllocNormalPage_def bump_first kernel_boot count_failed_def) (simp add: HUGE_PAGE_SIZE_def)
  ultimately show ?thesis
    by (auto simp: New_def ObjectPool_ctor_def span_pool_type_def split: prod.split)
qed

theorem object_pool_new_fresh_witness:
  "\<exists>p pool' st'. New bump_os span_pool_type ObjectPool_ctor boot = (Some p, pool', st') \<and> p mod 64 = 0 \<and>
     pool_wf span_pool_type {p} pool'"
proof -
  obtain p pool' st' where n: "New bump_os span_pool_type ObjectPool_ctor boot = (Some p, pool', st')"
    using New_demo by blast
  have t: "pool_type_ok span_pool_type" by (simp add: pool_type_ok_def span_pool_type_def)
  have "pool_mem ObjectPool_ctor \<subseteq> in_use snd boot" by (simp add: ObjectPool_ctor_def)
  from object_pool_new_fresh [OF kernel_ok_bump pa_inv_boot t pool_wf_ctor this n] n show ?thesis
    by (auto simp: span_pool_type_def)
qed

text \<open>
  \<open>ReleaseMemory\<close> returns every chunk of the pool to the page allocator and leaves all other
  memory in use alone.
\<close>

theorem object_pool_release:
  assumes "kernel_ok os mapped" and "pa_inv mapped st" and "pool_wf t live pool" and "pool_mem pool \<subseteq> in_use mapped st"
    and "ReleaseMemory os pool st = (pool', st')"
  shows "pool' = ObjectPool_ctor \<and> pa_inv mapped st' \<and> in_use mapped st - pool_mem pool \<subseteq> in_use mapped st' \<and>
    (munmap_succeeds os \<longrightarrow> in_use mapped st' = in_use mapped st - pool_mem pool)"
proof -
  have "chunks_ok (chunk_list pool)" using assms(3) by (simp add: pool_wf_def)
  from release_chunks [OF assms(1) this assms(2,4)] assms(5) show ?thesis
    by (auto simp: ReleaseMemory_def ObjectPool_ctor_def)
qed

theorem object_pool_release_witness:
  "fst (ReleaseMemory bump_os ObjectPool_ctor boot) = ObjectPool_ctor"
proof -
  have "pool_mem ObjectPool_ctor \<subseteq> in_use snd boot" by (simp add: ObjectPool_ctor_def)
  from object_pool_release [OF kernel_ok_bump pa_inv_boot pool_wf_ctor this prod.collapse [symmetric]]
  show ?thesis by simp
qed

end
