(* ===== verification/Am_Common.thy ===== *)
theory Am_Common
  imports Size_Class
begin

text \<open>
  \<open>common.h\<close>: size and address helpers on 64-bit \<open>size_t\<close> and \<open>uintptr_t\<close>.
\<close>

section \<open>Sizes and addresses\<close>

definition AlignUp :: "nat \<Rightarrow> nat \<Rightarrow> nat" where
  "AlignUp sz align =
     (if sz = 0 then align
      else if has_single_bit (of_nat align) then align_down ((sz + align - 1) mod 2 ^ 64) align
      else (sz + align - 1) mod 2 ^ 64 div align * align)"

definition PtrToPageId :: "addr \<Rightarrow> nat" where
  "PtrToPageId ptr = drop_bit (countr_zero (of_nat PAGE_SIZE)) ptr"

definition PageIDToPtr :: "nat \<Rightarrow> addr" where
  "PageIDToPtr page_idx = push_bit (countr_zero (of_nat PAGE_SIZE)) page_idx mod 2 ^ 64"

lemma countr_zero_PAGE_SIZE: "countr_zero (of_nat PAGE_SIZE) = PAGE_SHIFT"
proof -
  have e: "(of_nat PAGE_SIZE :: u64) = 2 ^ PAGE_SHIFT" by (simp add: PAGE_SIZE_def PAGE_SHIFT_def)
  have b: "bit ((2 :: u64) ^ PAGE_SHIFT) i \<longleftrightarrow> i = PAGE_SHIFT" for i
    unfolding bit_exp_iff by (auto simp: PAGE_SHIFT_def)
  show ?thesis unfolding e by (rule countr_zero_eqI) (simp_all add: b)
qed

lemma PtrToPageId_eq: "PtrToPageId p = p div PAGE_SIZE"
  unfolding PtrToPageId_def countr_zero_PAGE_SIZE by (simp add: drop_bit_eq_div PAGE_SIZE_def PAGE_SHIFT_def)

lemma PageIDToPtr_eq: "n < 2 ^ 52 \<Longrightarrow> PageIDToPtr n = n * PAGE_SIZE"
  unfolding PageIDToPtr_def countr_zero_PAGE_SIZE by (simp add: push_bit_eq_mult PAGE_SIZE_def PAGE_SHIFT_def)

lemma PtrToPageId_PageIDToPtr: "n < 2 ^ 52 \<Longrightarrow> PtrToPageId (PageIDToPtr n) = n"
  by (simp add: PtrToPageId_eq PageIDToPtr_eq PAGE_SIZE_def)

end
