(* ===== verification/Span_List.thy ===== *)
theory Span_List
  imports Am_Prelude
begin

text \<open>
  \<open>SpanList\<close> of \<open>span.h\<close>: the intrusive circular list with an inline sentinel, on an explicit
  store of the \<open>next\<close> and \<open>prev\<close> fields of all spans (one store is shared by every list).
  The list operations are proved to implement the operations on the sequence of linked spans.
\<close>

section \<open>Operations\<close>

type_synonym span_ptr = nat

record links =
  nxt :: "span_ptr \<Rightarrow> span_ptr option"
  prv :: "span_ptr \<Rightarrow> span_ptr option"

definition SpanList_ctor :: "span_ptr \<Rightarrow> links \<Rightarrow> links" where
  "SpanList_ctor h l = l\<lparr>nxt := (nxt l)(h := Some h), prv := (prv l)(h := Some h)\<rparr>"

definition sl_begin :: "span_ptr \<Rightarrow> links \<Rightarrow> span_ptr option" where
  "sl_begin h l = nxt l h"

definition sl_end :: "span_ptr \<Rightarrow> span_ptr" where
  "sl_end h = h"

definition sl_empty :: "span_ptr \<Rightarrow> links \<Rightarrow> bool" where
  "sl_empty h l \<longleftrightarrow> nxt l h = Some h"

text \<open>\<open>None\<close> stands for the dereference of a null link.\<close>

definition sl_insert :: "span_ptr \<Rightarrow> span_ptr \<Rightarrow> links \<Rightarrow> links option" where
  "sl_insert pos sp l =
     (let l1 = l\<lparr>nxt := (nxt l)(sp := Some pos)\<rparr>;
          l2 = l1\<lparr>prv := (prv l1)(sp := prv l1 pos)\<rparr>
      in case prv l2 sp of
           None \<Rightarrow> None
         | Some p \<Rightarrow>
             let l3 = l2\<lparr>nxt := (nxt l2)(p := Some sp)\<rparr>
             in Some (l3\<lparr>prv := (prv l3)(pos := Some sp)\<rparr>))"

definition push_front :: "span_ptr \<Rightarrow> span_ptr \<Rightarrow> links \<Rightarrow> links option" where
  "push_front h sp l = Option.bind (sl_begin h l) (\<lambda>b. sl_insert b sp l)"

definition push_back :: "span_ptr \<Rightarrow> span_ptr \<Rightarrow> links \<Rightarrow> links option" where
  "push_back h sp l = sl_insert (sl_end h) sp l"

definition erase :: "span_ptr \<Rightarrow> links \<Rightarrow> (links \<times> span_ptr) option" where
  "erase sp l =
     (case (prv l sp, nxt l sp) of
        (Some p, Some n) \<Rightarrow>
          let l1 = l\<lparr>nxt := (nxt l)(p := Some n)\<rparr>;
              l2 = l1\<lparr>prv := (prv l1)(n := Some p)\<rparr>;
              l3 = l2\<lparr>prv := (prv l2)(sp := None)\<rparr>
          in Some (l3\<lparr>nxt := (nxt l3)(sp := None)\<rparr>, n)
      | _ \<Rightarrow> None)"

definition pop_front :: "span_ptr \<Rightarrow> links \<Rightarrow> (links \<times> span_ptr option) option" where
  "pop_front h l =
     (if sl_empty h l then Some (l, None)
      else case nxt l h of
        None \<Rightarrow> None
      | Some sp \<Rightarrow> map_option (\<lambda>(l', _). (l', Some sp)) (erase sp l))"

lemma last_not_in_butlast: "distinct xs \<Longrightarrow> xs \<noteq> [] \<Longrightarrow> last xs \<notin> set (butlast xs)"
  by (induction xs rule: rev_induct) auto

section \<open>The sequence of linked spans\<close>

fun lseg :: "links \<Rightarrow> span_ptr \<Rightarrow> span_ptr list \<Rightarrow> span_ptr \<Rightarrow> bool" where
  "lseg l a [] b \<longleftrightarrow> nxt l a = Some b \<and> prv l b = Some a"
| "lseg l a (x # xs) b \<longleftrightarrow> nxt l a = Some x \<and> prv l x = Some a \<and> lseg l x xs b"

definition ring :: "span_ptr \<Rightarrow> span_ptr list \<Rightarrow> links \<Rightarrow> bool" where
  "ring h xs l \<longleftrightarrow> distinct (h # xs) \<and> lseg l h xs h"

text \<open>Links of the spans outside of \<open>S\<close> are kept.\<close>

definition same_links :: "span_ptr set \<Rightarrow> links \<Rightarrow> links \<Rightarrow> bool" where
  "same_links S l l' \<longleftrightarrow> (\<forall>p. p \<notin> S \<longrightarrow> nxt l' p = nxt l p \<and> prv l' p = prv l p)"

lemma lseg_append [simp]: "lseg l a (xs @ x # ys) b \<longleftrightarrow> lseg l a xs x \<and> lseg l x ys b"
  by (induction xs arbitrary: a) auto

lemma lseg_prv_last: "lseg l a xs b \<Longrightarrow> prv l b = Some (last (a # xs))"
  by (induction xs arbitrary: a) auto

lemma lseg_nxt_first: "lseg l a xs b \<Longrightarrow> nxt l a = Some (hd (xs @ [b]))"
  by (cases xs) auto

lemma lseg_cong:
  "lseg l a xs b \<Longrightarrow> (\<And>p. p \<in> set (a # xs) \<Longrightarrow> nxt l' p = nxt l p) \<Longrightarrow>
    (\<And>p. p \<in> set (xs @ [b]) \<Longrightarrow> prv l' p = prv l p) \<Longrightarrow> lseg l' a xs b"
  by (induction xs arbitrary: a) auto

lemma ring_frame:
  assumes "ring h xs l" and "same_links S l l'" and "S \<inter> set (h # xs) = {}"
  shows "ring h xs l'"
  using assms unfolding ring_def same_links_def
  by (auto intro!: lseg_cong [of l] simp: disjoint_iff)

lemma ring_ctor: "ring h [] (SpanList_ctor h l)"
  by (simp add: ring_def SpanList_ctor_def)

lemma ring_empty_iff: "ring h xs l \<Longrightarrow> sl_empty h l \<longleftrightarrow> xs = []"
  by (cases xs) (auto simp: ring_def sl_empty_def)

lemma lseg_new_end:
  "lseg l a xs b \<Longrightarrow> (\<And>p. p \<in> set (butlast (a # xs)) \<Longrightarrow> nxt l' p = nxt l p) \<Longrightarrow>
    (\<And>p. p \<in> set xs \<Longrightarrow> prv l' p = prv l p) \<Longrightarrow>
    nxt l' (last (a # xs)) = Some c \<Longrightarrow> prv l' c = Some (last (a # xs)) \<Longrightarrow> lseg l' a xs c"
  by (induction xs arbitrary: a) (auto split: if_splits)

lemma lseg_new_start:
  "lseg l a xs b \<Longrightarrow> (\<And>p. p \<in> set xs \<Longrightarrow> nxt l' p = nxt l p) \<Longrightarrow>
    (\<And>p. p \<in> set (tl (xs @ [b])) \<Longrightarrow> prv l' p = prv l p) \<Longrightarrow>
    nxt l' c = Some (hd (xs @ [b])) \<Longrightarrow> prv l' (hd (xs @ [b])) = Some c \<Longrightarrow> lseg l' c xs b"
  by (cases xs) (auto intro: lseg_cong)

lemma lseg_split: "lseg l a (xs @ ys) b \<Longrightarrow> lseg l a xs (hd (ys @ [b])) \<and> lseg l (last (a # xs)) ys b"
  by (induction xs arbitrary: a) (cases ys; auto)+

lemma ring_insert:
  assumes "ring h (xs @ ys) l" and "sp \<notin> set (h # xs @ ys)"
  obtains l' where "sl_insert (hd (ys @ [h])) sp l = Some l'" and "ring h (xs @ sp # ys) l'"
    and "same_links (insert sp (set (h # xs @ ys))) l l'"
proof -
  let ?pos = "hd (ys @ [h])" and ?p = "last (h # xs)"
  have d: "distinct (h # xs @ ys)" and seg: "lseg l h xs ?pos" "lseg l ?p ys h"
    using assms(1) lseg_split [of l h xs ys h] by (auto simp: ring_def)
  have prv: "prv l ?pos = Some ?p" by (rule lseg_prv_last [OF seg(1)])
  have pos_in: "?pos \<in> set (h # ys)" by (cases ys) auto
  have p_in: "?p \<in> set (h # xs)" by (rule last_in_set) simp
  define l' where "l' = l\<lparr>nxt := (nxt l)(sp := Some ?pos, ?p := Some sp),
    prv := (prv l)(sp := Some ?p, ?pos := Some sp)\<rparr>"
  have sp: "sp \<noteq> ?pos" "sp \<noteq> ?p" using pos_in p_in assms(2) by auto
  have run: "sl_insert ?pos sp l = Some l'"
    using prv sp by (simp add: sl_insert_def l'_def)
  have bl: "?p \<notin> set (butlast (h # xs))"
    by (rule last_not_in_butlast) (use d in auto)
  have pos_xs: "?pos \<notin> set xs" using pos_in d by auto
  have "lseg l' h xs sp"
    using bl pos_xs sp assms(2)
    by (intro lseg_new_end [OF seg(1)]) (auto simp: l'_def simp del: last.simps butlast.simps dest: in_set_butlastD)
  moreover have "?pos \<notin> set (tl (ys @ [h]))" "sp \<notin> set (tl (ys @ [h]))" "?p \<notin> set ys"
    using d assms(2) p_in by (cases ys; auto)+
  then have "lseg l' sp ys h"
    using sp assms(2) by (intro lseg_new_start [OF seg(2)]) (auto simp: l'_def)
  ultimately have "ring h (xs @ sp # ys) l'"
    using d assms(2) by (auto simp: ring_def)
  moreover have "same_links (insert sp (set (h # xs @ ys))) l l'"
    using pos_in p_in by (auto simp: same_links_def l'_def)
  ultimately show ?thesis using that run by blast
qed

lemma ring_erase:
  assumes "ring h (xs @ sp # ys) l"
  obtains l' where "erase sp l = Some (l', hd (ys @ [h]))" and "ring h (xs @ ys) l'"
    and "same_links (set (h # xs @ sp # ys)) l l'" and "nxt l' sp = None" and "prv l' sp = None"
proof -
  let ?n = "hd (ys @ [h])" and ?p = "last (h # xs)"
  have d: "distinct (h # xs @ sp # ys)" and seg: "lseg l h xs sp" "lseg l sp ys h"
    using assms by (auto simp: ring_def)
  have n_in: "?n \<in> set (h # ys)" by (cases ys) auto
  have p_in: "?p \<in> set (h # xs)" by (rule last_in_set) simp
  have sp: "sp \<noteq> ?n" "sp \<noteq> ?p" using n_in p_in d by auto
  define l' where "l' = l\<lparr>nxt := (nxt l)(?p := Some ?n, sp := None),
    prv := (prv l)(?n := Some ?p, sp := None)\<rparr>"
  have run: "erase sp l = Some (l', ?n)"
    using lseg_prv_last [OF seg(1)] lseg_nxt_first [OF seg(2)] by (simp add: erase_def l'_def)
  have bl: "?p \<notin> set (butlast (h # xs))"
    by (rule last_not_in_butlast) (use d in auto)
  have n_xs: "?n \<notin> set xs" using n_in d by auto
  have s1: "lseg l' h xs ?n"
    using bl n_xs sp d in_set_butlastD [of _ "h # xs"]
    by (intro lseg_new_end [OF seg(1)]) (auto simp: l'_def simp del: last.simps butlast.simps)
  have "lseg l' h (xs @ ys) h"
  proof (cases ys)
    case Nil
    with s1 show ?thesis by simp
  next
    case (Cons y zs)
    then have y: "?n = y" "lseg l y zs h" "?p \<notin> set ys" "sp \<notin> set (h # ys)" "y \<notin> set (zs @ [h])"
      using seg(2) d p_in by auto
    have "lseg l' y zs h"
      by (rule lseg_cong [OF y(2)]) (use y Cons in \<open>auto simp: l'_def simp del: last.simps\<close>)
    with Cons s1 show ?thesis by simp
  qed
  then have "ring h (xs @ ys) l'" using d by (auto simp: ring_def)
  moreover have "same_links (set (h # xs @ sp # ys)) l l'"
    using n_in p_in by (auto simp: same_links_def l'_def)
  ultimately show ?thesis using that run by (simp add: l'_def)
qed

lemma push_front_ring:
  assumes "ring h xs l" and "sp \<notin> set (h # xs)"
  shows "\<exists>l'. push_front h sp l = Some l' \<and> ring h (sp # xs) l' \<and>
    same_links (insert sp (set (h # xs))) l l'"
proof -
  have "sl_begin h l = Some (hd (xs @ [h]))"
    using assms(1) lseg_nxt_first by (auto simp: ring_def sl_begin_def)
  moreover obtain l' where "sl_insert (hd (xs @ [h])) sp l = Some l'" "ring h (sp # xs) l'"
    "same_links (insert sp (set (h # xs))) l l'"
    using ring_insert [of h "[]" xs l sp] assms by auto
  ultimately show ?thesis by (simp add: push_front_def)
qed

lemma push_back_ring:
  assumes "ring h xs l" and "sp \<notin> set (h # xs)"
  shows "\<exists>l'. push_back h sp l = Some l' \<and> ring h (xs @ [sp]) l' \<and>
    same_links (insert sp (set (h # xs))) l l'"
  using ring_insert [of h xs "[]" l sp] assms by (auto simp: push_back_def sl_end_def)

lemma erase_ring:
  assumes "ring h (xs @ sp # ys) l"
  shows "\<exists>l'. erase sp l = Some (l', hd (ys @ [h])) \<and> ring h (xs @ ys) l' \<and>
    same_links (set (h # xs @ sp # ys)) l l'"
  using ring_erase [OF assms] by metis

lemma pop_front_Nil: "ring h [] l \<Longrightarrow> pop_front h l = Some (l, None)"
  by (simp add: pop_front_def ring_empty_iff)

lemma pop_front_Cons:
  assumes "ring h (sp # xs) l"
  shows "\<exists>l'. pop_front h l = Some (l', Some sp) \<and> ring h xs l' \<and> same_links (set (h # sp # xs)) l l'"
proof -
  have "nxt l h = Some sp" "\<not> sl_empty h l" using assms by (auto simp: ring_def sl_empty_def)
  with erase_ring [of h "[]" sp xs l] assms show ?thesis by (auto simp: pop_front_def)
qed

section \<open>The contract of a span list\<close>

text \<open>
  What PageCache and CentralCache rely on: the operations act on the sequence \<open>xs\<close> that list \<open>h\<close>
  represents, and lists that share no span with it keep theirs.
\<close>

locale span_sequence =
  fixes rep :: "'p \<Rightarrow> 'p list \<Rightarrow> 'l \<Rightarrow> bool" and frame :: "'p set \<Rightarrow> 'l \<Rightarrow> 'l \<Rightarrow> bool"
    and ctor :: "'p \<Rightarrow> 'l \<Rightarrow> 'l"
    and pushf pushb :: "'p \<Rightarrow> 'p \<Rightarrow> 'l \<Rightarrow> 'l option"
    and popf :: "'p \<Rightarrow> 'l \<Rightarrow> ('l \<times> 'p option) option"
    and unlink :: "'p \<Rightarrow> 'l \<Rightarrow> ('l \<times> 'p) option"
  assumes rep_distinct: "rep h xs l \<Longrightarrow> distinct (h # xs)"
    and rep_ctor: "rep h [] (ctor h l)"
    and rep_frame: "rep h xs l \<Longrightarrow> frame S l l' \<Longrightarrow> S \<inter> set (h # xs) = {} \<Longrightarrow> rep h xs l'"
    and rep_pushf: "rep h xs l \<Longrightarrow> p \<notin> set (h # xs) \<Longrightarrow>
      \<exists>l'. pushf h p l = Some l' \<and> rep h (p # xs) l' \<and> frame (insert p (set (h # xs))) l l'"
    and rep_pushb: "rep h xs l \<Longrightarrow> p \<notin> set (h # xs) \<Longrightarrow>
      \<exists>l'. pushb h p l = Some l' \<and> rep h (xs @ [p]) l' \<and> frame (insert p (set (h # xs))) l l'"
    and rep_popf_Nil: "rep h [] l \<Longrightarrow> popf h l = Some (l, None)"
    and rep_popf_Cons: "rep h (p # xs) l \<Longrightarrow>
      \<exists>l'. popf h l = Some (l', Some p) \<and> rep h xs l' \<and> frame (set (h # p # xs)) l l'"
    and rep_unlink: "rep h (xs @ p # ys) l \<Longrightarrow>
      \<exists>l'. unlink p l = Some (l', hd (ys @ [h])) \<and> rep h (xs @ ys) l' \<and>
        frame (set (h # xs @ p # ys)) l l'"
begin

lemma pushf_popf:
  assumes "rep h xs l" and "p \<notin> set (h # xs)"
  shows "\<exists>l' l''. pushf h p l = Some l' \<and> popf h l' = Some (l'', Some p) \<and> rep h xs l''"
  using rep_pushf [OF assms] rep_popf_Cons by blast

lemma unlink_member:
  assumes "rep h xs l" and "p \<in> set xs"
  shows "\<exists>l' n. unlink p l = Some (l', n) \<and> rep h (remove1 p xs) l' \<and> frame (set (h # xs)) l l'"
proof -
  obtain ys zs where x: "xs = ys @ p # zs" "p \<notin> set ys" using split_list_first [OF assms(2)] by blast
  then have "remove1 p xs = ys @ zs" by (simp add: remove1_append)
  with x rep_unlink [of h ys p zs l] assms(1) show ?thesis by auto
qed

text \<open>Moving a span from one list to another, as the caches do.\<close>

lemma move_front:
  assumes "rep g xs l" and "rep h ys l" and "p \<in> set xs" and "set (g # xs) \<inter> set (h # ys) = {}"
  shows "\<exists>l' n l''. unlink p l = Some (l', n) \<and> pushf h p l' = Some l'' \<and>
    rep g (remove1 p xs) l'' \<and> rep h (p # ys) l''"
proof -
  obtain l' n where u: "unlink p l = Some (l', n)" "rep g (remove1 p xs) l'" "frame (set (g # xs)) l l'"
    using unlink_member [OF assms(1,3)] by blast
  have h: "rep h ys l'" by (rule rep_frame [OF assms(2) u(3) assms(4)])
  have "p \<notin> set (h # ys)" using assms(3,4) by auto
  from rep_pushf [OF h this] obtain l'' where
    f: "pushf h p l' = Some l''" "rep h (p # ys) l''" "frame (insert p (set (h # ys))) l' l''" by blast
  have "insert p (set (h # ys)) \<inter> set (g # remove1 p xs) = {}"
    using assms(3,4) rep_distinct [OF assms(1)] set_remove1_subset [of p xs] by auto
  with rep_frame [OF u(2) f(3)] u f show ?thesis by blast
qed

end

interpretation span_list: span_sequence ring same_links SpanList_ctor push_front push_back pop_front erase
  by unfold_locales
    (use ring_ctor ring_frame push_front_ring push_back_ring pop_front_Nil pop_front_Cons erase_ring
      in \<open>auto simp: ring_def\<close>)

section \<open>Properties\<close>

text \<open>
  C30: \<open>push_front\<close>, \<open>push_back\<close> and \<open>pop_front\<close> on the linked representation never dereference
  null and implement the sequence operations: they put the span first or last and take the first
  span away, and they touch only the links of this list and of the inserted span.
\<close>

theorem span_list_refines:
  assumes "ring h xs l" and "sp \<notin> set (h # xs)"
  shows "(\<exists>l'. push_front h sp l = Some l' \<and> ring h (sp # xs) l' \<and> same_links (insert sp (set (h # xs))) l l') \<and>
    (\<exists>l'. push_back h sp l = Some l' \<and> ring h (xs @ [sp]) l' \<and> same_links (insert sp (set (h # xs))) l l') \<and>
    (\<exists>l'. pop_front h l = Some (l', if xs = [] then None else Some (hd xs)) \<and> ring h (tl xs) l' \<and>
       same_links (set (h # xs)) l l')"
  using span_list.rep_pushf [OF assms] span_list.rep_pushb [OF assms]
    span_list.rep_popf_Nil span_list.rep_popf_Cons assms(1)
  by (cases xs) (auto simp: same_links_def)

theorem span_list_refines_witness:
  "\<exists>l. push_front 0 1 (SpanList_ctor 0 \<lparr>nxt = \<lambda>_. None, prv = \<lambda>_. None\<rparr>) = Some l \<and> ring 0 [1] l"
  using span_list_refines [OF ring_ctor, of 1 0 "\<lparr>nxt = \<lambda>_. None, prv = \<lambda>_. None\<rparr>"] by auto

text \<open>
  Erasing a span from one list and pushing it on another, as PageCache and CentralCache do
  on the same link store, removes it from the first sequence, puts it in front of the second and
  leaves both circular lists intact.
\<close>

theorem span_list_move:
  assumes "ring g xs l" and "ring h ys l" and "sp \<in> set xs" and "set (g # xs) \<inter> set (h # ys) = {}"
  shows "\<exists>l' n l''. erase sp l = Some (l', n) \<and> push_front h sp l' = Some l'' \<and>
    ring g (remove1 sp xs) l'' \<and> ring h (sp # ys) l''"
  by (rule span_list.move_front [OF assms])

definition demo_links :: links where
  "demo_links = \<lparr>nxt = [0 \<mapsto> 2, 2 \<mapsto> 0, 1 \<mapsto> 1], prv = [0 \<mapsto> 2, 2 \<mapsto> 0, 1 \<mapsto> 1]\<rparr>"

theorem span_list_move_witness:
  "\<exists>l' n l''. erase 2 demo_links = Some (l', n) \<and> push_front 1 2 l' = Some l'' \<and>
    ring 0 [] l'' \<and> ring 1 [2] l''"
  using span_list_move [of 0 "[2]" demo_links 1 "[]" 2] by (simp add: ring_def demo_links_def)

end
