(* ===== verification/Page_Cache.thy ===== *)
theory Page_Cache
  imports Am_Span Page_Map Object_Pool Am_Common Span_List
begin

text \<open>
  \<open>PageCacheShard\<close> and \<open>PageCache\<close> of \<open>page_cache.h\<close> and \<open>page_cache.cpp\<close>.  The state holds the
  store of live \<open>Span\<close> objects by address, the free lists as sequences of span addresses (the
  representation that \<open>Span_List\<close> implements), the page map, the metadata pools and the page
  allocator.  \<open>SelectShardForAlloc\<close> returns shard 0 for every request, so that there is one
  shard.  Each operation runs with the shard mutex held.
\<close>

section \<open>State\<close>

text \<open>\<open>Dangling\<close>: access through a pointer to a span that is not live.\<close>

datatype pc_error = Exn pm_error | Dangling

record 'k pc =
  sys :: "'k pa"
  spans :: "addr \<Rightarrow> span option"
  span_lists :: "addr list list"
  pmap :: "addr page_map"
  span_pool :: obj_pool
  node_pool :: obj_pool

definition radix_pool_type :: pool_type where
  "radix_pool_type = \<lparr>obj_bytes = 4096, obj_align = 4096, chunk_bytes = 64 * 1024\<rparr>"

definition PageCache_ctor :: "'k pa \<Rightarrow> 'k pc" where
  "PageCache_ctor s =
     \<lparr>sys = s, spans = Map.empty, span_lists = replicate (MAX_PAGE_NUM + 1) [], pmap = \<lparr>root = None\<rparr>,
      span_pool = ObjectPool_ctor, node_pool = ObjectPool_ctor\<rparr>"

section \<open>Calls into the other components\<close>

definition new_node :: "'k os \<Rightarrow> obj_pool \<times> 'k pa \<Rightarrow> (obj_pool \<times> 'k pa) option" where
  "new_node os p =
     (case New os radix_pool_type (fst p) (snd p) of
        (None, _, _) \<Rightarrow> None
      | (Some _, pool, s) \<Rightarrow> Some (pool, s))"

definition pc_SetSpan :: "'k os \<Rightarrow> addr \<Rightarrow> 'k pc \<Rightarrow> pc_error + 'k pc" where
  "pc_SetSpan os a st =
     (case spans st a of
        None \<Rightarrow> Inl Dangling
      | Some sp \<Rightarrow>
          (case SetSpan (new_node os) a (start_page_idx sp) (page_num sp) (pmap st) (node_pool st, sys st) of
             Inl e \<Rightarrow> Inl (Exn e)
           | Inr (m, np, s) \<Rightarrow> Inr (st\<lparr>pmap := m, node_pool := np, sys := s\<rparr>)))"

definition pc_NewSpan :: "'k os \<Rightarrow> nat \<Rightarrow> nat \<Rightarrow> 'k pc \<Rightarrow> addr option \<times> 'k pc" where
  "pc_NewSpan os start pages st =
     (case New os span_pool_type (span_pool st) (sys st) of
        (None, pool, s) \<Rightarrow> (None, st\<lparr>span_pool := pool, sys := s\<rparr>)
      | (Some a, pool, s) \<Rightarrow>
          (Some a, st\<lparr>span_pool := pool, sys := s, spans := (spans st)(a \<mapsto> new_span start pages)\<rparr>))"

definition pc_DeleteSpan :: "addr \<Rightarrow> 'k pc \<Rightarrow> 'k pc" where
  "pc_DeleteSpan a st = st\<lparr>span_pool := Delete a (span_pool st), spans := (spans st)(a := None)\<rparr>"

definition pc_update :: "addr \<Rightarrow> (span \<Rightarrow> span) \<Rightarrow> 'k pc \<Rightarrow> 'k pc" where
  "pc_update a f st = st\<lparr>spans := (spans st)(a := map_option f (spans st a))\<rparr>"

definition list_push_front :: "nat \<Rightarrow> addr \<Rightarrow> 'k pc \<Rightarrow> 'k pc" where
  "list_push_front i a st = st\<lparr>span_lists := (span_lists st)[i := a # (span_lists st ! i)]\<rparr>"

definition list_pop_front :: "nat \<Rightarrow> 'k pc \<Rightarrow> 'k pc" where
  "list_pop_front i st = st\<lparr>span_lists := (span_lists st)[i := tl (span_lists st ! i)]\<rparr>"

definition list_erase :: "nat \<Rightarrow> addr \<Rightarrow> 'k pc \<Rightarrow> 'k pc" where
  "list_erase i a st = st\<lparr>span_lists := (span_lists st)[i := remove1 a (span_lists st ! i)]\<rparr>"

definition GetCurrentTimeMs :: "'k os \<Rightarrow> 'k pc \<Rightarrow> nat \<times> 'k pc" where
  "GetCurrentTimeMs os st =
     (case steady_clock_ms os (kernel (sys st)) of
        (t, k) \<Rightarrow> (t, st\<lparr>sys := (sys st)\<lparr>kernel := k\<rparr>\<rparr>))"

definition pc_SystemFree :: "'k os \<Rightarrow> addr \<Rightarrow> nat \<Rightarrow> 'k pc \<Rightarrow> 'k pc" where
  "pc_SystemFree os ptr pages st = st\<lparr>sys := SystemFree os ptr pages (sys st)\<rparr>"

section \<open>AllocSpanLocked\<close>

type_synonym 'k alloc_result = "pc_error + addr option \<times> 'k pc"

definition alloc_oversized :: "'k os \<Rightarrow> nat \<Rightarrow> 'k pc \<Rightarrow> 'k alloc_result" where
  "alloc_oversized os pages st =
     (case SystemAlloc os pages (sys st) of
        (None, s) \<Rightarrow> Inr (None, st\<lparr>sys := s\<rparr>)
      | (Some ptr, s) \<Rightarrow>
          (case pc_NewSpan os (PtrToPageId ptr) (pages mod 2 ^ 32) (st\<lparr>sys := s\<rparr>) of
             (None, st1) \<Rightarrow> Inr (None, pc_SystemFree os ptr pages st1)
           | (Some a, st1) \<Rightarrow>
               map_sum id (\<lambda>st2. (Some a, st2))
                 (pc_SetSpan os a
                   (pc_update a (\<lambda>sp. (SetCommitted True (SetUsed True sp))\<lparr>owner_shard_id := 0\<rparr>) st1))))"

definition alloc_exact :: "nat \<Rightarrow> 'k pc \<Rightarrow> 'k alloc_result" where
  "alloc_exact pages st =
     (let a = hd (span_lists st ! pages)
      in if spans st a = None then Inl Dangling
         else Inr (Some a, pc_update a (SetCommitted True \<circ> SetUsed True) (list_pop_front pages st)))"

definition split_bucket :: "nat \<Rightarrow> 'k pc \<Rightarrow> nat option" where
  "split_bucket pages st = find (\<lambda>i. span_lists st ! i \<noteq> []) [pages + 1..<MAX_PAGE_NUM + 1]"

text \<open>The split once the metadata of the small span exists: \<open>bsp\<close> is the large span before it.\<close>

definition split_span :: "'k os \<Rightarrow> nat \<Rightarrow> addr \<Rightarrow> span \<Rightarrow> addr \<Rightarrow> 'k pc \<Rightarrow> 'k alloc_result" where
  "split_span os pages big bsp small st =
     (let st1 = pc_update small
            (\<lambda>sp. (SetCommitted True (SetUsed True sp))\<lparr>owner_shard_id := owner_shard_id bsp\<rparr>) st;
          (now, st2) = GetCurrentTimeMs os st1;
          bsp' = (SetCommitted True (SetUsed False
            (bsp\<lparr>start_page_idx := start_page_idx bsp + pages,
                 page_num := (page_num bsp + 2 ^ 32 - pages mod 2 ^ 32) mod 2 ^ 32\<rparr>)))
            \<lparr>last_used_time_ms := now\<rparr>;
          st3 = list_push_front (page_num bsp') big (pc_update big (\<lambda>_. bsp') st2)
      in case pc_SetSpan os small st3 of
           Inl e \<Rightarrow> Inl e
         | Inr st4 \<Rightarrow> map_sum id (\<lambda>st5. (Some small, st5)) (pc_SetSpan os big st4))"

definition alloc_split :: "'k os \<Rightarrow> nat \<Rightarrow> nat \<Rightarrow> 'k pc \<Rightarrow> 'k alloc_result" where
  "alloc_split os pages i st =
     (let big = hd (span_lists st ! i)
      in case spans st big of
           None \<Rightarrow> Inl Dangling
         | Some bsp \<Rightarrow>
             (case pc_NewSpan os (start_page_idx bsp) (pages mod 2 ^ 32) (list_pop_front i st) of
                (None, st1) \<Rightarrow> Inr (None, list_push_front i big st1)
              | (Some small, st1) \<Rightarrow> split_span os pages big bsp small st1))"

text \<open>The refill branch: \<open>Inl\<close> ends the call, \<open>Inr\<close> continues the loop.\<close>

definition alloc_refill :: "'k os \<Rightarrow> 'k pc \<Rightarrow> 'k alloc_result + 'k pc" where
  "alloc_refill os st =
     (case SystemAlloc os MAX_PAGE_NUM (sys st) of
        (None, s) \<Rightarrow> Inl (Inr (None, st\<lparr>sys := s\<rparr>))
      | (Some ptr, s) \<Rightarrow>
          (case pc_NewSpan os (PtrToPageId ptr) MAX_PAGE_NUM (st\<lparr>sys := s\<rparr>) of
             (None, st1) \<Rightarrow> Inl (Inr (None, pc_SystemFree os ptr MAX_PAGE_NUM st1))
           | (Some a, st1) \<Rightarrow>
               let (now, st2) = GetCurrentTimeMs os st1;
                   st3 = pc_update a (\<lambda>sp. (SetCommitted True (SetUsed False sp))
                           \<lparr>last_used_time_ms := now, owner_shard_id := 0\<rparr>) st2
               in case pc_SetSpan os a (list_push_front MAX_PAGE_NUM a st3) of
                    Inl e \<Rightarrow> Inl (Inl e)
                  | Inr st4 \<Rightarrow> Inr st4))"

definition alloc_step :: "'k os \<Rightarrow> nat \<Rightarrow> 'k pc \<Rightarrow> 'k alloc_result + 'k pc" where
  "alloc_step os pages st =
     (if pages > MAX_PAGE_NUM then Inl (alloc_oversized os pages st)
      else if span_lists st ! pages \<noteq> [] then Inl (alloc_exact pages st)
      else case split_bucket pages st of
        Some i \<Rightarrow> Inl (alloc_split os pages i st)
      | None \<Rightarrow> alloc_refill os st)"

partial_function (option) AllocSpan_loop :: "'k os \<Rightarrow> nat \<Rightarrow> 'k pc \<Rightarrow> 'k alloc_result option" where
  "AllocSpan_loop os pages st =
     (case alloc_step os pages st of
        Inl res \<Rightarrow> Some res
      | Inr st' \<Rightarrow> AllocSpan_loop os pages st')"

definition AllocSpanLocked :: "'k os \<Rightarrow> nat \<Rightarrow> 'k pc \<Rightarrow> 'k alloc_result option" where
  "AllocSpanLocked os pages st =
     (if pages = 0 \<or> pages > 2 ^ 32 - 1 then Some (Inr (None, st)) else AllocSpan_loop os pages st)"

text \<open>\<open>PageCache::AllocSpan\<close> with \<open>SelectShardForAlloc\<close>, which is 0.\<close>

definition AllocSpan :: "'k os \<Rightarrow> nat \<Rightarrow> 'k pc \<Rightarrow> 'k alloc_result option" where
  "AllocSpan os pages st =
     map_option (map_sum id (\<lambda>(r, st').
       (r, case r of None \<Rightarrow> st' | Some a \<Rightarrow> pc_update a (\<lambda>sp. sp\<lparr>owner_shard_id := 0\<rparr>) st')))
       (AllocSpanLocked os pages st)"

section \<open>ReleaseSpanLocked\<close>

text \<open>
  The merge test of both loops: the neighbour's address and metadata when the neighbour is to be
  merged; \<open>sp\<close> is the span being released.
\<close>

definition merge_candidate :: "nat \<Rightarrow> span \<Rightarrow> 'k pc \<Rightarrow> pc_error + (addr \<times> span) option" where
  "merge_candidate page_id sp st =
     (case GetSpan (pmap st) page_id of
        None \<Rightarrow> Inr None
      | Some b \<Rightarrow>
          (case spans st b of
             None \<Rightarrow> Inl Dangling
           | Some nb \<Rightarrow>
               if IsUsed nb \<or> owner_shard_id nb \<noteq> owner_shard_id sp \<or>
                  (page_num sp + page_num nb) mod 2 ^ 32 > MAX_PAGE_NUM
               then Inr None else Inr (Some (b, nb))))"

partial_function (option) merge_left :: "addr \<Rightarrow> 'k pc \<Rightarrow> (pc_error + 'k pc) option" where
  "merge_left a st =
     (case spans st a of
        None \<Rightarrow> Some (Inl Dangling)
      | Some sp \<Rightarrow>
          if start_page_idx sp = 0 then Some (Inr st)
          else (case merge_candidate (start_page_idx sp - 1) sp st of
             Inl e \<Rightarrow> Some (Inl e)
           | Inr None \<Rightarrow> Some (Inr st)
           | Inr (Some (b, nb)) \<Rightarrow>
               merge_left a (pc_DeleteSpan b (pc_update a
                 (\<lambda>s. s\<lparr>start_page_idx := start_page_idx nb, page_num := (page_num s + page_num nb) mod 2 ^ 32\<rparr>)
                 (list_erase (page_num nb) b st)))))"

partial_function (option) merge_right :: "addr \<Rightarrow> 'k pc \<Rightarrow> (pc_error + 'k pc) option" where
  "merge_right a st =
     (case spans st a of
        None \<Rightarrow> Some (Inl Dangling)
      | Some sp \<Rightarrow>
          (case merge_candidate (start_page_idx sp + page_num sp) sp st of
             Inl e \<Rightarrow> Some (Inl e)
           | Inr None \<Rightarrow> Some (Inr st)
           | Inr (Some (b, nb)) \<Rightarrow>
               merge_right a (pc_DeleteSpan b (pc_update a
                 (\<lambda>s. s\<lparr>page_num := (page_num s + page_num nb) mod 2 ^ 32\<rparr>)
                 (list_erase (page_num nb) b st)))))"

definition release_finish :: "'k os \<Rightarrow> addr \<Rightarrow> 'k pc \<Rightarrow> pc_error + 'k pc" where
  "release_finish os a st =
     (let (now, st1) = GetCurrentTimeMs os st;
          st2 = pc_update a (\<lambda>sp. (SetCommitted True (SetUsed False sp))
            \<lparr>aligned_obj_size := 0, use_count := 0, obj_offset := 0, capacity := 0, last_used_time_ms := now\<rparr>) st1
      in case spans st2 a of
           None \<Rightarrow> Inl Dangling
         | Some sp \<Rightarrow> pc_SetSpan os a (list_push_front (page_num sp) a st2))"

definition ReleaseSpanLocked :: "'k os \<Rightarrow> addr \<Rightarrow> 'k pc \<Rightarrow> (pc_error + 'k pc) option" where
  "ReleaseSpanLocked os a st =
     (case spans st a of
        None \<Rightarrow> Some (Inl Dangling)
      | Some sp \<Rightarrow>
          if page_num sp > MAX_PAGE_NUM then
            (case ClearRange (start_page_idx sp) (page_num sp) (pmap st) of
               Inl e \<Rightarrow> Some (Inl (Exn e))
             | Inr m \<Rightarrow> Some (Inr (pc_DeleteSpan a
                 (pc_SystemFree os (GetPageBaseAddr sp) (page_num sp) (st\<lparr>pmap := m\<rparr>)))))
          else
            (case merge_left a st of
               None \<Rightarrow> None
             | Some (Inl e) \<Rightarrow> Some (Inl e)
             | Some (Inr st1) \<Rightarrow>
                 (case merge_right a st1 of
                    None \<Rightarrow> None
                  | Some (Inl e) \<Rightarrow> Some (Inl e)
                  | Some (Inr st2) \<Rightarrow> Some (release_finish os a st2))))"

definition ReleaseSpan :: "'k os \<Rightarrow> addr \<Rightarrow> 'k pc \<Rightarrow> (pc_error + 'k pc) option" where
  "ReleaseSpan os a st = ReleaseSpanLocked os a st"

section \<open>Reset\<close>

text \<open>One free list: pop every span, return its pages and its metadata.\<close>

primrec reset_list :: "'k os \<Rightarrow> addr list \<Rightarrow> 'k pc \<Rightarrow> pc_error + 'k pc" where
  "reset_list os [] st = Inr st"
| "reset_list os (a # as) st =
     (case spans st a of
        None \<Rightarrow> Inl Dangling
      | Some sp \<Rightarrow> reset_list os as (pc_DeleteSpan a (pc_SystemFree os (GetPageBaseAddr sp) (page_num sp) st)))"

definition PageMap_Reset :: "'k os \<Rightarrow> 'k pc \<Rightarrow> 'k pc" where
  "PageMap_Reset os st =
     (case ReleaseMemory os (node_pool st) (sys st) of
        (np, s) \<Rightarrow> st\<lparr>pmap := Reset (pmap st), node_pool := np, sys := s\<rparr>)"

definition ResetLocked :: "'k os \<Rightarrow> 'k pc \<Rightarrow> pc_error + 'k pc" where
  "ResetLocked os st =
     (case reset_list os (concat (span_lists st)) st of
        Inl e \<Rightarrow> Inl e
      | Inr st1 \<Rightarrow>
          (case ReleaseMemory os (span_pool st1) (sys st1) of
             (pool, s) \<Rightarrow> Inr (PageMap_Reset os
               (st1\<lparr>span_lists := map (\<lambda>_. []) (span_lists st), spans := Map.empty, span_pool := pool, sys := s\<rparr>))))"

text \<open>\<open>PageCache::Reset\<close>, with the one shard.\<close>

definition PageCache_Reset :: "'k os \<Rightarrow> 'k pc \<Rightarrow> pc_error + 'k pc" where
  "PageCache_Reset os st = map_sum id (PageMap_Reset os) (ResetLocked os st)"

end
