(* ===== verification/Page_Cache_Alloc.thy ===== *)
theory Page_Cache_Alloc
  imports Page_Cache
begin

text \<open>
  The invariant of the page cache and what \<open>AllocSpan\<close> does under it: the memory of the live
  spans and of the metadata pools is disjoint and in use, the page ranges of the spans are
  disjoint, each free list holds exactly the free spans of its size, and the page map names
  exactly the pages of the live spans.
\<close>

lemma wrap_sub: "m mod w = n \<Longrightarrow> n \<le> x \<Longrightarrow> x < w \<Longrightarrow> (x + w - m mod w) mod w = x - n" for x :: nat
proof -
  assume "m mod w = n" "n \<le> x" "x < w"
  then have "x + w - m mod w = (x - n) + w" by linarith
  with \<open>x < w\<close> show ?thesis by simp
qed

section \<open>Memory ownership\<close>

text \<open>
  \<open>S\<close> is the memory of the spans.  The memory of the spans and of the two pools is in use and
  mutually disjoint.
\<close>

definition mem_inv :: "('k \<Rightarrow> addr set) \<Rightarrow> addr set \<Rightarrow> 'k pa \<Rightarrow> obj_pool \<Rightarrow> obj_pool \<Rightarrow> bool" where
  "mem_inv mapped S s sp np \<longleftrightarrow>
     pa_inv mapped s \<and> S \<union> pool_mem sp \<union> pool_mem np \<subseteq> in_use mapped s \<and>
     S \<inter> pool_mem sp = {} \<and> S \<inter> pool_mem np = {} \<and> pool_mem sp \<inter> pool_mem np = {} \<and>
     (\<exists>L. pool_wf radix_pool_type L np)"

lemma radix_pool_type_ok: "pool_type_ok radix_pool_type"
  by (simp add: pool_type_ok_def radix_pool_type_def)

lemma span_pool_type_ok: "pool_type_ok span_pool_type"
  by (simp add: pool_type_ok_def span_pool_type_def)

lemma mem_New_span:
  assumes os: "kernel_ok os mapped" and mem: "mem_inv mapped S s sp np" and wf: "pool_wf span_pool_type live sp"
    and new: "New os span_pool_type sp s = (r, sp', s')"
  shows "mem_inv mapped S s' sp' np \<and>
    (case r of None \<Rightarrow> sp' = sp | Some a \<Rightarrow> a \<notin> live \<and> pool_wf span_pool_type (insert a live) sp')"
proof -
  have "pool_mem sp \<subseteq> in_use mapped s" "pa_inv mapped s" using mem by (auto simp: mem_inv_def)
  from New_spec [OF os this(2) span_pool_type_ok wf this(1) new] mem show ?thesis
    unfolding mem_inv_def by (auto split: option.splits)
qed

lemma mem_new_node:
  assumes os: "kernel_ok os mapped" and mem: "mem_inv mapped S s sp np" and new: "new_node os (np, s) = Some (np', s')"
  shows "mem_inv mapped S s' sp np'"
proof -
  from new obtain a where n: "New os radix_pool_type np s = (Some a, np', s')"
    by (auto simp: new_node_def split: prod.splits option.splits)
  obtain L where wf: "pool_wf radix_pool_type L np" and own: "pool_mem np \<subseteq> in_use mapped s" "pa_inv mapped s"
    using mem by (auto simp: mem_inv_def)
  from New_spec [OF os own(2) radix_pool_type_ok wf own(1) n] mem show ?thesis
    unfolding mem_inv_def by auto
qed

lemma mem_SetSpan:
  assumes os: "kernel_ok os mapped" and mem: "mem_inv mapped S s sp np"
    and set: "SetSpan (new_node os) a start n pm (np, s) = Inr (pm', np', s')"
  shows "mem_inv mapped S s' sp np'"
  using SetSpan_inv [OF set, where P = "\<lambda>(np, s). mem_inv mapped S s sp np"] mem mem_new_node [OF os] by auto

lemma mem_SystemAlloc:
  assumes os: "kernel_ok os mapped" and mem: "mem_inv mapped S s sp np" and a: "SystemAlloc os n s = (r, s')"
  shows "mem_inv mapped (S \<union> granted (n * PAGE_SIZE) r) s' sp np \<and> S \<inter> granted (n * PAGE_SIZE) r = {} \<and>
    (\<forall>p. r = Some p \<longrightarrow> p \<noteq> 0 \<and> p mod PAGE_SIZE = 0 \<and> p + n * PAGE_SIZE \<le> 2 ^ 47)"
proof -
  have "pa_inv mapped s" using mem by (auto simp: mem_inv_def)
  from SystemAlloc_spec [OF os this, of n, unfolded a pa_spec_def] mem show ?thesis
    unfolding mem_inv_def by auto
qed

lemma mem_SystemFree:
  assumes os: "kernel_ok os mapped" and mem: "mem_inv mapped (S \<union> R) s sp np" and R: "R = bytes p (n * PAGE_SIZE)" "S \<inter> R = {}"
    and p: "p mod PAGE_SIZE = 0" "p + n * PAGE_SIZE \<le> 2 ^ 47" "p \<noteq> 0"
  shows "mem_inv mapped S (SystemFree os p n s) sp np"
proof -
  have "pa_inv mapped s" "bytes p (n * PAGE_SIZE) \<subseteq> in_use mapped s" using mem R by (auto simp: mem_inv_def)
  from SystemFree_spec [OF os this(1) p this(2), unfolded free_spec_def] mem R show ?thesis
    unfolding mem_inv_def by blast
qed

lemma mem_clock:
  assumes os: "kernel_ok os mapped" and mem: "mem_inv mapped S s sp np" and c: "steady_clock_ms os (kernel s) = (t, k)"
  shows "mem_inv mapped S (s\<lparr>kernel := k\<rparr>) sp np"
  using kernel_clock [OF os c] mem by (simp add: mem_inv_def pa_inv_def in_use_def)

section \<open>Invariant\<close>

definition pages_of :: "span \<Rightarrow> nat set" where
  "pages_of sp = {start_page_idx sp..<start_page_idx sp + page_num sp}"

definition span_bytes :: "span \<Rightarrow> addr set" where
  "span_bytes sp = bytes (start_page_idx sp * PAGE_SIZE) (page_num sp * PAGE_SIZE)"

definition span_mem :: "(addr \<Rightarrow> span option) \<Rightarrow> addr set" where
  "span_mem f = (\<Union>sp \<in> ran f. span_bytes sp)"

definition span_ok :: "span \<Rightarrow> bool" where
  "span_ok sp \<longleftrightarrow> 0 < page_num sp \<and> 0 < start_page_idx sp \<and> start_page_idx sp + page_num sp \<le> 2 ^ 35 \<and>
     page_num sp < 2 ^ 32 \<and>
     (\<not> IsUsed sp \<longrightarrow> page_num sp \<le> MAX_PAGE_NUM \<and> aligned_obj_size sp = 0)"

text \<open>Spans are well-formed and their page ranges are disjoint.\<close>

definition spans_ok :: "(addr \<Rightarrow> span option) \<Rightarrow> bool" where
  "spans_ok f \<longleftrightarrow>
     (\<forall>a sp. f a = Some sp \<longrightarrow> span_ok sp) \<and>
     (\<forall>a b sa sb. f a = Some sa \<longrightarrow> f b = Some sb \<longrightarrow> a \<noteq> b \<longrightarrow> pages_of sa \<inter> pages_of sb = {})"

text \<open>Free list \<open>i\<close> holds exactly the free spans of \<open>i\<close> pages, each once.\<close>

definition lists_ok :: "(addr \<Rightarrow> span option) \<Rightarrow> addr list list \<Rightarrow> bool" where
  "lists_ok f ls \<longleftrightarrow> length ls = MAX_PAGE_NUM + 1 \<and>
     (\<forall>i \<le> MAX_PAGE_NUM. distinct (ls ! i) \<and>
        (\<forall>a. a \<in> set (ls ! i) \<longleftrightarrow> (\<exists>sp. f a = Some sp \<and> \<not> IsUsed sp \<and> page_num sp = i)))"

text \<open>The page map knows exactly the pages of the live spans.\<close>

definition map_ok :: "(addr \<Rightarrow> span option) \<Rightarrow> addr page_map \<Rightarrow> bool" where
  "map_ok f m \<longleftrightarrow> (\<forall>q a. GetSpan m q = Some a \<longleftrightarrow> (\<exists>sp. f a = Some sp \<and> q \<in> pages_of sp))"

definition pc_inv :: "('k \<Rightarrow> addr set) \<Rightarrow> 'k pc \<Rightarrow> bool" where
  "pc_inv mapped st \<longleftrightarrow>
     mem_inv mapped (span_mem (spans st)) (sys st) (span_pool st) (node_pool st) \<and>
     pool_wf span_pool_type (dom (spans st)) (span_pool st) \<and>
     spans_ok (spans st) \<and> lists_ok (spans st) (span_lists st) \<and> map_ok (spans st) (pmap st)"

lemma used_mask_bits:
  "(w AND NOT kUsedMask OR (if b then kUsedMask else 0)) AND kUsedMask = (if b then kUsedMask else 0)"
  "(w AND NOT kCommittedMask OR (if b then kCommittedMask else 0)) AND kUsedMask = w AND kUsedMask"
  by (auto intro!: bit_word_eqI simp: bit_simps kUsedMask_def kCommittedMask_def)

lemma kUsedMask_ne: "kUsedMask \<noteq> 0"
  by (simp add: kUsedMask_def)

lemma set_flags [simp]:
  "IsUsed (SetUsed b sp) = b" "IsUsed (SetCommitted b sp) = IsUsed sp"
  "page_num (SetUsed b sp) = page_num sp" "page_num (SetCommitted b sp) = page_num sp"
  "start_page_idx (SetUsed b sp) = start_page_idx sp" "start_page_idx (SetCommitted b sp) = start_page_idx sp"
  "owner_shard_id (SetUsed b sp) = owner_shard_id sp" "owner_shard_id (SetCommitted b sp) = owner_shard_id sp"
  "aligned_obj_size (SetUsed b sp) = aligned_obj_size sp" "aligned_obj_size (SetCommitted b sp) = aligned_obj_size sp"
  unfolding IsUsed_def SetUsed_def SetCommitted_def by (simp_all add: used_mask_bits kUsedMask_ne)

lemma IsUsed_update [simp]:
  "IsUsed (sp\<lparr>owner_shard_id := x\<rparr>) = IsUsed sp" "IsUsed (sp\<lparr>last_used_time_ms := y\<rparr>) = IsUsed sp"
  "IsUsed (sp\<lparr>start_page_idx := x\<rparr>) = IsUsed sp" "IsUsed (sp\<lparr>page_num := y\<rparr>) = IsUsed sp"
  "IsUsed (sp\<lparr>aligned_obj_size := x\<rparr>) = IsUsed sp" "IsUsed (sp\<lparr>use_count := y\<rparr>) = IsUsed sp"
  "IsUsed (sp\<lparr>obj_offset := x\<rparr>) = IsUsed sp" "IsUsed (sp\<lparr>capacity := y\<rparr>) = IsUsed sp"
  by (simp_all add: IsUsed_def)

lemma new_span_simps [simp]:
  "page_num (new_span s n) = n" "start_page_idx (new_span s n) = s" "\<not> IsUsed (new_span s n)"
  "aligned_obj_size (new_span s n) = 0"
  by (simp_all add: new_span_def IsUsed_def)

section \<open>Geometry\<close>

lemma PAGE_SIZE_pos [simp]: "0 < PAGE_SIZE"
  by (simp add: PAGE_SIZE_def)

lemma page_range_iff: "x \<in> bytes (p * PAGE_SIZE) (n * PAGE_SIZE) \<longleftrightarrow> p \<le> x div PAGE_SIZE \<and> x div PAGE_SIZE < p + n"
proof -
  have "p * PAGE_SIZE + n * PAGE_SIZE = (p + n) * PAGE_SIZE" by (simp add: add_mult_distrib)
  then show ?thesis
    by (simp add: bytes_def less_eq_div_iff_mult_less_eq div_less_iff_less_mult mult.commute)
qed

lemma span_bytes_iff: "x \<in> span_bytes sp \<longleftrightarrow> x div PAGE_SIZE \<in> pages_of sp"
  by (simp add: span_bytes_def pages_of_def page_range_iff)

lemma span_mem_iff: "x \<in> span_mem f \<longleftrightarrow> (\<exists>a sp. f a = Some sp \<and> x div PAGE_SIZE \<in> pages_of sp)"
  by (auto simp: span_mem_def ran_def span_bytes_iff)

lemma aligned_bytes:
  "p mod PAGE_SIZE = 0 \<Longrightarrow> span_bytes (new_span (p div PAGE_SIZE) n) = bytes p (n * PAGE_SIZE)"
  by (auto simp: span_bytes_def mod_0_imp_dvd)

lemma disjoint_bytes_pages:
  assumes "S \<inter> span_bytes sp = {}" and "f b = Some sb" and "span_mem f \<subseteq> S"
  shows "pages_of sb \<inter> pages_of sp = {}"
proof (rule ccontr)
  assume "pages_of sb \<inter> pages_of sp \<noteq> {}"
  then obtain q where q: "q \<in> pages_of sb" "q \<in> pages_of sp" by blast
  then have "q * PAGE_SIZE \<in> span_mem f" "q * PAGE_SIZE \<in> span_bytes sp"
    using assms(2) by (auto simp: span_mem_iff span_bytes_iff)
  with assms show False by blast
qed

definition same_pages :: "span \<Rightarrow> span \<Rightarrow> bool" where
  "same_pages sp sp' \<longleftrightarrow> start_page_idx sp' = start_page_idx sp \<and> page_num sp' = page_num sp"

lemma same_pages_of: "same_pages sp sp' \<Longrightarrow> pages_of sp' = pages_of sp"
  by (simp add: same_pages_def pages_of_def)

lemma update_same:
  assumes "f a = Some sp" and "same_pages sp sp'"
  shows "span_mem (f(a \<mapsto> sp')) = span_mem f" and "dom (f(a \<mapsto> sp')) = dom f"
    and "spans_ok f \<Longrightarrow> span_ok sp' \<Longrightarrow> spans_ok (f(a \<mapsto> sp'))"
    and "map_ok f m \<Longrightarrow> map_ok (f(a \<mapsto> sp')) m"
proof -
  note e = same_pages_of [OF assms(2)]
  show "span_mem (f(a \<mapsto> sp')) = span_mem f"
  proof (rule set_eqI)
    show "x \<in> span_mem (f(a \<mapsto> sp')) \<longleftrightarrow> x \<in> span_mem f" for x
      unfolding span_mem_iff using assms(1) e by (metis fun_upd_apply option.inject)
  qed
  show "dom (f(a \<mapsto> sp')) = dom f" using assms(1) by auto
  show "spans_ok f \<Longrightarrow> span_ok sp' \<Longrightarrow> spans_ok (f(a \<mapsto> sp'))"
    unfolding spans_ok_def using assms(1) e by (auto simp: fun_upd_apply)
  show "map_ok f m \<Longrightarrow> map_ok (f(a \<mapsto> sp')) m"
    unfolding map_ok_def using assms(1) e by (auto simp: fun_upd_apply)
qed

lemma add_span:
  assumes "spans_ok f" and "f a = None" and "span_ok sp" and "span_bytes sp \<inter> span_mem f = {}"
  shows "spans_ok (f(a \<mapsto> sp))" and "span_mem (f(a \<mapsto> sp)) = span_mem f \<union> span_bytes sp"
proof -
  have d: "pages_of sb \<inter> pages_of sp = {}" if "f b = Some sb" for b sb
    using disjoint_bytes_pages [of "span_mem f" sp f b sb] assms(4) that by blast
  then show "spans_ok (f(a \<mapsto> sp))"
    using assms(1,3) unfolding spans_ok_def by (simp add: fun_upd_apply) blast
  show "span_mem (f(a \<mapsto> sp)) = span_mem f \<union> span_bytes sp"
  proof (rule set_eqI)
    show "x \<in> span_mem (f(a \<mapsto> sp)) \<longleftrightarrow> x \<in> span_mem f \<union> span_bytes sp" for x
      unfolding Un_iff span_mem_iff span_bytes_iff using assms(2) by (metis fun_upd_apply option.inject option.distinct(1))
  qed
qed

lemma remove_span:
  assumes "spans_ok f" and "f a = Some sp"
  shows "spans_ok (f(a := None))" and "span_mem f = span_mem (f(a := None)) \<union> span_bytes sp"
    and "span_mem (f(a := None)) \<inter> span_bytes sp = {}"
proof -
  let ?g = "f(a := None)"
  show ok: "spans_ok ?g" using assms(1) unfolding spans_ok_def by (simp add: fun_upd_apply)
  have "x div PAGE_SIZE \<notin> pages_of sp" if "?g b = Some sb" "x div PAGE_SIZE \<in> pages_of sb" for x b sb
  proof -
    from that(1) have "b \<noteq> a" "f b = Some sb" by (auto split: if_splits)
    then have "pages_of sb \<inter> pages_of sp = {}" using assms unfolding spans_ok_def by blast
    with that(2) show ?thesis by blast
  qed
  then show dis: "span_mem ?g \<inter> span_bytes sp = {}"
    unfolding disjoint_iff span_mem_iff span_bytes_iff by blast
  have "f = ?g(a \<mapsto> sp)" using assms(2) by (simp add: fun_upd_idem)
  moreover have "span_ok sp" using assms unfolding spans_ok_def by blast
  ultimately show "span_mem f = span_mem ?g \<union> span_bytes sp"
    using add_span(2) [OF ok, of a sp] dis by (simp add: Int_commute)
qed

section \<open>Free lists\<close>

definition is_free :: "(addr \<Rightarrow> span option) \<Rightarrow> addr \<Rightarrow> bool" where
  "is_free f a \<longleftrightarrow> (\<exists>sp. f a = Some sp \<and> \<not> IsUsed sp)"

lemma lists_same:
  assumes "lists_ok f ls" and "\<not> is_free f a" and "\<not> is_free f' a" and "\<And>b. b \<noteq> a \<Longrightarrow> f' b = f b"
  shows "lists_ok f' ls"
  using assms unfolding lists_ok_def is_free_def by metis

lemma lists_remove:
  assumes "lists_ok f ls" and "f a = Some sp" and "\<not> IsUsed sp" and "page_num sp \<le> MAX_PAGE_NUM"
    and "\<not> is_free f' a" and "\<And>b. b \<noteq> a \<Longrightarrow> f' b = f b"
  shows "lists_ok f' (ls[page_num sp := remove1 a (ls ! page_num sp)])"
  unfolding lists_ok_def
proof (intro conjI allI impI)
  show "length (ls[page_num sp := remove1 a (ls ! page_num sp)]) = MAX_PAGE_NUM + 1"
    using assms(1) by (simp add: lists_ok_def)
  fix i assume i: "i \<le> MAX_PAGE_NUM"
  let ?ls = "ls[page_num sp := remove1 a (ls ! page_num sp)]"
  have old: "distinct (ls ! i)" "b \<in> set (ls ! i) \<longleftrightarrow> (\<exists>s. f b = Some s \<and> \<not> IsUsed s \<and> page_num s = i)" for b
    using assms(1) i by (auto simp: lists_ok_def)
  have new: "?ls ! i = (if i = page_num sp then remove1 a (ls ! i) else ls ! i)"
    using assms(1,4) by (simp add: lists_ok_def nth_list_update)
  show "distinct (?ls ! i)" unfolding new using old(1) by auto
  fix b
  have "b \<in> set (?ls ! i) \<longleftrightarrow> b \<noteq> a \<and> b \<in> set (ls ! i)"
    unfolding new using old assms(2) by auto
  also have "\<dots> \<longleftrightarrow> (\<exists>s. f' b = Some s \<and> \<not> IsUsed s \<and> page_num s = i)"
    using old(2) assms(5,6) unfolding is_free_def by metis
  finally show "b \<in> set (?ls ! i) \<longleftrightarrow> (\<exists>s. f' b = Some s \<and> \<not> IsUsed s \<and> page_num s = i)" .
qed

lemma lists_add:
  assumes "lists_ok f ls" and "\<not> is_free f a" and "f' a = Some sp" and "\<not> IsUsed sp" and "page_num sp \<le> MAX_PAGE_NUM"
    and "\<And>b. b \<noteq> a \<Longrightarrow> f' b = f b"
  shows "lists_ok f' (ls[page_num sp := a # ls ! page_num sp])"
  unfolding lists_ok_def
proof (intro conjI allI impI)
  show "length (ls[page_num sp := a # ls ! page_num sp]) = MAX_PAGE_NUM + 1"
    using assms(1) by (simp add: lists_ok_def)
  fix i assume i: "i \<le> MAX_PAGE_NUM"
  let ?ls = "ls[page_num sp := a # ls ! page_num sp]"
  have old: "distinct (ls ! i)" "b \<in> set (ls ! i) \<longleftrightarrow> (\<exists>s. f b = Some s \<and> \<not> IsUsed s \<and> page_num s = i)" for b
    using assms(1) i by (auto simp: lists_ok_def)
  have new: "?ls ! i = (if i = page_num sp then a # ls ! i else ls ! i)"
    using assms(1,5) by (simp add: lists_ok_def nth_list_update)
  have na: "a \<notin> set (ls ! i)" using old(2) assms(2) by (auto simp: is_free_def)
  show "distinct (?ls ! i)" unfolding new using old(1) na by auto
  fix b
  show "b \<in> set (?ls ! i) \<longleftrightarrow> (\<exists>s. f' b = Some s \<and> \<not> IsUsed s \<and> page_num s = i)"
    unfolding new using old(2) [of b] na assms(3,4,6) by (cases "b = a") auto
qed

lemma tl_remove1: "xs \<noteq> [] \<Longrightarrow> tl xs = remove1 (hd xs) xs"
  by (cases xs) auto

lemma lists_hd:
  assumes "lists_ok f ls" and "i \<le> MAX_PAGE_NUM" and "ls ! i \<noteq> []"
  obtains sp where "f (hd (ls ! i)) = Some sp" and "\<not> IsUsed sp" and "page_num sp = i"
  using assms hd_in_set unfolding lists_ok_def by blast

section \<open>AllocSpanLocked\<close>

text \<open>Spans in use are left alone.\<close>

definition keeps_used :: "'k pc \<Rightarrow> 'k pc \<Rightarrow> bool" where
  "keeps_used st st' \<longleftrightarrow> (\<forall>b sb. spans st b = Some sb \<longrightarrow> IsUsed sb \<longrightarrow> spans st' b = Some sb)"

definition alloc_post :: "('k \<Rightarrow> addr set) \<Rightarrow> nat \<Rightarrow> 'k pc \<Rightarrow> 'k alloc_result \<Rightarrow> bool" where
  "alloc_post mapped n st res \<longleftrightarrow>
     (case res of
        Inl e \<Rightarrow> e = Exn BadAlloc
      | Inr (r, st') \<Rightarrow> pc_inv mapped st' \<and> keeps_used st st' \<and>
          (\<forall>a. r = Some a \<longrightarrow>
             (\<exists>sp. spans st' a = Some sp \<and> IsUsed sp \<and> page_num sp = n \<and> aligned_obj_size sp = 0) \<and>
             (\<forall>sb. spans st a = Some sb \<longrightarrow> \<not> IsUsed sb)))"

lemma pc_inv_span_ok: "pc_inv mapped st \<Longrightarrow> spans st a = Some sp \<Longrightarrow> span_ok sp"
  unfolding pc_inv_def spans_ok_def by blast

lemma alloc_exact_ok:
  assumes inv: "pc_inv mapped st" and n: "n \<le> MAX_PAGE_NUM" and ne: "span_lists st ! n \<noteq> []"
  shows "alloc_post mapped n st (alloc_exact n st)"
proof -
  let ?a = "hd (span_lists st ! n)"
  have i: "lists_ok (spans st) (span_lists st)" using inv by (simp add: pc_inv_def)
  obtain sp where sp: "spans st ?a = Some sp" "\<not> IsUsed sp" "page_num sp = n" by (rule lists_hd [OF i n ne])
  let ?sp = "SetCommitted True (SetUsed True sp)"
  let ?st = "pc_update ?a (SetCommitted True \<circ> SetUsed True) (list_pop_front n st)"
  have same: "same_pages sp ?sp" by (simp add: same_pages_def)
  have ok: "span_ok ?sp" using pc_inv_span_ok [OF inv sp(1)] by (simp add: span_ok_def)
  have f: "spans ?st = (spans st)(?a \<mapsto> ?sp)" using sp(1) by (simp add: pc_update_def list_pop_front_def)
  have ls: "span_lists ?st = (span_lists st)[n := remove1 ?a (span_lists st ! n)]"
    using ne by (simp add: pc_update_def list_pop_front_def tl_remove1)
  have rest: "sys ?st = sys st" "span_pool ?st = span_pool st" "node_pool ?st = node_pool st" "pmap ?st = pmap st"
    by (simp_all add: pc_update_def list_pop_front_def)
  have "lists_ok (spans ?st) (span_lists ?st)"
    unfolding ls f using lists_remove [OF i sp(1,2), of "(spans st)(?a \<mapsto> ?sp)"] n sp(3) by (simp add: is_free_def)
  then have "pc_inv mapped ?st"
    using inv update_same [of "spans st", OF sp(1) same] ok unfolding pc_inv_def f rest by simp
  moreover have "keeps_used st ?st" unfolding keeps_used_def f using sp by auto
  moreover have "aligned_obj_size sp = 0" using pc_inv_span_ok [OF inv sp(1)] sp(2) by (simp add: span_ok_def)
  ultimately show ?thesis
    using sp f by (simp add: alloc_post_def alloc_exact_def Let_def)
qed

lemma clock_pc:
  assumes os: "kernel_ok os mapped" and c: "GetCurrentTimeMs os st = (t, st')"
    and mem: "mem_inv mapped S (sys st) (span_pool st) (node_pool st)"
  shows "mem_inv mapped S (sys st') (span_pool st') (node_pool st')" and "spans st' = spans st"
    and "span_lists st' = span_lists st" and "pmap st' = pmap st" and "span_pool st' = span_pool st"
    and "node_pool st' = node_pool st"
  using c mem_clock [OF os mem] by (auto simp: GetCurrentTimeMs_def split: prod.splits)

lemma NewSpan_pc:
  assumes os: "kernel_ok os mapped" and mem: "mem_inv mapped S (sys st) (span_pool st) (node_pool st)"
    and wf: "pool_wf span_pool_type (dom (spans st)) (span_pool st)" and new: "pc_NewSpan os start n st = (r, st')"
  shows "mem_inv mapped S (sys st') (span_pool st') (node_pool st')"
    and "span_lists st' = span_lists st" and "pmap st' = pmap st" and "node_pool st' = node_pool st"
    and "pool_wf span_pool_type (dom (spans st')) (span_pool st')"
    and "r = None \<Longrightarrow> spans st' = spans st"
    and "r = Some a \<Longrightarrow> spans st a = None \<and> spans st' = (spans st)(a \<mapsto> new_span start n)"
proof -
  obtain x pool s where n: "New os span_pool_type (span_pool st) (sys st) = (x, pool, s)" by (metis prod.collapse)
  note m = mem_New_span [OF os mem wf n]
  show "mem_inv mapped S (sys st') (span_pool st') (node_pool st')" "span_lists st' = span_lists st"
    "pmap st' = pmap st" "node_pool st' = node_pool st" "pool_wf span_pool_type (dom (spans st')) (span_pool st')"
    "r = None \<Longrightarrow> spans st' = spans st"
    "r = Some a \<Longrightarrow> spans st a = None \<and> spans st' = (spans st)(a \<mapsto> new_span start n)"
    using new n m wf by (auto simp: pc_NewSpan_def split: option.splits)
qed

text \<open>Publishing a span whose pages are all mapped changes nothing but the page map.\<close>

lemma SetSpan_pc_mapped:
  assumes "spans st a = Some sp" and "span_ok sp" and "\<And>q. q \<in> pages_of sp \<Longrightarrow> GetSpan (pmap st) q \<noteq> None"
  obtains m where "pc_SetSpan os a st = Inr (st\<lparr>pmap := m\<rparr>)"
    and "\<And>q. GetSpan m q = (if q \<in> pages_of sp then Some a else GetSpan (pmap st) q)"
proof -
  have le: "start_page_idx sp + page_num sp \<le> 2 ^ 36" using assms(2) by (simp add: span_ok_def)
  obtain m where m: "SetSpan (new_node os) a (start_page_idx sp) (page_num sp) (pmap st) (node_pool st, sys st) =
      Inr (m, node_pool st, sys st)"
    using SetSpan_mapped [OF le, of "pmap st" "new_node os" a "(node_pool st, sys st)"] assms(3)
    by (auto simp: pages_of_def)
  have "pc_SetSpan os a st = Inr (st\<lparr>pmap := m\<rparr>)" using assms(1) m by (simp add: pc_SetSpan_def)
  moreover have "GetSpan m q = (if q \<in> pages_of sp then Some a else GetSpan (pmap st) q)" for q
    using pm.lookup_publish [OF le m, of q] by (simp add: pages_of_def)
  ultimately show ?thesis using that by blast
qed

text \<open>Publishing a fresh span may fail for lack of memory only.\<close>

lemma SetSpan_pc_fresh:
  assumes os: "kernel_ok os mapped" and mem: "mem_inv mapped S (sys st) (span_pool st) (node_pool st)"
    and sp: "spans st a = Some sp" "span_ok sp"
  shows "case pc_SetSpan os a st of
      Inl e \<Rightarrow> e = Exn BadAlloc
    | Inr st' \<Rightarrow> mem_inv mapped S (sys st') (span_pool st') (node_pool st') \<and>
        spans st' = spans st \<and> span_lists st' = span_lists st \<and> span_pool st' = span_pool st \<and>
        (\<forall>q. GetSpan (pmap st') q = (if q \<in> pages_of sp then Some a else GetSpan (pmap st) q))"
proof -
  have le: "start_page_idx sp + page_num sp \<le> 2 ^ 36" using sp(2) by (simp add: span_ok_def)
  show ?thesis
  proof (cases "SetSpan (new_node os) a (start_page_idx sp) (page_num sp) (pmap st) (node_pool st, sys st)")
    case (Inl e)
    then show ?thesis using sp(1) SetSpan_error [OF le Inl] by (simp add: pc_SetSpan_def)
  next
    case (Inr x)
    obtain m np s where x: "x = (m, np, s)" by (metis prod.collapse)
    have "GetSpan m q = (if q \<in> pages_of sp then Some a else GetSpan (pmap st) q)" for q
      using pm.lookup_publish [OF le Inr [unfolded x], of q] by (simp add: pages_of_def)
    then show ?thesis
      using sp(1) Inr x mem_SetSpan [OF os mem Inr [unfolded x]] by (simp add: pc_SetSpan_def)
  qed
qed

text \<open>Splitting a span in two at page \<open>n\<close>.\<close>

lemma split_geometry:
  assumes ok: "spans_ok f" and big: "f big = Some bsp" and small: "f small = None"
    and pg: "start_page_idx ssp = start_page_idx bsp" "page_num ssp = n" "0 < n" "n < page_num bsp" "IsUsed ssp"
      "start_page_idx bsp' = start_page_idx bsp + n" "page_num bsp' = page_num bsp - n" "page_num bsp \<le> MAX_PAGE_NUM"
      "aligned_obj_size bsp' = 0"
  defines "g \<equiv> f(small \<mapsto> ssp, big \<mapsto> bsp')"
  shows "pages_of bsp = pages_of ssp \<union> pages_of bsp'" and "pages_of ssp \<inter> pages_of bsp' = {}"
    and "span_ok ssp" and "span_ok bsp'" and "spans_ok g" and "span_mem g = span_mem f"
    and "dom g = insert small (dom f)" and "small \<noteq> big"
proof -
  have b: "span_ok bsp" using ok big unfolding spans_ok_def by blast
  show ne: "small \<noteq> big" using big small by auto
  show un: "pages_of bsp = pages_of ssp \<union> pages_of bsp'" and dis: "pages_of ssp \<inter> pages_of bsp' = {}"
    using pg by (auto simp: pages_of_def)
  show so: "span_ok ssp" and bo: "span_ok bsp'" using b pg by (auto simp: span_ok_def)
  let ?f0 = "f(big := None)"
  note r = remove_span [OF ok big]
  have bytes: "span_bytes bsp = span_bytes ssp \<union> span_bytes bsp'" "span_bytes ssp \<inter> span_bytes bsp' = {}"
    using un dis by (auto simp: span_bytes_iff)
  have "?f0 small = None" "span_bytes ssp \<inter> span_mem ?f0 = {}" using small r(3) bytes(1) by auto
  note a1 = add_span [OF r(1) this(1) so this(2)]
  have "(?f0(small \<mapsto> ssp)) big = None" "span_bytes bsp' \<inter> span_mem (?f0(small \<mapsto> ssp)) = {}"
    using ne r(3) bytes a1(2) by auto
  note a2 = add_span [OF a1(1) this(1) bo this(2)]
  have g: "g = ?f0(small \<mapsto> ssp, big \<mapsto> bsp')" using ne by (auto simp: g_def)
  show "spans_ok g" unfolding g by (rule a2)
  show "span_mem g = span_mem f" unfolding g a2(2) a1(2) r(2) bytes(1) by auto
  show "dom g = insert small (dom f)" using big by (auto simp: g_def)
qed

lemma split_lists:
  assumes ls: "lists_ok f ls" and big: "f big = Some bsp" "\<not> IsUsed bsp" "page_num bsp \<le> MAX_PAGE_NUM"
    and small: "f small = None" "IsUsed ssp" and b': "\<not> IsUsed bsp'" "page_num bsp' \<le> MAX_PAGE_NUM"
  defines "ls1 \<equiv> ls[page_num bsp := remove1 big (ls ! page_num bsp)]"
  shows "lists_ok (f(small \<mapsto> ssp, big \<mapsto> bsp')) (ls1[page_num bsp' := big # ls1 ! page_num bsp'])"
proof -
  have ne: "small \<noteq> big" using big small by auto
  have "lists_ok (f(big := None)) ls1"
    unfolding ls1_def by (rule lists_remove [OF ls big]) (simp_all add: is_free_def)
  then have "lists_ok (f(big := None, small \<mapsto> ssp)) ls1"
    by (rule lists_same [where a = small]) (use small ne in \<open>auto simp: is_free_def\<close>)
  then show ?thesis
    by (rule lists_add [where a = big]) (use b' ne in \<open>auto simp: is_free_def\<close>)
qed

lemma split_maps:
  assumes m: "map_ok f m" and big: "f big = Some bsp" and ne: "small \<noteq> big" and small: "f small = None"
    and un: "pages_of bsp = pages_of ssp \<union> pages_of bsp'" "pages_of ssp \<inter> pages_of bsp' = {}" and ok: "spans_ok f"
    and m2: "\<And>q. GetSpan m2 q = (if q \<in> pages_of bsp' then Some big else if q \<in> pages_of ssp then Some small else GetSpan m q)"
  shows "map_ok (f(small \<mapsto> ssp, big \<mapsto> bsp')) m2"
  unfolding map_ok_def
proof (intro allI)
  fix q b
  have dis: "pages_of sb \<inter> pages_of bsp = {}" if "f b = Some sb" "b \<noteq> big" for sb
    using ok that big unfolding spans_ok_def by blast
  have old: "GetSpan m q = Some b \<longleftrightarrow> (\<exists>sp. f b = Some sp \<and> q \<in> pages_of sp)"
    using m by (simp add: map_ok_def)
  consider "b = big" | "b = small" | "b \<noteq> big" "b \<noteq> small" by blast
  then show "GetSpan m2 q = Some b \<longleftrightarrow> (\<exists>sp. (f(small \<mapsto> ssp, big \<mapsto> bsp')) b = Some sp \<and> q \<in> pages_of sp)"
  proof cases
    case 1
    then show ?thesis unfolding m2 using old big ne un by auto
  next
    case 2
    then show ?thesis unfolding m2 using old small ne un by auto
  next
    case 3
    then show ?thesis unfolding m2 using old dis un by (auto simp: disjoint_iff)
  qed
qed

lemma split_span_ok:
  assumes os: "kernel_ok os mapped" and mem: "mem_inv mapped (span_mem f) (sys st) (span_pool st) (node_pool st)"
    and wf: "pool_wf span_pool_type (insert small (dom f)) (span_pool st)"
    and f: "f small = None" "f big = Some bsp" "spans st = f(small \<mapsto> new_span (start_page_idx bsp) n)"
    and b: "\<not> IsUsed bsp" "page_num bsp \<le> MAX_PAGE_NUM" "0 < n" "n < page_num bsp"
    and ls: "lists_ok f ls" "span_lists st = ls[page_num bsp := remove1 big (ls ! page_num bsp)]"
    and ok: "spans_ok f" "map_ok f (pmap st)"
  shows "\<exists>st' ssp bsp'. split_span os n big bsp small st = Inr (Some small, st') \<and> pc_inv mapped st' \<and>
    spans st' = f(small \<mapsto> ssp, big \<mapsto> bsp') \<and> IsUsed ssp \<and> page_num ssp = n \<and> aligned_obj_size ssp = 0"
proof -
  define ssp where "ssp = (SetCommitted True (SetUsed True (new_span (start_page_idx bsp) n)))
    \<lparr>owner_shard_id := owner_shard_id bsp\<rparr>"
  define st1 where "st1 = pc_update small
    (\<lambda>sp. (SetCommitted True (SetUsed True sp))\<lparr>owner_shard_id := owner_shard_id bsp\<rparr>) st"
  obtain now st2 where c: "GetCurrentTimeMs os st1 = (now, st2)" by (rule prod.exhaust)
  define bsp' where "bsp' = (SetCommitted True (SetUsed False (bsp\<lparr>start_page_idx := start_page_idx bsp + n,
    page_num := (page_num bsp + 2 ^ 32 - n mod 2 ^ 32) mod 2 ^ 32\<rparr>)))\<lparr>last_used_time_ms := now\<rparr>"
  define st3 where "st3 = list_push_front (page_num bsp') big (pc_update big (\<lambda>_. bsp') st2)"
  let ?g = "f(small \<mapsto> ssp, big \<mapsto> bsp')" and ?ls1 = "ls[page_num bsp := remove1 big (ls ! page_num bsp)]"
  have "(page_num bsp + 2 ^ 32 - n mod 2 ^ 32) mod 2 ^ 32 = page_num bsp - n"
    using b by (intro wrap_sub) (simp_all add: MAX_PAGE_NUM_def)
  then have pn: "page_num bsp' = page_num bsp - n" by (simp add: bsp'_def)
  have ss: "start_page_idx ssp = start_page_idx bsp" "page_num ssp = n" "IsUsed ssp" "aligned_obj_size ssp = 0" by (simp_all add: ssp_def)
  have "aligned_obj_size bsp = 0" using ok(1) f(2) b(1) unfolding spans_ok_def span_ok_def by blast
  then have bs: "start_page_idx bsp' = start_page_idx bsp + n" "\<not> IsUsed bsp'" "aligned_obj_size bsp' = 0"
    by (simp_all add: bsp'_def)
  note G = split_geometry [OF ok(1) f(2,1) ss(1,2) b(3,4) ss(3) bs(1) pn b(2) bs(3)]
  have s1: "spans st1 = f(small \<mapsto> ssp)" "sys st1 = sys st" "span_pool st1 = span_pool st" "node_pool st1 = node_pool st"
    "pmap st1 = pmap st" "span_lists st1 = span_lists st"
    using f(3) by (simp_all add: st1_def pc_update_def ssp_def)
  note C = clock_pc [OF os c, of "span_mem f", unfolded s1, OF mem]
  have s3: "spans st3 = ?g" "sys st3 = sys st2" "span_pool st3 = span_pool st" "node_pool st3 = node_pool st"
    "pmap st3 = pmap st" "span_lists st3 = ?ls1[page_num bsp' := big # ?ls1 ! page_num bsp']"
    using C f(2) G(8) ls(2) by (simp_all add: st3_def pc_update_def list_push_front_def)
  have mapped: "GetSpan (pmap st) q \<noteq> None" if "q \<in> pages_of bsp" for q
    using ok(2) f(2) that by (metis map_ok_def option.distinct(1))
  obtain m where m: "pc_SetSpan os small st3 = Inr (st3\<lparr>pmap := m\<rparr>)"
    "\<And>q. GetSpan m q = (if q \<in> pages_of ssp then Some small else GetSpan (pmap st3) q)"
    using SetSpan_pc_mapped [of st3 small ssp os] G(1,3,8) mapped s3 by (auto simp: fun_upd_apply)
  obtain m2 where m2: "pc_SetSpan os big (st3\<lparr>pmap := m\<rparr>) = Inr (st3\<lparr>pmap := m2\<rparr>)"
    "\<And>q. GetSpan m2 q = (if q \<in> pages_of bsp' then Some big else GetSpan m q)"
  proof -
    have 1: "spans (st3\<lparr>pmap := m\<rparr>) big = Some bsp'" using s3 by simp
    have 2: "GetSpan (pmap (st3\<lparr>pmap := m\<rparr>)) q \<noteq> None" if "q \<in> pages_of bsp'" for q
      using that m(2) mapped G(1) s3(5) by simp
    obtain m' where "pc_SetSpan os big (st3\<lparr>pmap := m\<rparr>) = Inr (st3\<lparr>pmap := m, pmap := m'\<rparr>)"
      "\<And>q. GetSpan m' q = (if q \<in> pages_of bsp' then Some big else GetSpan (pmap (st3\<lparr>pmap := m\<rparr>)) q)"
      using SetSpan_pc_mapped [OF 1 G(4) 2, of os] by metis
    then show thesis by (intro that [of m']) simp_all
  qed
  have "map_ok ?g m2"
    using m(2) m2(2) s3(5) by (intro split_maps [OF ok(2) f(2) G(8) f(1) G(1,2) ok(1)]) simp
  moreover have "lists_ok ?g (span_lists st3)"
    unfolding s3 using b bs(2) pn ss(3) f by (intro split_lists [OF ls(1)]) simp_all
  ultimately have "pc_inv mapped (st3\<lparr>pmap := m2\<rparr>)"
    unfolding pc_inv_def using C(1) C(5,6) G(5,6,7) wf s3 by simp
  moreover have "split_span os n big bsp small st = Inr (Some small, st3\<lparr>pmap := m2\<rparr>)"
    unfolding split_span_def Let_def st1_def [symmetric] c prod.case
    unfolding bsp'_def [symmetric] st3_def [symmetric] m(1) sum.case m2(1) by simp
  ultimately show ?thesis using s3(1) ss by auto
qed

lemma alloc_split_ok:
  assumes os: "kernel_ok os mapped" and inv: "pc_inv mapped st" and n: "0 < n" "n < i" "i \<le> MAX_PAGE_NUM"
    and ne: "span_lists st ! i \<noteq> []"
  shows "alloc_post mapped n st (alloc_split os n i st)"
proof -
  let ?big = "hd (span_lists st ! i)"
  note iv = inv [unfolded pc_inv_def]
  have n32: "n mod 2 ^ 32 = n" using n by (simp add: MAX_PAGE_NUM_def)
  obtain bsp where b: "spans st ?big = Some bsp" "\<not> IsUsed bsp" "page_num bsp = i"
    using lists_hd [OF _ n(3) ne] iv by blast
  have len: "i < length (span_lists st)" using iv n(3) by (simp add: lists_ok_def)
  let ?st0 = "list_pop_front i st"
  have s0: "spans ?st0 = spans st" "sys ?st0 = sys st" "span_pool ?st0 = span_pool st" "node_pool ?st0 = node_pool st"
    "pmap ?st0 = pmap st" "span_lists ?st0 = (span_lists st)[i := remove1 ?big (span_lists st ! i)]"
    using ne by (simp_all add: list_pop_front_def tl_remove1)
  obtain r st1 where new: "pc_NewSpan os (start_page_idx bsp) n ?st0 = (r, st1)" by (rule prod.exhaust)
  have m0: "mem_inv mapped (span_mem (spans st)) (sys ?st0) (span_pool ?st0) (node_pool ?st0)"
    "pool_wf span_pool_type (dom (spans ?st0)) (span_pool ?st0)" using iv by (simp_all add: s0)
  note N = NewSpan_pc [OF os m0 new]
  show ?thesis
  proof (cases r)
    case None
    let ?st' = "list_push_front i ?big st1"
    have ls: "span_lists ?st' = span_lists st"
      using ne len by (simp add: list_push_front_def N(2) list_pop_front_def)
    have f: "spans ?st' = spans st" "sys ?st' = sys st1" "span_pool ?st' = span_pool st1" "node_pool ?st' = node_pool st1"
      "pmap ?st' = pmap st1" using N(6) [OF None] by (simp_all add: list_push_front_def s0)
    have "pc_inv mapped ?st'" unfolding pc_inv_def ls f using iv N N(6) [OF None] by (simp add: s0)
    moreover have "alloc_split os n i st = Inr (None, ?st')"
      using b new None n32 by (simp add: alloc_split_def Let_def)
    ultimately show ?thesis by (simp add: alloc_post_def keeps_used_def f)
  next
    case (Some small)
    have p: "spans st small = None" "spans st1 = (spans st)(small \<mapsto> new_span (start_page_idx bsp) n)"
      using N(7) [OF Some] by (simp_all add: s0)
    have "pool_wf span_pool_type (insert small (dom (spans st))) (span_pool st1)" using N(5) by (simp add: p)
    note w = this
    have bn: "page_num bsp \<le> MAX_PAGE_NUM" "n < page_num bsp" using n b(3) by auto
    have l1: "span_lists st1 = (span_lists st)[page_num bsp := remove1 ?big (span_lists st ! page_num bsp)]"
      unfolding N(2) s0(6) b(3) by (rule refl)
    have m1: "map_ok (spans st) (pmap st1)" using iv N(3) s0(5) by simp
    have ok: "lists_ok (spans st) (span_lists st)" "spans_ok (spans st)" using iv by simp_all
    from split_span_ok [OF os N(1) w p(1) b(1) p(2) b(2) bn(1) n(1) bn(2) ok(1) l1 ok(2) m1]
    obtain st' ssp bsp' where x: "split_span os n ?big bsp small st1 = Inr (Some small, st')" "pc_inv mapped st'"
      "spans st' = (spans st)(small \<mapsto> ssp, ?big \<mapsto> bsp')" "IsUsed ssp" "page_num ssp = n" "aligned_obj_size ssp = 0"
      by blast
    have "alloc_split os n i st = Inr (Some small, st')"
      using b new Some n32 x(1) by (simp add: alloc_split_def Let_def)
    moreover have "keeps_used st st'" unfolding keeps_used_def x(3) using p(1) b by auto
    moreover have "small \<noteq> ?big" using p(1) b(1) by auto
    ultimately show ?thesis using x p(1) by (simp add: alloc_post_def)
  qed
qed

lemma fresh_pages:
  assumes "ptr mod PAGE_SIZE = 0" and "ptr \<noteq> 0" and "ptr + n * PAGE_SIZE \<le> 2 ^ 47"
  shows "0 < PtrToPageId ptr" and "PtrToPageId ptr + n \<le> 2 ^ 35" and "PtrToPageId ptr * PAGE_SIZE = ptr"
proof -
  obtain p where p: "ptr = p * PAGE_SIZE" using assms(1) by (metis mod_0_imp_dvd dvd_div_mult_self)
  then have e: "PtrToPageId ptr = p" by (simp add: PtrToPageId_eq PAGE_SIZE_def)
  show "0 < PtrToPageId ptr" "PtrToPageId ptr * PAGE_SIZE = ptr" using p e assms(2) by (auto intro: gr0I)
  show "PtrToPageId ptr + n \<le> 2 ^ 35" using assms(3) unfolding e unfolding p by (simp add: PAGE_SIZE_def)
qed

lemma map_add_span:
  assumes "map_ok f m" and "f a = None" and "\<And>b sb. f b = Some sb \<Longrightarrow> pages_of sb \<inter> pages_of sp = {}"
    and m': "\<And>q. GetSpan m' q = (if q \<in> pages_of sp then Some a else GetSpan m q)"
  shows "map_ok (f(a \<mapsto> sp)) m'"
  unfolding map_ok_def
proof (intro allI)
  fix q b
  have old: "GetSpan m q = Some b \<longleftrightarrow> (\<exists>sp. f b = Some sp \<and> q \<in> pages_of sp)"
    using assms(1) by (simp add: map_ok_def)
  show "GetSpan m' q = Some b \<longleftrightarrow> (\<exists>s. (f(a \<mapsto> sp)) b = Some s \<and> q \<in> pages_of s)"
    unfolding m' using old assms(2,3) by (cases "b = a") (auto simp: disjoint_iff)
qed

lemma publish_fresh:
  assumes os: "kernel_ok os mapped"
    and mem: "mem_inv mapped (span_mem f \<union> span_bytes sp) (sys st) (span_pool st) (node_pool st)"
    and wf: "pool_wf span_pool_type (insert a (dom f)) (span_pool st)"
    and f: "f a = None" "spans st = f(a \<mapsto> sp)" and sp: "span_ok sp" "span_mem f \<inter> span_bytes sp = {}"
    and ok: "spans_ok f" "lists_ok (f(a \<mapsto> sp)) (span_lists st)" "map_ok f (pmap st)"
  shows "case pc_SetSpan os a st of
      Inl e \<Rightarrow> e = Exn BadAlloc
    | Inr st' \<Rightarrow> pc_inv mapped st' \<and> spans st' = spans st \<and> span_lists st' = span_lists st"
proof -
  have "spans st a = Some sp" using f by simp
  note S = SetSpan_pc_fresh [OF os mem this sp(1)]
  have "span_bytes sp \<inter> span_mem f = {}" using sp(2) by blast
  note A = add_span [OF ok(1) f(1) sp(1) this]
  have d: "pages_of sb \<inter> pages_of sp = {}" if "f b = Some sb" for b sb
    using disjoint_bytes_pages [of _ sp f, OF sp(2) that] by simp
  show ?thesis
  proof (cases "pc_SetSpan os a st")
    case (Inl e)
    with S show ?thesis by simp
  next
    case (Inr st')
    from S [unfolded Inr sum.case] have s: "mem_inv mapped (span_mem f \<union> span_bytes sp) (sys st') (span_pool st') (node_pool st')"
      "spans st' = spans st" "span_lists st' = span_lists st" "span_pool st' = span_pool st"
      "\<And>q. GetSpan (pmap st') q = (if q \<in> pages_of sp then Some a else GetSpan (pmap st) q)"
      by blast+
    have "map_ok (f(a \<mapsto> sp)) (pmap st')" by (rule map_add_span [OF ok(3) f(1) d s(5)])
    moreover have "dom (f(a \<mapsto> sp)) = insert a (dom f)" by auto
    ultimately have "pc_inv mapped st'"
      unfolding pc_inv_def s(2,3,4) f(2) A(2) using s(1,4) A(1) ok(2) wf by simp
    then show ?thesis using Inr s by simp
  qed
qed

text \<open>Pages from the system together with fresh metadata, as both the oversized and the refill branch get them.\<close>

lemma grow_ok:
  assumes os: "kernel_ok os mapped" and inv: "pc_inv mapped st"
    and alloc: "SystemAlloc os n (sys st) = (Some ptr, s)" and new: "pc_NewSpan os (PtrToPageId ptr) n (st\<lparr>sys := s\<rparr>) = (r, st1)"
  shows "span_lists st1 = span_lists st" and "pmap st1 = pmap st"
    and "r = None \<Longrightarrow> pc_inv mapped (pc_SystemFree os ptr n st1) \<and> spans (pc_SystemFree os ptr n st1) = spans st"
    and "r = Some a \<Longrightarrow> spans st a = None \<and> spans st1 = (spans st)(a \<mapsto> new_span (PtrToPageId ptr) n) \<and>
       pool_wf span_pool_type (insert a (dom (spans st))) (span_pool st1)"
    and "mem_inv mapped (span_mem (spans st) \<union> bytes ptr (n * PAGE_SIZE)) (sys st1) (span_pool st1) (node_pool st1)"
    and "span_mem (spans st) \<inter> bytes ptr (n * PAGE_SIZE) = {}"
    and "ptr mod PAGE_SIZE = 0" and "ptr \<noteq> 0" and "ptr + n * PAGE_SIZE \<le> 2 ^ 47"
proof -
  note iv = inv [unfolded pc_inv_def]
  have "mem_inv mapped (span_mem (spans st)) (sys st) (span_pool st) (node_pool st)" using iv by simp
  note A = mem_SystemAlloc [OF os this alloc]
  then show p: "ptr mod PAGE_SIZE = 0" "ptr \<noteq> 0" "ptr + n * PAGE_SIZE \<le> 2 ^ 47"
    and dis: "span_mem (spans st) \<inter> bytes ptr (n * PAGE_SIZE) = {}" by (simp_all add: granted_def)
  let ?st = "st\<lparr>sys := s\<rparr>"
  have "mem_inv mapped (span_mem (spans st) \<union> bytes ptr (n * PAGE_SIZE)) (sys ?st) (span_pool ?st) (node_pool ?st)"
    "pool_wf span_pool_type (dom (spans ?st)) (span_pool ?st)" using A iv by (simp_all add: granted_def)
  note N = NewSpan_pc [OF os this new]
  show "span_lists st1 = span_lists st" "pmap st1 = pmap st"
    "mem_inv mapped (span_mem (spans st) \<union> bytes ptr (n * PAGE_SIZE)) (sys st1) (span_pool st1) (node_pool st1)"
    using N by simp_all
  show "r = Some a \<Longrightarrow> spans st a = None \<and> spans st1 = (spans st)(a \<mapsto> new_span (PtrToPageId ptr) n) \<and>
     pool_wf span_pool_type (insert a (dom (spans st))) (span_pool st1)"
    using N(5) N(7) [of a] by auto
  assume r: "r = None"
  note M = mem_SystemFree [OF os N(1) refl dis p(1,3,2)]
  have e: "spans st1 = spans st" using N(6) [OF r] by simp
  show "pc_inv mapped (pc_SystemFree os ptr n st1) \<and> spans (pc_SystemFree os ptr n st1) = spans st"
    unfolding pc_inv_def pc_SystemFree_def using M N e iv by simp
qed

lemma alloc_oversized_ok:
  assumes os: "kernel_ok os mapped" and inv: "pc_inv mapped st" and n: "MAX_PAGE_NUM < n" "n < 2 ^ 32"
  shows "alloc_post mapped n st (alloc_oversized os n st)"
proof (cases "SystemAlloc os n (sys st)")
  case (Pair r s)
  note iv = inv [unfolded pc_inv_def]
  show ?thesis
  proof (cases r)
    case None
    have "pc_inv mapped (st\<lparr>sys := s\<rparr>)"
      unfolding pc_inv_def using iv mem_SystemAlloc [OF os _ Pair] None by (simp add: granted_def)
    then show ?thesis using None Pair by (simp add: alloc_post_def alloc_oversized_def keeps_used_def)
  next
    case (Some ptr)
    obtain x st1 where new: "pc_NewSpan os (PtrToPageId ptr) n (st\<lparr>sys := s\<rparr>) = (x, st1)" by (rule prod.exhaust)
    note G = grow_ok [OF os inv Pair [unfolded Some] new]
    have run: "alloc_oversized os n st = (case x of None \<Rightarrow> Inr (None, pc_SystemFree os ptr n st1)
      | Some a \<Rightarrow> map_sum id (\<lambda>st2. (Some a, st2)) (pc_SetSpan os a
          (pc_update a (\<lambda>sp. (SetCommitted True (SetUsed True sp))\<lparr>owner_shard_id := 0\<rparr>) st1)))"
      using Pair Some new n(2) by (simp add: alloc_oversized_def split: option.splits)
    show ?thesis
    proof (cases x)
      case None
      then show ?thesis using G(3) run by (simp add: alloc_post_def keeps_used_def)
    next
      case (Some a)
      note H = G(4) [OF Some]
      let ?sp = "(SetCommitted True (SetUsed True (new_span (PtrToPageId ptr) n)))\<lparr>owner_shard_id := 0\<rparr>"
      let ?st = "pc_update a (\<lambda>sp. (SetCommitted True (SetUsed True sp))\<lparr>owner_shard_id := 0\<rparr>) st1"
      note F = fresh_pages [OF G(7-9)]
      have "case pc_SetSpan os a ?st of Inl e \<Rightarrow> e = Exn BadAlloc
        | Inr st' \<Rightarrow> pc_inv mapped st' \<and> spans st' = spans ?st \<and> span_lists st' = span_lists ?st"
      proof (rule publish_fresh [OF os, where f = "spans st" and sp = ?sp])
        show "pool_wf span_pool_type (insert a (dom (spans st))) (span_pool ?st)" "spans st a = None"
          using H by (simp_all add: pc_update_def)
        show "spans_ok (spans st)" "map_ok (spans st) (pmap ?st)" using iv G(2) by (simp_all add: pc_update_def)
        show "spans ?st = (spans st)(a \<mapsto> ?sp)" using H by (simp add: pc_update_def)
        show "span_ok ?sp" using F n by (simp add: span_ok_def MAX_PAGE_NUM_def)
        show "mem_inv mapped (span_mem (spans st) \<union> span_bytes ?sp) (sys ?st) (span_pool ?st) (node_pool ?st)"
          "span_mem (spans st) \<inter> span_bytes ?sp = {}"
          using G(5,6) F(3) by (simp_all add: span_bytes_def pc_update_def)
        show "lists_ok ((spans st)(a \<mapsto> ?sp)) (span_lists ?st)"
          by (rule lists_same [of "spans st" _ a]) (use iv H G(1) in \<open>simp_all add: is_free_def pc_update_def\<close>)
      qed
      then show ?thesis
        using run Some H n by (cases "pc_SetSpan os a ?st") (simp_all add: alloc_post_def keeps_used_def pc_update_def)
    qed
  qed
qed

lemma alloc_refill_ok:
  assumes os: "kernel_ok os mapped" and inv: "pc_inv mapped st"
  shows "case alloc_refill os st of
      Inl res \<Rightarrow> alloc_post mapped n st res
    | Inr st' \<Rightarrow> pc_inv mapped st' \<and> span_lists st' ! MAX_PAGE_NUM \<noteq> [] \<and> keeps_used st st'"
proof (cases "SystemAlloc os MAX_PAGE_NUM (sys st)")
  case (Pair r s)
  note iv = inv [unfolded pc_inv_def]
  show ?thesis
  proof (cases r)
    case None
    have "pc_inv mapped (st\<lparr>sys := s\<rparr>)"
      unfolding pc_inv_def using iv mem_SystemAlloc [OF os _ Pair] None by (simp add: granted_def)
    then show ?thesis using None Pair by (simp add: alloc_post_def alloc_refill_def keeps_used_def)
  next
    case (Some ptr)
    obtain x st1 where new: "pc_NewSpan os (PtrToPageId ptr) MAX_PAGE_NUM (st\<lparr>sys := s\<rparr>) = (x, st1)" by (rule prod.exhaust)
    note G = grow_ok [OF os inv Pair [unfolded Some] new]
    show ?thesis
    proof (cases x)
      case None
      have "alloc_refill os st = Inl (Inr (None, pc_SystemFree os ptr MAX_PAGE_NUM st1))"
        using Pair Some new None by (simp add: alloc_refill_def)
      then show ?thesis using G(3) [OF None] by (simp add: alloc_post_def keeps_used_def)
    next
      case A: (Some a)
      note H = G(4) [OF A]
      obtain now st2 where c: "GetCurrentTimeMs os st1 = (now, st2)" by (rule prod.exhaust)
      note C = clock_pc [OF os c G(5)]
      let ?u = "\<lambda>sp. (SetCommitted True (SetUsed False sp))\<lparr>last_used_time_ms := now, owner_shard_id := 0\<rparr>"
      let ?sp = "?u (new_span (PtrToPageId ptr) MAX_PAGE_NUM)"
      let ?st = "list_push_front MAX_PAGE_NUM a (pc_update a ?u st2)"
      note F = fresh_pages [OF G(7-9)]
      have run: "alloc_refill os st = (case pc_SetSpan os a ?st of Inl e \<Rightarrow> Inl (Inl e) | Inr st4 \<Rightarrow> Inr st4)"
        unfolding alloc_refill_def Pair Some prod.case option.case new A Let_def c by (rule refl)
      have s: "spans ?st = (spans st)(a \<mapsto> ?sp)" "pmap ?st = pmap st"
        "span_lists ?st = (span_lists st)[MAX_PAGE_NUM := a # span_lists st ! MAX_PAGE_NUM]"
        "sys ?st = sys st2" "span_pool ?st = span_pool st1" "node_pool ?st = node_pool st2"
        using H C G(1,2) by (simp_all add: pc_update_def list_push_front_def)
      have P: "case pc_SetSpan os a ?st of Inl e \<Rightarrow> e = Exn BadAlloc
        | Inr st' \<Rightarrow> pc_inv mapped st' \<and> spans st' = spans ?st \<and> span_lists st' = span_lists ?st"
      proof (rule publish_fresh [OF os, where f = "spans st" and sp = ?sp])
        show "pool_wf span_pool_type (insert a (dom (spans st))) (span_pool ?st)" "spans st a = None"
          using H s by simp_all
        show "spans_ok (spans st)" "map_ok (spans st) (pmap ?st)" using iv s by simp_all
        show "span_ok ?sp" using F by (simp add: span_ok_def MAX_PAGE_NUM_def)
        show "mem_inv mapped (span_mem (spans st) \<union> span_bytes ?sp) (sys ?st) (span_pool ?st) (node_pool ?st)"
          "span_mem (spans st) \<inter> span_bytes ?sp = {}"
          unfolding s using C(1,5) G(6) F(3) by (simp_all add: span_bytes_def)
        have "lists_ok ((spans st)(a \<mapsto> ?sp)) ((span_lists st)[page_num ?sp := a # span_lists st ! page_num ?sp])"
          by (rule lists_add [of "spans st"]) (use iv H in \<open>simp_all add: is_free_def\<close>)
        then show "lists_ok ((spans st)(a \<mapsto> ?sp)) (span_lists ?st)" unfolding s by simp
      qed (rule s(1))
      have len: "length (span_lists st) = MAX_PAGE_NUM + 1" using iv by (simp add: lists_ok_def)
      have k: "keeps_used st st'" if "spans st' = spans ?st" for st' :: "'a pc"
        unfolding keeps_used_def that s(1) using H by auto
      show ?thesis
      proof (cases "pc_SetSpan os a ?st")
        case (Inl e)
        then show ?thesis using P run by (simp add: alloc_post_def)
      next
        case (Inr st')
        then show ?thesis using P run k s(3) len by simp
      qed
    qed
  qed
qed


lemma split_bucket_Some:
  assumes "split_bucket n st = Some i"
  shows "n < i" and "i \<le> MAX_PAGE_NUM" and "span_lists st ! i \<noteq> []"
  using assms unfolding split_bucket_def find_Some_iff by (auto simp del: upt_Suc)

lemma split_bucket_None: "split_bucket n st = None \<Longrightarrow> n < i \<Longrightarrow> i \<le> MAX_PAGE_NUM \<Longrightarrow> span_lists st ! i = []"
  unfolding split_bucket_def find_None_iff by (auto simp del: upt_Suc)

lemma alloc_step_ok:
  assumes os: "kernel_ok os mapped" and inv: "pc_inv mapped st" and n: "0 < n" "n < 2 ^ 32"
  shows "case alloc_step os n st of
      Inl res \<Rightarrow> alloc_post mapped n st res
    | Inr st' \<Rightarrow> n \<le> MAX_PAGE_NUM \<and> pc_inv mapped st' \<and> span_lists st' ! MAX_PAGE_NUM \<noteq> [] \<and> keeps_used st st'"
proof -
  consider "MAX_PAGE_NUM < n" | "n \<le> MAX_PAGE_NUM" "span_lists st ! n \<noteq> []"
    | i where "n \<le> MAX_PAGE_NUM" "span_lists st ! n = []" "split_bucket n st = Some i"
    | "n \<le> MAX_PAGE_NUM" "span_lists st ! n = []" "split_bucket n st = None" by fastforce
  then show ?thesis
  proof cases
    case 1
    then show ?thesis using alloc_oversized_ok [OF os inv 1 n(2)] by (simp add: alloc_step_def)
  next
    case 2
    then show ?thesis using alloc_exact_ok [OF inv 2] by (simp add: alloc_step_def)
  next
    case 3
    then show ?thesis using alloc_split_ok [OF os inv n(1) split_bucket_Some [OF 3(3)]] by (simp add: alloc_step_def)
  next
    case 4
    then show ?thesis
      using alloc_refill_ok [OF os inv, of n] by (cases "alloc_refill os st") (simp_all add: alloc_step_def)
  qed
qed

lemma alloc_step_full:
  assumes "n \<le> MAX_PAGE_NUM" and "span_lists st ! MAX_PAGE_NUM \<noteq> []"
  obtains res where "alloc_step os n st = Inl res"
proof (cases "span_lists st ! n = []")
  case True
  then have "n < MAX_PAGE_NUM" using assms by (cases "n = MAX_PAGE_NUM") auto
  then obtain i where "split_bucket n st = Some i"
    using split_bucket_None [of n st MAX_PAGE_NUM] assms(2) by fastforce
  then show thesis using that assms(1) True by (simp add: alloc_step_def)
next
  case False
  then show thesis using that assms(1) by (simp add: alloc_step_def)
qed

lemma alloc_post_trans: "keeps_used st st1 \<Longrightarrow> alloc_post mapped n st1 res \<Longrightarrow> alloc_post mapped n st res"
proof (cases res)
  case (Inr p)
  obtain x st' where p: "p = (x, st')" by (rule prod.exhaust)
  assume "keeps_used st st1" "alloc_post mapped n st1 res"
  then show ?thesis unfolding alloc_post_def keeps_used_def Inr p sum.case prod.case by metis
qed (simp add: alloc_post_def)

text \<open>The loop takes at most two iterations: a refill makes the list of 128 pages nonempty.\<close>

lemma AllocSpan_loop_ok:
  assumes os: "kernel_ok os mapped" and inv: "pc_inv mapped st" and n: "0 < n" "n < 2 ^ 32"
  shows "\<exists>res. AllocSpan_loop os n st = Some res \<and> alloc_post mapped n st res"
proof (cases "alloc_step os n st")
  case (Inl res)
  then show ?thesis using alloc_step_ok [OF os inv n] by (simp add: AllocSpan_loop.simps)
next
  case (Inr st1)
  with alloc_step_ok [OF os inv n]
  have s: "n \<le> MAX_PAGE_NUM" "pc_inv mapped st1" "span_lists st1 ! MAX_PAGE_NUM \<noteq> []" "keeps_used st st1" by simp_all
  obtain res where r: "alloc_step os n st1 = Inl res" by (rule alloc_step_full [OF s(1,3)])
  have "alloc_post mapped n st1 res" using alloc_step_ok [OF os s(2) n] r by simp
  from alloc_post_trans [OF s(4) this] show ?thesis
    using Inr r by (simp add: AllocSpan_loop.simps [of os n st] AllocSpan_loop.simps [of os n st1])
qed

lemma pc_inv_retag:
  assumes inv: "pc_inv mapped st"
    and u: "\<And>sp. spans st a = Some sp \<Longrightarrow> same_pages sp (u sp) \<and> IsUsed sp \<and> IsUsed (u sp)"
  shows "pc_inv mapped (pc_update a u st)"
proof (cases "spans st a")
  case None
  then have "pc_update a u st = st" by (simp add: pc_update_def fun_upd_idem)
  then show ?thesis using inv by simp
next
  case (Some sp)
  have e: "spans (pc_update a u st) = (spans st)(a \<mapsto> u sp)" using Some by (simp add: pc_update_def)
  have r: "sys (pc_update a u st) = sys st" "span_pool (pc_update a u st) = span_pool st"
    "node_pool (pc_update a u st) = node_pool st" "pmap (pc_update a u st) = pmap st"
    "span_lists (pc_update a u st) = span_lists st" by (simp_all add: pc_update_def)
  have ok: "span_ok (u sp)" using pc_inv_span_ok [OF inv Some] u [OF Some] by (simp add: span_ok_def same_pages_def)
  note U = update_same [of "spans st", OF Some, of "u sp"]
  have "lists_ok ((spans st)(a \<mapsto> u sp)) (span_lists st)"
    by (rule lists_same [of "spans st" _ a]) (use inv u [OF Some] Some in \<open>simp_all add: pc_inv_def is_free_def\<close>)
  then show ?thesis using inv U ok u [OF Some] unfolding pc_inv_def e r by simp
qed

lemma AllocSpan_ok:
  assumes os: "kernel_ok os mapped" and inv: "pc_inv mapped st"
  shows "\<exists>res. AllocSpan os n st = Some res \<and>
    (case res of Inl e \<Rightarrow> e = Exn BadAlloc
     | Inr (r, st') \<Rightarrow> pc_inv mapped st' \<and> keeps_used st st' \<and>
         (\<forall>a. r = Some a \<longrightarrow> (\<exists>sp. spans st' a = Some sp \<and> IsUsed sp \<and> page_num sp = n \<and>
             owner_shard_id sp = 0 \<and> aligned_obj_size sp = 0) \<and>
           (\<forall>sb. spans st a = Some sb \<longrightarrow> \<not> IsUsed sb)))"
proof (cases "n = 0 \<or> n > 2 ^ 32 - 1")
  case True
  then show ?thesis using inv by (simp add: AllocSpan_def AllocSpanLocked_def keeps_used_def)
next
  case False
  then have n: "0 < n" "n < 2 ^ 32" by auto
  obtain res where r: "AllocSpan_loop os n st = Some res" "alloc_post mapped n st res"
    using AllocSpan_loop_ok [OF os inv n] by blast
  have run: "AllocSpanLocked os n st = Some res" using r(1) False by (simp add: AllocSpanLocked_def)
  show ?thesis
  proof (cases res)
    case (Inl e)
    then show ?thesis using r(2) by (simp add: AllocSpan_def run alloc_post_def)
  next
    case (Inr p)
    obtain x st1 where p: "p = (x, st1)" by (rule prod.exhaust)
    note P = r(2) [unfolded Inr p alloc_post_def sum.case prod.case]
    show ?thesis
    proof (cases x)
      case None
      then show ?thesis using P by (simp add: AllocSpan_def run Inr p)
    next
      case (Some a)
      let ?st = "pc_update a (\<lambda>sp. sp\<lparr>owner_shard_id := 0\<rparr>) st1"
      obtain sp where sp: "spans st1 a = Some sp" "IsUsed sp" "page_num sp = n" "aligned_obj_size sp = 0"
        and old: "\<forall>sb. spans st a = Some sb \<longrightarrow> \<not> IsUsed sb" using P Some by blast
      have "AllocSpan os n st = Some (Inr (Some a, ?st))" by (simp add: AllocSpan_def run Inr p Some)
      moreover have "pc_inv mapped ?st" using P sp by (intro pc_inv_retag) (simp_all add: same_pages_def)
      moreover have "keeps_used st ?st" using P old unfolding keeps_used_def by (auto simp: pc_update_def)
      moreover have "spans ?st a = Some (sp\<lparr>owner_shard_id := 0\<rparr>)" using sp by (simp add: pc_update_def)
      ultimately show ?thesis using sp old by simp
    qed
  qed
qed

end
