(* ===== verification/Page_Cache_Release.thy ===== *)
theory Page_Cache_Release
  imports Page_Cache_Alloc
begin

text \<open>
  \<open>ReleaseSpan\<close> and \<open>Reset\<close>: the merge loops end, keep the page cache invariant and never
  touch a span in use, and a reset returns every page that the cache holds.
\<close>

section \<open>The invariant between the merges\<close>

text \<open>
  While \<open>a\<close> absorbs its neighbours, the page map still names the absorbed spans on the pages
  that \<open>a\<close> has gained; everywhere else it is exact.
\<close>

definition rel_inv :: "('k \<Rightarrow> addr set) \<Rightarrow> addr \<Rightarrow> span \<Rightarrow> 'k pc \<Rightarrow> bool" where
  "rel_inv mapped a sp st \<longleftrightarrow>
     mem_inv mapped (span_mem (spans st)) (sys st) (span_pool st) (node_pool st) \<and>
     pool_wf span_pool_type (dom (spans st)) (span_pool st) \<and>
     spans_ok (spans st) \<and> lists_ok (spans st) (span_lists st) \<and>
     spans st a = Some sp \<and> IsUsed sp \<and> page_num sp \<le> MAX_PAGE_NUM \<and>
     (\<forall>q. q \<notin> pages_of sp \<longrightarrow>
        (\<forall>b. GetSpan (pmap st) q = Some b \<longleftrightarrow> (\<exists>s. spans st b = Some s \<and> q \<in> pages_of s))) \<and>
     (\<forall>q \<in> pages_of sp. GetSpan (pmap st) q \<noteq> None)"

lemma pc_inv_rel_inv:
  assumes "pc_inv mapped st" and "spans st a = Some sp" and "IsUsed sp" and "page_num sp \<le> MAX_PAGE_NUM"
  shows "rel_inv mapped a sp st"
proof -
  have m: "map_ok (spans st) (pmap st)" using assms(1) by (simp add: pc_inv_def)
  then have "GetSpan (pmap st) q = Some a" if "q \<in> pages_of sp" for q
    using assms(2) that unfolding map_ok_def by blast
  then show ?thesis using m assms unfolding rel_inv_def pc_inv_def map_ok_def by auto
qed

lemma mem_Delete: "mem_inv mapped S s (Delete b sp) np = mem_inv mapped S s sp np"
  by (simp add: mem_inv_def Delete_def)

text \<open>One merge: \<open>a\<close> takes over the pages of the free span \<open>b\<close>.\<close>

lemma absorb_geometry:
  assumes ok: "spans_ok f" and a: "f a = Some sp" and b: "f b = Some nb" "b \<noteq> a"
    and sp': "span_ok sp'" "pages_of sp' = pages_of sp \<union> pages_of nb"
  defines "g \<equiv> (f(a \<mapsto> sp'))(b := None)"
  shows "spans_ok g" and "span_mem g = span_mem f" and "dom g = dom f - {b}"
proof -
  have fa: "(f(b := None)) a = Some sp" using a b by simp
  note r1 = remove_span [OF ok b(1)] and r2 = remove_span [OF remove_span(1) [OF ok b(1)] fa]
  have bytes: "span_bytes sp' = span_bytes sp \<union> span_bytes nb" using sp'(2) by (auto simp: span_bytes_iff)
  have "span_bytes sp' \<inter> span_mem (f(b := None, a := None)) = {}" unfolding bytes using r1 r2 by blast
  note ad = add_span [OF r2(1) fun_upd_same sp'(1) this]
  have g: "g = f(b := None, a := None, a \<mapsto> sp')" using b by (auto simp: g_def)
  show "spans_ok g" unfolding g by (rule ad)
  show "span_mem g = span_mem f" unfolding g ad(2) r1(2) r2(2) bytes by blast
  show "dom g = dom f - {b}" using a b by (auto simp: g_def)
qed

lemma absorb:
  assumes inv: "rel_inv mapped a sp st" and b: "spans st b = Some nb" "\<not> IsUsed nb" "b \<noteq> a"
    and sp': "span_ok sp'" "pages_of sp' = pages_of sp \<union> pages_of nb" "IsUsed sp'" "page_num sp' \<le> MAX_PAGE_NUM"
    and u: "u sp = sp'"
  defines "st' \<equiv> pc_DeleteSpan b (pc_update a u (list_erase (page_num nb) b st))"
  shows "rel_inv mapped a sp' st'" and "spans st' = ((spans st)(a \<mapsto> sp'))(b := None)"
    and "span_mem (spans st') = span_mem (spans st)"
proof -
  let ?g = "((spans st)(a \<mapsto> sp'))(b := None)"
  note iv = inv [unfolded rel_inv_def]
  have a: "spans st a = Some sp" "IsUsed sp" and ok: "spans_ok (spans st)" using iv by blast+
  have nb: "page_num nb \<le> MAX_PAGE_NUM" using ok b unfolding spans_ok_def span_ok_def by blast
  note G = absorb_geometry [OF ok a(1) b(1,3) sp'(1,2)]
  show s: "spans st' = ?g"
    using a b u by (simp add: st'_def pc_DeleteSpan_def pc_update_def list_erase_def)
  have r: "sys st' = sys st" "span_pool st' = Delete b (span_pool st)" "node_pool st' = node_pool st" "pmap st' = pmap st"
    "span_lists st' = (span_lists st)[page_num nb := remove1 b (span_lists st ! page_num nb)]"
    by (simp_all add: st'_def pc_DeleteSpan_def pc_update_def list_erase_def)
  show "span_mem (spans st') = span_mem (spans st)" unfolding s by (rule G(2))
  have "lists_ok ((spans st)(a \<mapsto> sp')) (span_lists st)"
    by (rule lists_same [of "spans st" _ a]) (use iv a sp'(3) in \<open>simp_all add: is_free_def\<close>)
  then have ls: "lists_ok ?g (span_lists st')" unfolding r
    by (rule lists_remove) (use b nb in \<open>simp_all add: is_free_def\<close>)
  have wf: "pool_wf span_pool_type (dom ?g) (span_pool st')"
    unfolding r G(3) using iv b(1) by (intro Delete_wf) auto
  have exact: "GetSpan (pmap st) q = Some c \<longleftrightarrow> (\<exists>s. ?g c = Some s \<and> q \<in> pages_of s)"
    if q: "q \<notin> pages_of sp'" for q c
  proof -
    have "GetSpan (pmap st) q = Some c \<longleftrightarrow> (\<exists>s. spans st c = Some s \<and> q \<in> pages_of s)"
      using iv q sp'(2) by blast
    also have "\<dots> \<longleftrightarrow> (\<exists>s. ?g c = Some s \<and> q \<in> pages_of s)"
      using q a(1) b(1,3) sp'(2) by (cases "c = a"; cases "c = b") simp_all
    finally show ?thesis .
  qed
  have some: "GetSpan (pmap st) q \<noteq> None" if q: "q \<in> pages_of sp'" for q
  proof (cases "q \<in> pages_of sp")
    case True
    then show ?thesis using iv by blast
  next
    case False
    then have "GetSpan (pmap st) q = Some b" using iv q b(1) sp'(2) by blast
    then show ?thesis by simp
  qed
  show "rel_inv mapped a sp' st'"
    unfolding rel_inv_def s G(2)
  proof (intro conjI allI impI ballI)
    show "mem_inv mapped (span_mem (spans st)) (sys st') (span_pool st') (node_pool st')"
      unfolding r mem_Delete using iv by blast
    show "?g a = Some sp'" using b(3) by simp
  qed (use G(1) ls wf sp' exact some r in \<open>simp_all only: not_False_eq_True\<close>)
qed


section \<open>The merge loops\<close>

text \<open>What a merge loop leaves: the span has grown, no memory is lost, other used spans are untouched.\<close>

definition merged :: "('k \<Rightarrow> addr set) \<Rightarrow> addr \<Rightarrow> span \<Rightarrow> 'k pc \<Rightarrow> span \<Rightarrow> 'k pc \<Rightarrow> bool" where
  "merged mapped a sp st sp' st' \<longleftrightarrow>
     rel_inv mapped a sp' st' \<and> pages_of sp \<subseteq> pages_of sp' \<and> page_num sp \<le> page_num sp' \<and>
     owner_shard_id sp' = owner_shard_id sp \<and> span_mem (spans st') = span_mem (spans st) \<and>
     (\<forall>c sc. c \<noteq> a \<longrightarrow> spans st' c = Some sc \<longrightarrow> spans st c = Some sc) \<and>
     (\<forall>c sc. c \<noteq> a \<longrightarrow> spans st c = Some sc \<longrightarrow> IsUsed sc \<longrightarrow> spans st' c = Some sc)"

lemma merged_refl: "rel_inv mapped a sp st \<Longrightarrow> merged mapped a sp st sp st"
  by (simp add: merged_def)

lemma merged_trans: "merged mapped a sp st sp1 st1 \<Longrightarrow> merged mapped a sp1 st1 sp2 st2 \<Longrightarrow> merged mapped a sp st sp2 st2"
  unfolding merged_def by (elim conjE, intro conjI) (blast, blast, erule (1) order_trans, simp only:, simp only:, blast, blast)

lemma merge_candidate_cases:
  assumes inv: "rel_inv mapped a sp st" and q: "q \<notin> pages_of sp"
  obtains (stop) "merge_candidate q sp st = Inr None"
      "\<And>b nb. spans st b = Some nb \<Longrightarrow> q \<in> pages_of nb \<Longrightarrow> \<not> IsUsed nb \<Longrightarrow>
         owner_shard_id nb = owner_shard_id sp \<Longrightarrow> MAX_PAGE_NUM < page_num sp + page_num nb"
  | (merge) b nb where "merge_candidate q sp st = Inr (Some (b, nb))" "spans st b = Some nb" "q \<in> pages_of nb"
      "\<not> IsUsed nb" "b \<noteq> a" "page_num sp + page_num nb \<le> MAX_PAGE_NUM" "span_ok nb" "pages_of sp \<inter> pages_of nb = {}"
proof -
  note iv = inv [unfolded rel_inv_def]
  have ok: "spans_ok (spans st)" and a: "spans st a = Some sp" "IsUsed sp" "page_num sp \<le> MAX_PAGE_NUM" using iv by blast+
  have map: "GetSpan (pmap st) q = Some b \<longleftrightarrow> (\<exists>s. spans st b = Some s \<and> q \<in> pages_of s)" for b using iv q by blast
  have wrap: "(page_num sp + page_num nb) mod 2 ^ 32 = page_num sp + page_num nb" if "spans st b = Some nb" "\<not> IsUsed nb" for b nb
  proof -
    have "page_num nb \<le> MAX_PAGE_NUM" using ok that unfolding spans_ok_def span_ok_def by blast
    with a(3) show ?thesis by (simp add: MAX_PAGE_NUM_def)
  qed
  show thesis
  proof (cases "GetSpan (pmap st) q")
    case None
    then show ?thesis using map by (intro stop) (simp_all add: merge_candidate_def)
  next
    case (Some b)
    then obtain nb where nb: "spans st b = Some nb" "q \<in> pages_of nb" using map by blast
    have uniq: "c = b" if "spans st c = Some nc" "q \<in> pages_of nc" for c nc
      using map [of c] Some that by simp
    let ?no = "IsUsed nb \<or> owner_shard_id nb \<noteq> owner_shard_id sp \<or> (page_num sp + page_num nb) mod 2 ^ 32 > MAX_PAGE_NUM"
    show ?thesis
    proof (cases ?no)
      case True
      then have "merge_candidate q sp st = Inr None" using Some nb by (simp add: merge_candidate_def)
      moreover have "MAX_PAGE_NUM < page_num sp + page_num nc"
        if "spans st c = Some nc" "q \<in> pages_of nc" "\<not> IsUsed nc" "owner_shard_id nc = owner_shard_id sp" for c nc
        using True wrap [OF that(1,3)] uniq [OF that(1,2)] nb(1) that by simp
      ultimately show ?thesis by (rule stop)
    next
      case False
      then have "merge_candidate q sp st = Inr (Some (b, nb))" using Some nb by (simp add: merge_candidate_def)
      moreover have ba: "b \<noteq> a" using q nb a by auto
      moreover have "page_num sp + page_num nb \<le> MAX_PAGE_NUM" using False wrap [OF nb(1)] by simp
      moreover have "span_ok nb" "pages_of sp \<inter> pages_of nb = {}" using ok nb a ba unfolding spans_ok_def by blast+
      ultimately show ?thesis using nb False by (intro merge) simp_all
    qed
  qed
qed

lemma merged_absorb:
  assumes inv: "rel_inv mapped a sp st" and b: "spans st b = Some nb" "\<not> IsUsed nb" "b \<noteq> a"
    and sp': "span_ok sp'" "pages_of sp' = pages_of sp \<union> pages_of nb" "IsUsed sp'" "page_num sp' \<le> MAX_PAGE_NUM"
      "page_num sp \<le> page_num sp'" "owner_shard_id sp' = owner_shard_id sp"
    and u: "u sp = sp'"
  shows "merged mapped a sp st sp' (pc_DeleteSpan b (pc_update a u (list_erase (page_num nb) b st)))"
  unfolding merged_def using absorb [where u = u, OF inv b sp'(1-4) u] sp' b by auto


text \<open>No free span of the same shard with page \<open>q\<close> could still be merged into \<open>sp\<close>.\<close>

definition blocked :: "nat \<Rightarrow> span \<Rightarrow> 'k pc \<Rightarrow> bool" where
  "blocked q sp st \<longleftrightarrow>
     (\<forall>b nb. spans st b = Some nb \<longrightarrow> q \<in> pages_of nb \<longrightarrow> \<not> IsUsed nb \<longrightarrow>
        owner_shard_id nb = owner_shard_id sp \<longrightarrow> MAX_PAGE_NUM < page_num sp + page_num nb)"

lemma merge_left_ok:
  assumes "rel_inv mapped a sp st"
  shows "\<exists>sp' st'. merge_left a st = Some (Inr st') \<and> merged mapped a sp st sp' st' \<and>
    blocked (start_page_idx sp' - 1) sp' st' \<and>
    start_page_idx sp' + page_num sp' = start_page_idx sp + page_num sp"
  using assms
proof (induction "MAX_PAGE_NUM - page_num sp" arbitrary: sp st rule: less_induct)
  case less
  note iv = less.prems [unfolded rel_inv_def]
  have a: "spans st a = Some sp" "IsUsed sp" using iv by blast+
  have ok: "span_ok sp" using iv a(1) unfolding spans_ok_def by blast
  let ?q = "start_page_idx sp - 1"
  have q: "?q \<notin> pages_of sp" and s0: "start_page_idx sp \<noteq> 0" using ok by (auto simp: pages_of_def span_ok_def)
  show ?case
  proof (rule merge_candidate_cases [OF less.prems q], goal_cases stop merge)
    case stop
    have "merge_left a st = Some (Inr st)" using a s0 stop(1) by (simp add: merge_left.simps)
    moreover have "blocked ?q sp st" using stop(2) by (simp add: blocked_def)
    ultimately show ?thesis using merged_refl [OF less.prems] by blast
  next
    case (merge b nb)
    let ?u = "\<lambda>s. s\<lparr>start_page_idx := start_page_idx nb, page_num := (page_num s + page_num nb) mod 2 ^ 32\<rparr>"
    let ?st = "pc_DeleteSpan b (pc_update a ?u (list_erase (page_num nb) b st))"
    have pn: "page_num (?u sp) = page_num sp + page_num nb" using merge(6) by (simp add: MAX_PAGE_NUM_def)
    have adj: "start_page_idx nb + page_num nb = start_page_idx sp"
    proof -
      have "start_page_idx sp \<notin> pages_of nb" using merge(8) ok by (auto simp: pages_of_def span_ok_def)
      with merge(3) s0 show ?thesis by (auto simp: pages_of_def)
    qed
    have st: "start_page_idx (?u sp) = start_page_idx nb" by simp
    have pages: "pages_of (?u sp) = pages_of sp \<union> pages_of nb"
      unfolding pages_of_def st pn using adj by auto
    have ok': "span_ok (?u sp)" "IsUsed (?u sp)"
      using ok merge(6,7) adj a(2) by (simp_all add: span_ok_def MAX_PAGE_NUM_def)
    have le: "page_num (?u sp) \<le> MAX_PAGE_NUM" "page_num sp \<le> page_num (?u sp)" using pn merge(6) by simp_all
    have ow: "owner_shard_id (?u sp) = owner_shard_id sp" by simp
    have m: "merged mapped a sp st (?u sp) ?st"
      by (rule merged_absorb [OF less.prems merge(2,4,5) ok'(1) pages ok'(2) le ow]) (rule refl)
    then have r: "rel_inv mapped a (?u sp) ?st" by (simp add: merged_def)
    have "MAX_PAGE_NUM - page_num (?u sp) < MAX_PAGE_NUM - page_num sp"
      unfolding pn using merge(6,7) unfolding span_ok_def by linarith
    from less.hyps [OF this r] obtain sp' st' where x: "merge_left a ?st = Some (Inr st')"
      "merged mapped a (?u sp) ?st sp' st'" "blocked (start_page_idx sp' - 1) sp' st'"
      "start_page_idx sp' + page_num sp' = start_page_idx (?u sp) + page_num (?u sp)" by blast
    have "merge_left a st = Some (Inr st')"
      unfolding merge_left.simps [of a st] using a s0 merge(1) x(1) by simp
    moreover have "start_page_idx sp' + page_num sp' = start_page_idx sp + page_num sp"
      unfolding x(4) st pn using adj by simp
    ultimately show ?thesis using merged_trans [OF m x(2)] x(3) by blast
  qed
qed

lemma merge_right_ok:
  assumes "rel_inv mapped a sp st"
  shows "\<exists>sp' st'. merge_right a st = Some (Inr st') \<and> merged mapped a sp st sp' st' \<and>
    blocked (start_page_idx sp' + page_num sp') sp' st' \<and> start_page_idx sp' = start_page_idx sp"
  using assms
proof (induction "MAX_PAGE_NUM - page_num sp" arbitrary: sp st rule: less_induct)
  case less
  note iv = less.prems [unfolded rel_inv_def]
  have a: "spans st a = Some sp" "IsUsed sp" using iv by blast+
  have ok: "span_ok sp" using iv a(1) unfolding spans_ok_def by blast
  let ?q = "start_page_idx sp + page_num sp"
  have q: "?q \<notin> pages_of sp" by (auto simp: pages_of_def)
  show ?case
  proof (rule merge_candidate_cases [OF less.prems q], goal_cases stop merge)
    case stop
    have "merge_right a st = Some (Inr st)" using a stop(1) by (simp add: merge_right.simps)
    moreover have "blocked ?q sp st" using stop(2) by (simp add: blocked_def)
    ultimately show ?thesis using merged_refl [OF less.prems] by blast
  next
    case (merge b nb)
    let ?u = "\<lambda>s. s\<lparr>page_num := (page_num s + page_num nb) mod 2 ^ 32\<rparr>"
    let ?st = "pc_DeleteSpan b (pc_update a ?u (list_erase (page_num nb) b st))"
    have pn: "page_num (?u sp) = page_num sp + page_num nb" using merge(6) by (simp add: MAX_PAGE_NUM_def)
    have adj: "start_page_idx nb = ?q"
    proof -
      have "?q - 1 \<notin> pages_of nb" using merge(8) ok by (auto simp: pages_of_def span_ok_def)
      with merge(3) ok show ?thesis by (auto simp: pages_of_def span_ok_def)
    qed
    have st: "start_page_idx (?u sp) = start_page_idx sp" by simp
    have pages: "pages_of (?u sp) = pages_of sp \<union> pages_of nb"
      unfolding pages_of_def st pn using adj by auto
    have ok': "span_ok (?u sp)" "IsUsed (?u sp)"
      using ok merge(6,7) adj a(2) by (simp_all add: span_ok_def MAX_PAGE_NUM_def)
    have le: "page_num (?u sp) \<le> MAX_PAGE_NUM" "page_num sp \<le> page_num (?u sp)" using pn merge(6) by simp_all
    have ow: "owner_shard_id (?u sp) = owner_shard_id sp" by simp
    have m: "merged mapped a sp st (?u sp) ?st"
      by (rule merged_absorb [OF less.prems merge(2,4,5) ok'(1) pages ok'(2) le ow]) (rule refl)
    then have r: "rel_inv mapped a (?u sp) ?st" by (simp add: merged_def)
    have "MAX_PAGE_NUM - page_num (?u sp) < MAX_PAGE_NUM - page_num sp"
      unfolding pn using merge(6,7) unfolding span_ok_def by linarith
    from less.hyps [OF this r] obtain sp' st' where x: "merge_right a ?st = Some (Inr st')"
      "merged mapped a (?u sp) ?st sp' st'" "blocked (start_page_idx sp' + page_num sp') sp' st'"
      "start_page_idx sp' = start_page_idx (?u sp)" by blast
    have "merge_right a st = Some (Inr st')"
      unfolding merge_right.simps [of a st] using a merge(1) x(1) by simp
    then show ?thesis using merged_trans [OF m x(2)] x(3,4) st by (intro exI [of _ sp'] exI [of _ st']) simp
  qed
qed


section \<open>ReleaseSpanLocked\<close>

lemma release_maps:
  assumes inv: "rel_inv mapped a sp st" and pg: "pages_of sp' = pages_of sp"
    and m: "\<And>q. GetSpan m q = (if q \<in> pages_of sp then Some a else GetSpan (pmap st) q)"
  shows "map_ok ((spans st)(a \<mapsto> sp')) m"
  unfolding map_ok_def
proof (intro allI)
  fix q b
  note iv = inv [unfolded rel_inv_def]
  have a: "spans st a = Some sp" and ok: "spans_ok (spans st)" using iv by blast+
  show "GetSpan m q = Some b \<longleftrightarrow> (\<exists>s. ((spans st)(a \<mapsto> sp')) b = Some s \<and> q \<in> pages_of s)"
  proof (cases "q \<in> pages_of sp")
    case True
    have "q \<notin> pages_of s" if "spans st b = Some s" "b \<noteq> a" for s
      using ok a that True unfolding spans_ok_def by blast
    then show ?thesis using True m pg by auto
  next
    case False
    have "GetSpan (pmap st) q = Some b \<longleftrightarrow> (\<exists>s. spans st b = Some s \<and> q \<in> pages_of s)" using iv False by blast
    then show ?thesis using False m pg a by auto
  qed
qed

lemma release_finish_ok:
  assumes os: "kernel_ok os mapped" and inv: "rel_inv mapped a sp st"
  shows "\<exists>st' sp'. release_finish os a st = Inr st' \<and> pc_inv mapped st' \<and> spans st' = (spans st)(a \<mapsto> sp') \<and>
    same_pages sp sp' \<and> \<not> IsUsed sp' \<and> owner_shard_id sp' = owner_shard_id sp"
proof -
  note iv = inv [unfolded rel_inv_def]
  have a: "spans st a = Some sp" "IsUsed sp" "page_num sp \<le> MAX_PAGE_NUM" and ok: "spans_ok (spans st)"
    and mem: "mem_inv mapped (span_mem (spans st)) (sys st) (span_pool st) (node_pool st)" using iv by blast+
  obtain now st1 where c: "GetCurrentTimeMs os st = (now, st1)" by (rule prod.exhaust)
  note C = clock_pc [OF os c mem]
  let ?u = "\<lambda>sp. (SetCommitted True (SetUsed False sp))
    \<lparr>aligned_obj_size := 0, use_count := 0, obj_offset := 0, capacity := 0, last_used_time_ms := now\<rparr>"
  let ?st2 = "pc_update a ?u st1" and ?g = "(spans st)(a \<mapsto> ?u sp)"
  let ?st3 = "list_push_front (page_num (?u sp)) a ?st2"
  have u: "same_pages sp (?u sp)" "\<not> IsUsed (?u sp)" "owner_shard_id (?u sp) = owner_shard_id sp"
    by (simp_all add: same_pages_def)
  have oku: "span_ok (?u sp)" using ok a unfolding spans_ok_def by (simp add: span_ok_def)
  note pg = same_pages_of [OF u(1)] and U = update_same [of "spans st", OF a(1) u(1)]
  have s2: "spans ?st2 = ?g" using a(1) C(2) by (simp add: pc_update_def)
  have s3: "spans ?st3 = ?g" "sys ?st3 = sys st1" "span_pool ?st3 = span_pool st1" "node_pool ?st3 = node_pool st1"
    "pmap ?st3 = pmap st" "span_lists ?st3 = (span_lists st)[page_num (?u sp) := a # span_lists st ! page_num (?u sp)]"
    using s2 C by (simp_all add: pc_update_def list_push_front_def)
  have "spans ?st3 a = Some (?u sp)" unfolding s3 by simp
  moreover have "GetSpan (pmap ?st3) q \<noteq> None" if "q \<in> pages_of (?u sp)" for q
    using iv that pg s3(5) by simp
  ultimately obtain m where m: "pc_SetSpan os a ?st3 = Inr (?st3\<lparr>pmap := m\<rparr>)"
    "\<And>q. GetSpan m q = (if q \<in> pages_of (?u sp) then Some a else GetSpan (pmap ?st3) q)"
    using SetSpan_pc_mapped [of ?st3 a "?u sp" os] oku by metis
  have mok: "map_ok ?g m" by (rule release_maps [OF inv pg]) (use m(2) pg s3(5) in simp)
  have "lists_ok ?g (span_lists ?st3)" unfolding s3
    by (rule lists_add [of "spans st"]) (use iv a u in \<open>simp_all add: is_free_def\<close>)
  with mok have "pc_inv mapped (?st3\<lparr>pmap := m\<rparr>)"
    unfolding pc_inv_def using C(1,5) U(1,2) U(3) [OF ok oku] s3 iv by simp
  moreover have "release_finish os a st = Inr (?st3\<lparr>pmap := m\<rparr>)"
    unfolding release_finish_def Let_def c prod.case s2 fun_upd_same option.case by (rule m(1))
  moreover have "spans (?st3\<lparr>pmap := m\<rparr>) = ?g" using s3(1) by simp
  ultimately show ?thesis using u by blast
qed

lemma release_big_ok:
  assumes os: "kernel_ok os mapped" and inv: "pc_inv mapped st" and a: "spans st a = Some sp" "MAX_PAGE_NUM < page_num sp"
  shows "\<exists>st'. ReleaseSpanLocked os a st = Some (Inr st') \<and> pc_inv mapped st' \<and> spans st' = (spans st)(a := None)"
proof -
  note iv = inv [unfolded pc_inv_def]
  have ok: "spans_ok (spans st)" using iv by blast
  have sp: "span_ok sp" by (rule pc_inv_span_ok [OF inv a(1)])
  have used: "IsUsed sp" using sp a(2) by (auto simp: span_ok_def)
  have le: "start_page_idx sp + page_num sp \<le> 2 ^ 36" using sp by (simp add: span_ok_def)
  obtain m where m: "ClearRange (start_page_idx sp) (page_num sp) (pmap st) = Inr m"
    "\<And>q. GetSpan m q = (if q \<in> pages_of sp then None else GetSpan (pmap st) q)"
    using pm.unmap_ok [OF le, of "pmap st"] by (auto simp: pages_of_def)
  have base: "GetPageBaseAddr sp = start_page_idx sp * PAGE_SIZE"
    by (simp add: GetPageBaseAddr_def push_bit_eq_mult PAGE_SHIFT_def PAGE_SIZE_def)
  let ?g = "(spans st)(a := None)"
  let ?st = "pc_DeleteSpan a (pc_SystemFree os (GetPageBaseAddr sp) (page_num sp) (st\<lparr>pmap := m\<rparr>))"
  note R = remove_span [OF ok a(1)]
  have mem: "mem_inv mapped (span_mem ?g \<union> span_bytes sp) (sys st) (span_pool st) (node_pool st)" using iv R(2) by simp
  have geo: "start_page_idx sp * PAGE_SIZE mod PAGE_SIZE = 0"
    "start_page_idx sp * PAGE_SIZE + page_num sp * PAGE_SIZE \<le> 2 ^ 47" "start_page_idx sp * PAGE_SIZE \<noteq> 0"
    using sp by (simp_all add: span_ok_def PAGE_SIZE_def)
  note M = mem_SystemFree [OF os mem span_bytes_def R(3) geo]
  have s: "spans ?st = ?g" "span_lists ?st = span_lists st" "pmap ?st = m" "node_pool ?st = node_pool st"
    "span_pool ?st = Delete a (span_pool st)" "sys ?st = SystemFree os (start_page_idx sp * PAGE_SIZE) (page_num sp) (sys st)"
    by (simp_all add: pc_DeleteSpan_def pc_SystemFree_def base)
  have "lists_ok ?g (span_lists st)"
    by (rule lists_same [of "spans st" _ a]) (use iv a used in \<open>simp_all add: is_free_def\<close>)
  moreover have "pool_wf span_pool_type (dom ?g) (Delete a (span_pool st))"
    using iv a(1) Delete_wf [of span_pool_type "dom (spans st)" "span_pool st" a] by auto
  moreover have "map_ok ?g m"
    unfolding map_ok_def
  proof (intro allI)
    fix q b
    have "GetSpan (pmap st) q = Some b \<longleftrightarrow> (\<exists>s. spans st b = Some s \<and> q \<in> pages_of s)" using iv by (simp add: map_ok_def)
    moreover have "pages_of s \<inter> pages_of sp = {}" if "spans st b = Some s" "b \<noteq> a" for s
      using ok a that unfolding spans_ok_def by blast
    ultimately show "GetSpan m q = Some b \<longleftrightarrow> (\<exists>s. ?g b = Some s \<and> q \<in> pages_of s)"
      unfolding m(2) using a by (auto simp: disjoint_iff)
  qed
  ultimately have "pc_inv mapped ?st" unfolding pc_inv_def s mem_Delete using M R(1) by simp
  moreover have "ReleaseSpanLocked os a st = Some (Inr ?st)" using a m(1) by (simp add: ReleaseSpanLocked_def)
  ultimately show ?thesis using s(1) by blast
qed

lemma blocked_merged:
  assumes "merged mapped a sp st sp' st'" and "blocked q sp st" and "q \<notin> pages_of sp'"
  shows "blocked q sp' st'"
  unfolding blocked_def
proof (intro allI impI)
  fix b nb assume b: "spans st' b = Some nb" "q \<in> pages_of nb" "\<not> IsUsed nb" "owner_shard_id nb = owner_shard_id sp'"
  have m: "spans st' a = Some sp'" "owner_shard_id sp' = owner_shard_id sp" "page_num sp \<le> page_num sp'"
    "\<And>c sc. c \<noteq> a \<Longrightarrow> spans st' c = Some sc \<Longrightarrow> spans st c = Some sc"
    using assms(1) unfolding merged_def rel_inv_def by blast+
  have "b \<noteq> a" using b m(1) assms(3) by auto
  then have "spans st b = Some nb" using m(4) b(1) by blast
  then have "MAX_PAGE_NUM < page_num sp + page_num nb" using assms(2) b m(2) unfolding blocked_def by simp
  with m(3) show "MAX_PAGE_NUM < page_num sp' + page_num nb" by linarith
qed

lemma merge_both_ok:
  assumes "rel_inv mapped a sp st"
  shows "\<exists>st1 sp2 st2. merge_left a st = Some (Inr st1) \<and> merge_right a st1 = Some (Inr st2) \<and>
    merged mapped a sp st sp2 st2 \<and> blocked (start_page_idx sp2 - 1) sp2 st2 \<and>
    blocked (start_page_idx sp2 + page_num sp2) sp2 st2"
proof -
  obtain sp1 st1 where l: "merge_left a st = Some (Inr st1)" "merged mapped a sp st sp1 st1"
    "blocked (start_page_idx sp1 - 1) sp1 st1" using merge_left_ok [OF assms] by blast
  have "rel_inv mapped a sp1 st1" using l(2) by (simp add: merged_def)
  then obtain sp2 st2 where r: "merge_right a st1 = Some (Inr st2)" "merged mapped a sp1 st1 sp2 st2"
    "blocked (start_page_idx sp2 + page_num sp2) sp2 st2" "start_page_idx sp2 = start_page_idx sp1"
    using merge_right_ok by blast
  have "spans_ok (spans st2)" "spans st2 a = Some sp2" using r(2) unfolding merged_def rel_inv_def by blast+
  then have "0 < start_page_idx sp2" unfolding spans_ok_def span_ok_def by blast
  then have "start_page_idx sp2 - 1 \<notin> pages_of sp2" by (auto simp: pages_of_def)
  then have "blocked (start_page_idx sp2 - 1) sp2 st2"
    using blocked_merged [OF r(2)] l(3) r(4) by simp
  then show ?thesis using l r merged_trans [OF l(2) r(2)] by blast
qed

lemma release_small_ok:
  assumes os: "kernel_ok os mapped" and inv: "pc_inv mapped st"
    and a: "spans st a = Some sp" "IsUsed sp" "page_num sp \<le> MAX_PAGE_NUM"
  shows "\<exists>st' sp'. ReleaseSpanLocked os a st = Some (Inr st') \<and> pc_inv mapped st' \<and>
    (\<forall>c sc. c \<noteq> a \<longrightarrow> spans st c = Some sc \<longrightarrow> IsUsed sc \<longrightarrow> spans st' c = Some sc) \<and>
    span_mem (spans st') = span_mem (spans st) \<and>
    spans st' a = Some sp' \<and> \<not> IsUsed sp' \<and> pages_of sp \<subseteq> pages_of sp' \<and>
    blocked (start_page_idx sp' - 1) sp' st' \<and> blocked (start_page_idx sp' + page_num sp') sp' st'"
proof -
  obtain st1 sp2 st2 where m: "merge_left a st = Some (Inr st1)" "merge_right a st1 = Some (Inr st2)"
    "merged mapped a sp st sp2 st2" "blocked (start_page_idx sp2 - 1) sp2 st2"
    "blocked (start_page_idx sp2 + page_num sp2) sp2 st2"
    using merge_both_ok [OF pc_inv_rel_inv [OF inv a]] by blast
  have r: "rel_inv mapped a sp2 st2" using m(3) by (simp add: merged_def)
  then have s2: "spans st2 a = Some sp2" "0 < start_page_idx sp2"
    unfolding rel_inv_def spans_ok_def span_ok_def by blast+
  obtain st' sp' where f: "release_finish os a st2 = Inr st'" "pc_inv mapped st'" "spans st' = (spans st2)(a \<mapsto> sp')"
    "same_pages sp2 sp'" "\<not> IsUsed sp'" "owner_shard_id sp' = owner_shard_id sp2"
    using release_finish_ok [OF os r] by blast
  have keep: "blocked q sp' st'" if "blocked q sp2 st2" "q \<notin> pages_of sp2" for q
    unfolding blocked_def
  proof (intro allI impI)
    fix b nb assume b: "spans st' b = Some nb" "q \<in> pages_of nb" "\<not> IsUsed nb" "owner_shard_id nb = owner_shard_id sp'"
    have "b \<noteq> a" using b(1,2) f(3) that(2) same_pages_of [OF f(4)] by auto
    then have "spans st2 b = Some nb" using b(1) f(3) by simp
    then show "MAX_PAGE_NUM < page_num sp' + page_num nb"
      using that(1) b(2-4) f(4,6) unfolding blocked_def same_pages_def by metis
  qed
  have "blocked (start_page_idx sp' - 1) sp' st'" "blocked (start_page_idx sp' + page_num sp') sp' st'"
    using keep [OF m(4)] keep [OF m(5)] f(4) s2(2) by (auto simp: same_pages_def pages_of_def)
  moreover have "span_mem (spans st') = span_mem (spans st)"
    using update_same(1) [of "spans st2", OF s2(1) f(4)] f(3) m(3) by (simp add: merged_def)
  moreover have "pages_of sp \<subseteq> pages_of sp'" using same_pages_of [OF f(4)] m(3) by (simp add: merged_def)
  moreover have "spans st' c = Some sc" if "c \<noteq> a" "spans st c = Some sc" "IsUsed sc" for c sc
  proof -
    have "spans st2 c = Some sc" using m(3) that unfolding merged_def by blast
    with that(1) f(3) show ?thesis by simp
  qed
  moreover have "ReleaseSpanLocked os a st = Some (Inr st')"
    using a m(1,2) f(1) by (simp add: ReleaseSpanLocked_def)
  moreover have "spans st' a = Some sp'" using f(3) by simp
  ultimately show ?thesis using f(2,5) by blast
qed

section \<open>Reset\<close>

lemma reset_list_ok:
  assumes os: "kernel_ok os mapped"
  shows "distinct as \<Longrightarrow> \<forall>a \<in> set as. spans st a \<noteq> None \<Longrightarrow> spans_ok (spans st) \<Longrightarrow>
    mem_inv mapped (span_mem (spans st)) (sys st) (span_pool st) (node_pool st) \<Longrightarrow>
    \<exists>st'. reset_list os as st = Inr st' \<and> spans st' = (spans st) |` (- set as) \<and>
      mem_inv mapped (span_mem (spans st')) (sys st') (span_pool st') (node_pool st') \<and>
      span_lists st' = span_lists st \<and> chunk_list (span_pool st') = chunk_list (span_pool st) \<and>
      node_pool st' = node_pool st \<and> pmap st' = pmap st \<and>
      (munmap_succeeds os \<longrightarrow>
         in_use mapped (sys st') = in_use mapped (sys st) - span_mem ((spans st) |` set as))"
proof (induction as arbitrary: st)
  case Nil
  show ?case using Nil.prems by (simp add: span_mem_def)
next
  case (Cons a as)
  obtain sp where a: "spans st a = Some sp" using Cons.prems(2) by auto
  have sp: "span_ok sp" using Cons.prems(3) a unfolding spans_ok_def by blast
  let ?g = "(spans st)(a := None)"
  let ?st = "pc_DeleteSpan a (pc_SystemFree os (GetPageBaseAddr sp) (page_num sp) st)"
  have base: "GetPageBaseAddr sp = start_page_idx sp * PAGE_SIZE"
    by (simp add: GetPageBaseAddr_def push_bit_eq_mult PAGE_SHIFT_def PAGE_SIZE_def)
  note R = remove_span [OF Cons.prems(3) a]
  have mem: "mem_inv mapped (span_mem ?g \<union> span_bytes sp) (sys st) (span_pool st) (node_pool st)"
    using Cons.prems(4) R(2) by simp
  have geo: "start_page_idx sp * PAGE_SIZE mod PAGE_SIZE = 0"
    "start_page_idx sp * PAGE_SIZE + page_num sp * PAGE_SIZE \<le> 2 ^ 47" "start_page_idx sp * PAGE_SIZE \<noteq> 0"
    using sp by (simp_all add: span_ok_def PAGE_SIZE_def)
  note M = mem_SystemFree [OF os mem span_bytes_def R(3) geo]
  have own: "pa_inv mapped (sys st)" "span_bytes sp \<subseteq> in_use mapped (sys st)" using mem by (auto simp: mem_inv_def)
  have s: "spans ?st = ?g" "span_lists ?st = span_lists st" "pmap ?st = pmap st" "node_pool ?st = node_pool st"
    "chunk_list (span_pool ?st) = chunk_list (span_pool st)" "span_pool ?st = Delete a (span_pool st)"
    "sys ?st = SystemFree os (start_page_idx sp * PAGE_SIZE) (page_num sp) (sys st)"
    by (simp_all add: pc_DeleteSpan_def pc_SystemFree_def base Delete_def)
  have pre: "distinct as" "\<forall>b \<in> set as. spans ?st b \<noteq> None" "spans_ok (spans ?st)"
    "mem_inv mapped (span_mem (spans ?st)) (sys ?st) (span_pool ?st) (node_pool ?st)"
    using Cons.prems R(1) M unfolding s mem_Delete by auto
  from Cons.IH [OF pre, unfolded s(1-5)] obtain st' where x: "reset_list os as ?st = Inr st'" "spans st' = ?g |` (- set as)"
      "mem_inv mapped (span_mem (spans st')) (sys st') (span_pool st') (node_pool st')"
      "span_lists st' = span_lists st" "chunk_list (span_pool st') = chunk_list (span_pool st)"
      "node_pool st' = node_pool st" "pmap st' = pmap st"
      "munmap_succeeds os \<longrightarrow> in_use mapped (sys st') = in_use mapped (sys ?st) - span_mem (?g |` set as)"
    by (elim exE conjE) (rule that)
  have split: "span_mem ((spans st) |` set (a # as)) = span_bytes sp \<union> span_mem (?g |` set as)"
  proof -
    have e: "?g |` set as = spans st |` set as" using Cons.prems(1) by (auto simp: restrict_map_def)
    have "ran (spans st |` set (a # as)) = insert sp (ran (spans st |` set as))"
      using a Cons.prems(1) by (auto simp: ran_def restrict_map_def split: if_splits)
    then show ?thesis unfolding e span_mem_def by simp
  qed
  have "in_use mapped (sys ?st) = in_use mapped (sys st) - span_bytes sp" if "munmap_succeeds os"
    using SystemFree_spec [OF os own(1) geo] own(2) that unfolding s free_spec_def span_bytes_def by blast
  then have "munmap_succeeds os \<longrightarrow>
      in_use mapped (sys st') = in_use mapped (sys st) - span_mem ((spans st) |` set (a # as))"
    unfolding split using x(8) by blast
  moreover have "spans st' = spans st |` (- set (a # as))"
    unfolding x(2) using Cons.prems(1) by (auto simp: restrict_map_def)
  moreover have "reset_list os (a # as) st = Inr st'" using a x(1) by simp
  ultimately show ?case using x(3-7) by (intro exI [of _ st']) simp
qed


lemma distinct_concat_nth:
  assumes "\<And>i. i < length ls \<Longrightarrow> distinct (ls ! i)"
    and "\<And>i j. i < j \<Longrightarrow> j < length ls \<Longrightarrow> set (ls ! i) \<inter> set (ls ! j) = {}"
  shows "distinct (concat ls)"
  using assms
proof (induction ls)
  case (Cons x xs)
  have "distinct (concat xs)"
    using Cons.prems(1) [of "Suc _"] Cons.prems(2) [of "Suc _" "Suc _"] by (intro Cons.IH) simp_all
  moreover have "set x \<inter> set (concat xs) = {}"
    using Cons.prems(2) [of 0 "Suc _"] by (fastforce simp: in_set_conv_nth disjoint_iff)
  ultimately show ?case using Cons.prems(1) [of 0] by simp
qed simp

lemma free_lists_set:
  assumes ok: "lists_ok f ls" and sp: "spans_ok f"
  shows "distinct (concat ls)" and "set (concat ls) = {a. is_free f a}"
proof -
  have len: "length ls = MAX_PAGE_NUM + 1" using ok by (simp add: lists_ok_def)
  have mem: "a \<in> set (ls ! i) \<longleftrightarrow> (\<exists>sp. f a = Some sp \<and> \<not> IsUsed sp \<and> page_num sp = i)" if "i < length ls" for a i
    using ok that len unfolding lists_ok_def by simp
  show "distinct (concat ls)"
  proof (rule distinct_concat_nth)
    show "distinct (ls ! i)" if "i < length ls" for i using ok that len by (simp add: lists_ok_def)
    show "set (ls ! i) \<inter> set (ls ! j) = {}" if "i < j" "j < length ls" for i j
      using mem [of i] mem [of j] that by auto
  qed
  have "a \<in> set (concat ls) \<longleftrightarrow> (\<exists>i < length ls. a \<in> set (ls ! i))" for a
    by simp (metis in_set_conv_nth)
  moreover have "(\<exists>i < length ls. a \<in> set (ls ! i)) \<longleftrightarrow> is_free f a" for a
  proof
    show "is_free f a" if "\<exists>i < length ls. a \<in> set (ls ! i)" using that mem by (auto simp: is_free_def)
    assume "is_free f a"
    then obtain s where s: "f a = Some s" "\<not> IsUsed s" by (auto simp: is_free_def)
    then have "page_num s \<le> MAX_PAGE_NUM" using sp unfolding spans_ok_def span_ok_def by blast
    then show "\<exists>i < length ls. a \<in> set (ls ! i)" using mem s len by (intro exI [of _ "page_num s"]) simp
  qed
  ultimately show "set (concat ls) = {a. is_free f a}" by blast
qed

lemma release_pool:
  assumes os: "kernel_ok os mapped" and s: "pa_inv mapped s" "pool_mem pool \<subseteq> in_use mapped s" "chunks_ok (chunk_list pool)"
    and r: "ReleaseMemory os pool s = (pool', s')"
  shows "pool' = ObjectPool_ctor" and "pa_inv mapped s'" and "in_use mapped s - pool_mem pool \<subseteq> in_use mapped s'"
    and "munmap_succeeds os \<Longrightarrow> in_use mapped s' = in_use mapped s - pool_mem pool"
  using release_chunks [OF os s(3,1,2)] r by (auto simp: ReleaseMemory_def ObjectPool_ctor_def)

lemma PageMap_Reset_ctor: "PageMap_Reset os (PageCache_ctor s) = PageCache_ctor s"
  by (simp add: PageMap_Reset_def PageCache_ctor_def ReleaseMemory_def ObjectPool_ctor_def Reset_def)

lemma ResetLocked_ok:
  assumes os: "kernel_ok os mapped" and inv: "pc_inv mapped st"
  shows "\<exists>s. ResetLocked os st = Inr (PageCache_ctor s) \<and> pa_inv mapped s \<and>
    (munmap_succeeds os \<longrightarrow> in_use mapped s = in_use mapped (sys st) -
       (span_mem ((spans st) |` {a. is_free (spans st) a}) \<union> pool_mem (span_pool st) \<union> pool_mem (node_pool st)))"
proof -
  note iv = inv [unfolded pc_inv_def]
  note L = free_lists_set [of "spans st" "span_lists st"]
  have L: "distinct (concat (span_lists st))" "set (concat (span_lists st)) = {a. is_free (spans st) a}"
    using iv free_lists_set by blast+
  then have "\<forall>a \<in> set (concat (span_lists st)). spans st a \<noteq> None" by (auto simp: is_free_def)
  moreover have "spans_ok (spans st)" "mem_inv mapped (span_mem (spans st)) (sys st) (span_pool st) (node_pool st)"
    using iv by blast+
  ultimately obtain st1 where x: "reset_list os (concat (span_lists st)) st = Inr st1"
      "mem_inv mapped (span_mem (spans st1)) (sys st1) (span_pool st1) (node_pool st1)"
      "chunk_list (span_pool st1) = chunk_list (span_pool st)" "node_pool st1 = node_pool st"
      "munmap_succeeds os \<longrightarrow> in_use mapped (sys st1) =
         in_use mapped (sys st) - span_mem ((spans st) |` set (concat (span_lists st)))"
    using reset_list_ok [OF os L(1)] by blast
  have m: "pa_inv mapped (sys st1)" "pool_mem (span_pool st) \<subseteq> in_use mapped (sys st1)"
    "pool_mem (node_pool st) \<subseteq> in_use mapped (sys st1)" "pool_mem (span_pool st) \<inter> pool_mem (node_pool st) = {}"
    using x(2-4) by (auto simp: mem_inv_def)
  have ch: "chunks_ok (chunk_list (span_pool st))" "chunks_ok (chunk_list (node_pool st))"
    using iv by (auto simp: mem_inv_def pool_wf_def)
  obtain p1 s1 where r1: "ReleaseMemory os (span_pool st1) (sys st1) = (p1, s1)" by (rule prod.exhaust)
  note R1 = release_pool [OF os m(1) _ _ r1, unfolded x(3), OF m(2) ch(1)]
  obtain p2 s2 where r2: "ReleaseMemory os (node_pool st) s1 = (p2, s2)" by (rule prod.exhaust)
  have "pool_mem (node_pool st) \<subseteq> in_use mapped s1" using R1(3) m(3,4) by blast
  note R2 = release_pool [OF os R1(2) this ch(2) r2]
  have len: "map (\<lambda>_. []) (span_lists st) = replicate (MAX_PAGE_NUM + 1) ([] :: addr list)"
    using iv by (simp add: lists_ok_def map_replicate_const)
  have "ResetLocked os st = Inr (PageCache_ctor s2)"
    using x(1,4) r1 r2 R1(1) R2(1)
    by (simp add: ResetLocked_def PageMap_Reset_def PageCache_ctor_def Reset_def len)
  moreover have "munmap_succeeds os \<longrightarrow> in_use mapped s2 = in_use mapped (sys st) -
       (span_mem ((spans st) |` {a. is_free (spans st) a}) \<union> pool_mem (span_pool st) \<union> pool_mem (node_pool st))"
    using x(5) R1(4) R2(4) L(2) by auto
  ultimately show ?thesis using R2(2) by blast
qed

section \<open>A run on the witness kernel\<close>

definition room :: "nat \<Rightarrow> bump_kernel pa \<Rightarrow> bool" where
  "room N st \<longleftrightarrow> (case kernel st of (x, m) \<Rightarrow>
     x \<noteq> 0 \<and> x mod PAGE_SIZE = 0 \<and> x + N * PAGE_SIZE \<le> 2 ^ 47 \<and> (\<forall>y \<in> m. y < x))"

lemma room_mono: "room N st \<Longrightarrow> M \<le> N \<Longrightarrow> room M st"
  by (auto simp: room_def PAGE_SIZE_def)

lemma kernel_tally: "kernel (tally f st) = kernel st"
  by (simp add: tally_def)

lemma room_SystemAlloc:
  assumes "room (n + N) st" and "0 < n" and "n < 256"
  shows "\<exists>p st'. SystemAlloc bump_os n st = (Some p, st') \<and> room N st'"
proof -
  obtain x m where k: "kernel st = (x, m)" by (rule prod.exhaust)
  let ?n = "n * PAGE_SIZE"
  have r: "x \<noteq> 0" "x mod PAGE_SIZE = 0" "x + ?n + N * PAGE_SIZE \<le> 2 ^ 47" "\<forall>y \<in> m. y < x"
    using assms(1) k by (simp_all add: room_def PAGE_SIZE_def algebra_simps)
  have "bytes x ?n \<inter> m = {}" using r(4) by (auto simp: bytes_def)
  then have mm: "mmap bump_os ?n b (x, m) = (Inr x, (x + ?n, m \<union> bytes x ?n))" for b
    using r by (simp add: bump_os_def)
  let ?t = "tally (normal_alloc_count_update (\<lambda>x. x + 1)) st"
  have "AllocWithRetry bump_os ?n b ?t = (Some x, ?t\<lparr>kernel := (x + ?n, m \<union> bytes x ?n)\<rparr>)" for b
    by (rule AllocWithRetry_first) (simp add: k mm kernel_tally)
  moreover have "\<not> (n = 0 \<or> n > drop_bit PAGE_SHIFT SIZE_MAX)" "?n < drop_bit 1 HUGE_PAGE_SIZE"
    using assms(2,3) by (simp_all add: PAGE_SHIFT_def PAGE_SIZE_def HUGE_PAGE_SIZE_def drop_bit_eq_div)
  ultimately obtain st' where s: "SystemAlloc bump_os n st = (Some x, st')" "kernel st' = (x + ?n, m \<union> bytes x ?n)"
    by (simp add: SystemAlloc_def page_bytes AllocNormalPage_def count_failed_def Let_def kernel_tally)
  moreover have "room N st'"
    using r s(2) by (auto simp: room_def bytes_def PAGE_SIZE_def)
  ultimately show ?thesis by blast
qed

lemma room_New:
  assumes "room (chunk_pages t + N) st" and "0 < chunk_pages t" and "chunk_pages t < 256"
  shows "\<exists>a pool' st'. New bump_os t pool st = (Some a, pool', st') \<and> room N st'"
proof -
  have r: "room N st" using room_mono [OF assms(1)] by simp
  obtain p st1 where a: "SystemAlloc bump_os (chunk_pages t) st = (Some p, st1)" "room N st1"
    using room_SystemAlloc [OF assms] by blast
  show ?thesis using r a by (auto simp: New_def carve_def split: list.splits)
qed

lemma chunk_pages_eqs: "chunk_pages span_pool_type = 17" "chunk_pages radix_pool_type = 18"
  by (simp_all add: chunk_pages_def span_pool_type_def radix_pool_type_def chunk_header_bytes_def PAGE_SHIFT_def
      PAGE_SIZE_def drop_bit_eq_div)

lemma room_provides: "room (18 * k) (snd p) \<Longrightarrow> provides (new_node bump_os) k p"
proof (induction k arbitrary: p)
  case (Suc k)
  have "room (chunk_pages radix_pool_type + 18 * k) (snd p)" using Suc.prems by (simp add: chunk_pages_eqs)
  from room_New [OF this, of "fst p"] obtain a pool' st' where
    n: "New bump_os radix_pool_type (fst p) (snd p) = (Some a, pool', st')" "room (18 * k) st'"
    by (auto simp: chunk_pages_eqs)
  then show ?case using Suc.IH [of "(pool', st')"] by (simp add: new_node_def)
qed simp

lemma room_boot: "room 10000 boot"
  by (simp add: room_def kernel_boot HUGE_PAGE_SIZE_def PAGE_SIZE_def)

lemma pa_inv_fresh: "cache s = HugePageCache_ctor \<Longrightarrow> pa_inv mapped s"
  unfolding pa_inv_def using hp_wf_ctor by (auto simp: cached_bytes_def)

lemma pc_inv_ctor: "pa_inv mapped s \<Longrightarrow> pc_inv mapped (PageCache_ctor s)"
proof -
  assume inv: "pa_inv mapped s"
  have "pool_wf radix_pool_type {} ObjectPool_ctor" "pool_wf span_pool_type {} ObjectPool_ctor" by (rule pool_wf_ctor)+
  then show ?thesis
    unfolding pc_inv_def mem_inv_def using inv
    by (auto simp: PageCache_ctor_def ObjectPool_ctor_def span_mem_def spans_ok_def lists_ok_def map_ok_def GetSpan_def
      simp del: replicate_Suc)
qed

lemma pc_inv_boot: "pc_inv snd (PageCache_ctor boot)"
  by (rule pc_inv_ctor [OF pa_inv_boot])

lemma refill_demo:
  assumes room: "room 9800 s0" and inv: "pc_inv snd (PageCache_ctor s0)"
  shows "\<exists>st1. alloc_refill bump_os (PageCache_ctor s0) = Inr st1"
proof -
  let ?st = "PageCache_ctor s0"
  have f: "sys ?st = s0" "span_pool ?st = ObjectPool_ctor" by (simp_all add: PageCache_ctor_def)
  have "room (MAX_PAGE_NUM + 9000) s0" using room_mono [OF room] by (simp add: MAX_PAGE_NUM_def)
  then obtain ptr s where a: "SystemAlloc bump_os MAX_PAGE_NUM s0 = (Some ptr, s)" "room 9000 s"
    using room_SystemAlloc [of MAX_PAGE_NUM 9000 s0] by (auto simp: MAX_PAGE_NUM_def)
  have "room (chunk_pages span_pool_type + 8000) s" using room_mono [OF a(2)] by (simp add: chunk_pages_eqs)
  then obtain x pool s1 where n: "New bump_os span_pool_type ObjectPool_ctor s = (Some x, pool, s1)" "room 8000 s1"
    using room_New [of span_pool_type 8000 s ObjectPool_ctor] by (auto simp: chunk_pages_eqs)
  define st1 where "st1 = ?st\<lparr>sys := s, span_pool := pool, sys := s1,
    spans := (spans ?st)(x \<mapsto> new_span (PtrToPageId ptr) MAX_PAGE_NUM)\<rparr>"
  have new: "pc_NewSpan bump_os (PtrToPageId ptr) MAX_PAGE_NUM (?st\<lparr>sys := s\<rparr>) = (Some x, st1)"
    using n(1) by (simp add: pc_NewSpan_def f st1_def)
  have a': "SystemAlloc bump_os MAX_PAGE_NUM (sys ?st) = (Some ptr, s)" using a(1) f by simp
  note G = grow_ok [OF kernel_ok_bump inv a' new]
  note F = fresh_pages [OF G(7-9)]
  have clock: "GetCurrentTimeMs bump_os st1 = (0, st1)" by (simp add: GetCurrentTimeMs_def bump_os_def)
  let ?u = "\<lambda>sp. (SetCommitted True (SetUsed False sp))\<lparr>last_used_time_ms := 0, owner_shard_id := 0\<rparr>"
  let ?st3 = "list_push_front MAX_PAGE_NUM x (pc_update x ?u st1)"
  have s3: "spans ?st3 x = Some (?u (new_span (PtrToPageId ptr) MAX_PAGE_NUM))" "sys ?st3 = s1"
    by (simp_all add: list_push_front_def pc_update_def st1_def)
  let ?p = "PtrToPageId ptr"
  define d where "d = (?p + MAX_PAGE_NUM + 511) div 512 - ?p div 512"
  have "(?p + MAX_PAGE_NUM + 511) div 512 \<le> (?p + 2 * 512) div 512" by (intro div_le_mono) (simp add: MAX_PAGE_NUM_def)
  also have "\<dots> = ?p div 512 + 2" by simp
  finally have "d \<le> 2" by (simp add: d_def)
  then have "room (18 * (3 * d)) s1" by (intro room_mono [OF n(2)]) simp
  then have pv: "provides (new_node bump_os) (3 * d) (node_pool ?st3, sys ?st3)"
    by (intro room_provides) (simp add: s3(2))
  have le: "?p + MAX_PAGE_NUM \<le> 2 ^ 36" using F(2) by simp
  obtain m k where "SetSpan (new_node bump_os) x ?p MAX_PAGE_NUM (pmap ?st3) (node_pool ?st3, sys ?st3) = Inr (m, k)"
    using SetSpan_total [OF le pv [unfolded d_def], of x "pmap ?st3"] by blast
  then obtain st4 where "pc_SetSpan bump_os x ?st3 = Inr st4"
    using s3(1) by (cases k) (simp add: pc_SetSpan_def)
  then show ?thesis unfolding alloc_refill_def a' prod.case option.case new Let_def clock by simp
qed

lemma AllocSpan_room:
  assumes room: "room 9800 s0" and inv: "pc_inv snd (PageCache_ctor s0)"
  shows "\<exists>a st' sp. AllocSpan bump_os 128 (PageCache_ctor s0) = Some (Inr (Some a, st')) \<and> pc_inv snd st' \<and>
     spans st' a = Some sp \<and> IsUsed sp \<and> page_num sp = 128"
proof -
  let ?st = "PageCache_ctor s0"
  obtain st1 where r: "alloc_refill bump_os ?st = Inr st1" using refill_demo [OF room inv] by blast
  have s1: "pc_inv snd st1" "span_lists st1 ! MAX_PAGE_NUM \<noteq> []"
    using alloc_refill_ok [OF kernel_ok_bump inv, of 128] r by simp_all
  have empty: "span_lists ?st ! i = []" if "i \<le> MAX_PAGE_NUM" for i
    using that by (simp add: PageCache_ctor_def del: replicate_Suc)
  have "split_bucket 128 ?st = None" by (simp add: split_bucket_def MAX_PAGE_NUM_def)
  then have "alloc_step bump_os 128 ?st = Inr st1" using r empty [of 128] by (simp add: alloc_step_def MAX_PAGE_NUM_def)
  moreover obtain sp where "spans st1 (hd (span_lists st1 ! MAX_PAGE_NUM)) = Some sp"
    using lists_hd [OF _ _ s1(2), of "spans st1"] s1(1) by (auto simp: pc_inv_def)
  then have "\<exists>a st2. alloc_step bump_os 128 st1 = Inl (Inr (Some a, st2))"
    using s1(2) by (simp add: alloc_step_def alloc_exact_def MAX_PAGE_NUM_def Let_def)
  ultimately obtain a st2 where "AllocSpan_loop bump_os 128 ?st = Some (Inr (Some a, st2))"
    by (auto simp: AllocSpan_loop.simps [of _ _ ?st] AllocSpan_loop.simps [of _ _ st1])
  then have "\<exists>a st'. AllocSpan bump_os 128 ?st = Some (Inr (Some a, st'))"
    by (simp add: AllocSpan_def AllocSpanLocked_def)
  with AllocSpan_ok [OF kernel_ok_bump inv, of 128] show ?thesis by auto
qed

lemma AllocSpan_demo:
  "\<exists>a st' sp. AllocSpan bump_os 128 (PageCache_ctor boot) = Some (Inr (Some a, st')) \<and> pc_inv snd st' \<and>
     spans st' a = Some sp \<and> IsUsed sp \<and> page_num sp = 128"
  by (rule AllocSpan_room [OF room_mono [OF room_boot] pc_inv_boot]) simp

section \<open>Properties\<close>

text \<open>
  C5: \<open>AllocSpan\<close> always returns, in any state of the cache and for any page count.  It keeps the
  page cache invariant and every span in use; a returned span is in use, has exactly the
  requested pages, is what the page map names on each of its pages, and shares no byte with any
  span that was in use.  The only exception is the \<open>bad_alloc\<close> of the page map.
\<close>

theorem alloc_span_correct:
  assumes "kernel_ok os mapped" and "pc_inv mapped st"
  shows "\<exists>res. AllocSpan os n st = Some res \<and>
    (case res of
       Inl e \<Rightarrow> e = Exn BadAlloc
     | Inr (r, st') \<Rightarrow> pc_inv mapped st' \<and>
         (\<forall>b sb. spans st b = Some sb \<and> IsUsed sb \<longrightarrow> spans st' b = Some sb) \<and>
         (\<forall>a. r = Some a \<longrightarrow>
           (\<exists>sp. spans st' a = Some sp \<and> IsUsed sp \<and> page_num sp = n \<and> aligned_obj_size sp = 0 \<and>
              (\<forall>q. q \<in> pages_of sp \<longrightarrow> GetSpan (pmap st') q = Some a) \<and>
              (\<forall>b sb. spans st b = Some sb \<and> IsUsed sb \<longrightarrow> b \<noteq> a \<and> span_bytes sb \<inter> span_bytes sp = {}))))"
proof -
  obtain res where r: "AllocSpan os n st = Some res"
    and post: "case res of Inl e \<Rightarrow> e = Exn BadAlloc
     | Inr (r, st') \<Rightarrow> pc_inv mapped st' \<and> keeps_used st st' \<and>
         (\<forall>a. r = Some a \<longrightarrow> (\<exists>sp. spans st' a = Some sp \<and> IsUsed sp \<and> page_num sp = n \<and>
             owner_shard_id sp = 0 \<and> aligned_obj_size sp = 0) \<and>
           (\<forall>sb. spans st a = Some sb \<longrightarrow> \<not> IsUsed sb))"
    using AllocSpan_ok [OF assms, of n] by blast
  show ?thesis
  proof (cases res)
    case (Inl e)
    then show ?thesis using r post by simp
  next
    case (Inr p)
    obtain x st' where p: "p = (x, st')" by (rule prod.exhaust)
    note P = post [unfolded Inr p sum.case prod.case]
    have keep: "spans st' b = Some sb" if "spans st b = Some sb" "IsUsed sb" for b sb
      using P that unfolding keeps_used_def by blast
    have new: "\<exists>sp. spans st' a = Some sp \<and> IsUsed sp \<and> page_num sp = n \<and> aligned_obj_size sp = 0 \<and>
        (\<forall>q. q \<in> pages_of sp \<longrightarrow> GetSpan (pmap st') q = Some a) \<and>
        (\<forall>b sb. spans st b = Some sb \<and> IsUsed sb \<longrightarrow> b \<noteq> a \<and> span_bytes sb \<inter> span_bytes sp = {})" if xa: "x = Some a" for a
    proof -
      obtain sp where sp: "spans st' a = Some sp" "IsUsed sp" "page_num sp = n" "aligned_obj_size sp = 0" using P xa by blast
      have "GetSpan (pmap st') q = Some a" if "q \<in> pages_of sp" for q
        using P sp(1) that unfolding pc_inv_def map_ok_def by blast
      moreover have "b \<noteq> a \<and> span_bytes sb \<inter> span_bytes sp = {}" if b: "spans st b = Some sb" "IsUsed sb" for b sb
      proof -
        have ne: "b \<noteq> a" using P b xa by blast
        then have "pages_of sb \<inter> pages_of sp = {}"
          using P keep [OF b] sp(1) unfolding pc_inv_def spans_ok_def by blast
        with ne show ?thesis by (auto simp: span_bytes_iff)
      qed
      ultimately show ?thesis using sp by blast
    qed
    have "pc_inv mapped st'" using P by blast
    with keep new show ?thesis unfolding r Inr p by simp
  qed
qed

theorem alloc_span_correct_witness:
  "\<exists>a st' sp. AllocSpan bump_os 128 (PageCache_ctor boot) = Some (Inr (Some a, st')) \<and> pc_inv snd st' \<and>
     spans st' a = Some sp \<and> page_num sp = 128 \<and> IsUsed sp"
  using alloc_span_correct [OF kernel_ok_bump pc_inv_boot, of 128] AllocSpan_demo by auto

text \<open>
  C6: \<open>ReleaseSpan\<close> of a span of at most 128 pages ends without an exception: the merge loops
  terminate, the rewriting of the page map never needs memory, the invariant holds again, no page
  is lost, all other spans in use are untouched, and the released pages belong to a free span
  that cannot be merged further with a free neighbour of its shard.
\<close>

theorem release_span_coalesces:
  assumes "kernel_ok os mapped" and "pc_inv mapped st"
    and "spans st a = Some sp" and "IsUsed sp" and "page_num sp \<le> MAX_PAGE_NUM"
  shows "\<exists>st' sp'. ReleaseSpan os a st = Some (Inr st') \<and> pc_inv mapped st' \<and>
    (\<forall>c sc. c \<noteq> a \<longrightarrow> spans st c = Some sc \<longrightarrow> IsUsed sc \<longrightarrow> spans st' c = Some sc) \<and>
    span_mem (spans st') = span_mem (spans st) \<and>
    spans st' a = Some sp' \<and> \<not> IsUsed sp' \<and> pages_of sp \<subseteq> pages_of sp' \<and>
    blocked (start_page_idx sp' - 1) sp' st' \<and> blocked (start_page_idx sp' + page_num sp') sp' st'"
  unfolding ReleaseSpan_def by (rule release_small_ok [OF assms])

theorem release_span_coalesces_witness:
  "\<exists>a st st' sp'. AllocSpan bump_os 128 (PageCache_ctor boot) = Some (Inr (Some a, st)) \<and>
     ReleaseSpan bump_os a st = Some (Inr st') \<and> pc_inv snd st' \<and> spans st' a = Some sp' \<and> \<not> IsUsed sp'"
proof -
  obtain a st sp where s: "AllocSpan bump_os 128 (PageCache_ctor boot) = Some (Inr (Some a, st))" "pc_inv snd st"
    "spans st a = Some sp" "IsUsed sp" "page_num sp = 128" using AllocSpan_demo by blast
  have "page_num sp \<le> MAX_PAGE_NUM" using s(5) by (simp add: MAX_PAGE_NUM_def)
  from release_span_coalesces [OF kernel_ok_bump s(2-4) this] s(1) show ?thesis by blast
qed

text \<open>
  C31: \<open>Reset\<close> of the page cache always succeeds and gives the freshly constructed cache; when
  \<open>munmap\<close> does not fail, the memory that it returns is exactly that of the free spans and of
  both metadata pools.
\<close>

theorem page_cache_reset:
  assumes "kernel_ok os mapped" and "pc_inv mapped st"
  shows "\<exists>s. PageCache_Reset os st = Inr (PageCache_ctor s) \<and> pa_inv mapped s \<and>
    (munmap_succeeds os \<longrightarrow> in_use mapped s = in_use mapped (sys st) -
       (span_mem ((spans st) |` {a. is_free (spans st) a}) \<union> pool_mem (span_pool st) \<union> pool_mem (node_pool st)))"
  unfolding PageCache_Reset_def using ResetLocked_ok [OF assms] by (auto simp: PageMap_Reset_ctor)

theorem page_cache_reset_witness:
  "\<exists>a st s. AllocSpan bump_os 128 (PageCache_ctor boot) = Some (Inr (Some a, st)) \<and>
     PageCache_Reset bump_os st = Inr (PageCache_ctor s) \<and> pa_inv snd s"
  using page_cache_reset [OF kernel_ok_bump] AllocSpan_demo by blast

end
