(* ===== verification/Central_Cache.thy ===== *)
theory Central_Cache
  imports Page_Cache_Release
begin

text \<open>
  \<open>CentralCache\<close> of \<open>central_cache.h\<close> and \<open>central_cache.cpp\<close>.  A bucket holds the prefix of its
  TransferCache array that is in use, its capacity and base address, and the span list as the
  sequence of span addresses.  Chains of free objects are sequences of addresses (the
  representation that \<open>Free_List\<close> implements).  Each call runs to its end before the next one
  starts; whether the \<open>unique_lock\<close> of \<open>FetchRange\<close> owns the mutex is part of the model, because
  \<open>GetOneSpan\<close> gives it up on failure.
\<close>

section \<open>State\<close>

text \<open>
  \<open>LockNotOwned\<close> is the \<open>std::system_error\<close> of \<open>unique_lock::unlock\<close> on a lock that does not own
  its mutex, \<open>BadObject\<close> an access outside of a span bitmap, \<open>Aborted\<close> the call of \<open>std::abort\<close>.
\<close>

datatype cc_error = InPageCache pc_error | LockNotOwned | BadObject | Aborted

record bucket =
  transfer_cache :: "addr list"
  transfer_cache_capacity :: nat
  transfer_cache_base :: addr
  span_list :: "addr list"

record 'k cc =
  page_cache :: "'k pc"
  buckets :: "bucket list"

definition kCapScale :: nat where [config_defs]: "kCapScale = 8"

definition update_bucket :: "nat \<Rightarrow> (bucket \<Rightarrow> bucket) \<Rightarrow> 'k cc \<Rightarrow> 'k cc" where
  "update_bucket i f st = st\<lparr>buckets := (buckets st)[i := f (buckets st ! i)]\<rparr>"

definition put_span :: "addr \<Rightarrow> span \<Rightarrow> 'k cc \<Rightarrow> 'k cc" where
  "put_span a sp st = st\<lparr>page_cache := pc_update a (\<lambda>_. sp) (page_cache st)\<rparr>"

section \<open>InitTransferCache\<close>

text \<open>\<open>total_ptrs\<close> and the page count that both \<open>InitTransferCache\<close> and \<open>Reset\<close> compute.\<close>

definition transfer_cache_pages :: nat where
  "transfer_cache_pages =
     (let total_ptrs = sum_list (map (\<lambda>i. kCapScale * CalculateBatchSize (Size i)) [0..<kNumSizeClasses]);
          total_bytes = total_ptrs * 8
      in drop_bit PAGE_SHIFT (total_bytes + PAGE_SIZE - 1))"

primrec slice_buckets :: "nat \<Rightarrow> nat list \<Rightarrow> bucket list \<Rightarrow> bucket list" where
  "slice_buckets cur_ptr [] bs = bs"
| "slice_buckets cur_ptr (i # is) bs =
     (let cap = CalculateBatchSize (Size i) * kCapScale
      in slice_buckets (cur_ptr + cap * 8) is
           (bs[i := (bs ! i)\<lparr>transfer_cache_capacity := cap, transfer_cache_base := cur_ptr\<rparr>]))"

definition InitTransferCache :: "'k os \<Rightarrow> 'k cc \<Rightarrow> cc_error + 'k cc" where
  "InitTransferCache os st =
     (case SystemAlloc os transfer_cache_pages (sys (page_cache st)) of
        (None, s) \<Rightarrow> Inl Aborted
      | (Some p, s) \<Rightarrow>
          Inr (st\<lparr>page_cache := (page_cache st)\<lparr>sys := s\<rparr>,
                  buckets := slice_buckets p [0..<kNumSizeClasses] (buckets st)\<rparr>))"

definition empty_bucket :: bucket where
  "empty_bucket = \<lparr>transfer_cache = [], transfer_cache_capacity = 0, transfer_cache_base = 0, span_list = []\<rparr>"

definition CentralCache_ctor :: "'k os \<Rightarrow> 'k pc \<Rightarrow> cc_error + 'k cc" where
  "CentralCache_ctor os p =
     InitTransferCache os \<lparr>page_cache = p, buckets = replicate kNumSizeClasses empty_bucket\<rparr>"

section \<open>GetOneSpan\<close>

text \<open>The flag is true when a span was obtained, and then the lock is owned again.\<close>

definition GetOneSpan :: "'k os \<Rightarrow> nat \<Rightarrow> nat \<Rightarrow> 'k cc \<Rightarrow> (cc_error + bool \<times> 'k cc) option" where
  "GetOneSpan os idx aligned_size st =
     (case AllocSpan os (GetMovePageNum aligned_size) (page_cache st) of
        None \<Rightarrow> None
      | Some (Inl e) \<Rightarrow> Some (Inl (InPageCache e))
      | Some (Inr (None, p)) \<Rightarrow> Some (Inr (False, st\<lparr>page_cache := p\<rparr>))
      | Some (Inr (Some a, p)) \<Rightarrow>
          (case spans p a of
             None \<Rightarrow> Some (Inl (InPageCache Dangling))
           | Some sp \<Rightarrow>
               (case Init aligned_size sp of
                  None \<Rightarrow> Some (Inl BadObject)
                | Some sp' \<Rightarrow> Some (Inr (True,
                    update_bucket idx (\<lambda>b. b\<lparr>span_list := a # span_list b\<rparr>)
                      (put_span a sp' (st\<lparr>page_cache := p\<rparr>)))))))"

section \<open>ReleaseListToSpans\<close>

text \<open>The loop that fills the TransferCache; the second component are the pointers that did not fit.\<close>

primrec transfer_push :: "addr list \<Rightarrow> bucket \<Rightarrow> bucket \<times> addr list" where
  "transfer_push [] b = (b, [])"
| "transfer_push (p # ps) b =
     (if length (transfer_cache b) < transfer_cache_capacity b
      then transfer_push ps (b\<lparr>transfer_cache := transfer_cache b @ [p]\<rparr>)
      else (b, p # ps))"

definition release_object :: "'k os \<Rightarrow> nat \<Rightarrow> addr \<Rightarrow> 'k cc \<Rightarrow> (cc_error + 'k cc) option" where
  "release_object os idx obj st =
     (case GetSpan_ptr (pmap (page_cache st)) obj of
        None \<Rightarrow> Some (Inr st)
      | Some a \<Rightarrow>
          (case spans (page_cache st) a of
             None \<Rightarrow> Some (Inl (InPageCache Dangling))
           | Some sp \<Rightarrow>
               (case FreeObject obj sp of
                  None \<Rightarrow> Some (Inl BadObject)
                | Some sp' \<Rightarrow>
                    let st1 = put_span a sp' st;
                        st2 = (if use_count sp' = (capacity sp' + 2 ^ 32 - 1) mod 2 ^ 32
                               then update_bucket idx (\<lambda>b. b\<lparr>span_list := a # remove1 a (span_list b)\<rparr>) st1
                               else st1)
                    in if use_count sp' = 0 then
                         let st3 = update_bucket idx (\<lambda>b. b\<lparr>span_list := remove1 a (span_list b)\<rparr>) st2
                         in map_option (map_sum InPageCache (\<lambda>p. st3\<lparr>page_cache := p\<rparr>))
                              (ReleaseSpan os a (page_cache st3))
                       else Some (Inr st2))))"

primrec release_objects :: "'k os \<Rightarrow> nat \<Rightarrow> addr list \<Rightarrow> 'k cc \<Rightarrow> (cc_error + 'k cc) option" where
  "release_objects os idx [] st = Some (Inr st)"
| "release_objects os idx (obj # objs) st =
     (case release_object os idx obj st of
        None \<Rightarrow> None
      | Some (Inl e) \<Rightarrow> Some (Inl e)
      | Some (Inr st') \<Rightarrow> release_objects os idx objs st')"

text \<open>One iteration of the outer loop, on a batch of at most \<open>kMaxBatchSize\<close> objects.\<close>

definition release_batch :: "'k os \<Rightarrow> nat \<Rightarrow> addr list \<Rightarrow> 'k cc \<Rightarrow> (cc_error + 'k cc) option" where
  "release_batch os idx local_ptrs st =
     (case transfer_push local_ptrs (buckets st ! idx) of
        (b, rest) \<Rightarrow> release_objects os idx rest (update_bucket idx (\<lambda>_. b) st))"

function ReleaseListToSpans :: "'k os \<Rightarrow> addr list \<Rightarrow> nat \<Rightarrow> 'k cc \<Rightarrow> (cc_error + 'k cc) option" where
  "ReleaseListToSpans os start aligned_size st =
     (if start = [] then Some (Inr st)
      else case release_batch os (Index aligned_size) (take kMaxBatchSize start) st of
        None \<Rightarrow> None
      | Some (Inl e) \<Rightarrow> Some (Inl e)
      | Some (Inr st') \<Rightarrow> ReleaseListToSpans os (drop kMaxBatchSize start) aligned_size st')"
  by pat_completeness auto
termination
  by (relation "measure (\<lambda>(os, start, sz, st). length start)") (auto simp: kMaxBatchSize_def)

declare ReleaseListToSpans.simps [simp del]

section \<open>FetchRange\<close>

text \<open>
  What \<open>FetchRange\<close> has collected: how many objects the thread still needs, the chain for the
  thread, and the prefetched objects in order.
\<close>

type_synonym fetch = "nat \<times> addr list \<times> addr list"

definition collect :: "addr \<Rightarrow> fetch \<Rightarrow> fetch" where
  "collect obj acc =
     (case acc of (need, chn, pre) \<Rightarrow>
        if 0 < need then (need - 1, obj # chn, pre) else (need, chn, pre @ [obj]))"

text \<open>The inner loop on the span \<open>a\<close>; \<open>k\<close> is \<open>total_to_extract - total_extracted\<close>.\<close>

primrec extract_objects :: "nat \<Rightarrow> nat \<Rightarrow> addr \<Rightarrow> fetch \<Rightarrow> 'k cc \<Rightarrow> cc_error + nat \<times> fetch \<times> 'k cc" where
  "extract_objects 0 idx a acc st = Inr (0, acc, st)"
| "extract_objects (Suc k) idx a acc st =
     (case spans (page_cache st) a of
        None \<Rightarrow> Inl (InPageCache Dangling)
      | Some sp \<Rightarrow>
          (case AllocObject sp of
             None \<Rightarrow> Inl BadObject
           | Some (sp', None) \<Rightarrow>
               Inr (Suc k, acc, update_bucket idx (\<lambda>b. b\<lparr>span_list := remove1 a (span_list b) @ [a]\<rparr>)
                 (put_span a sp' st))
           | Some (sp', Some obj) \<Rightarrow> extract_objects k idx a (collect obj acc) (put_span a sp' st)))"

definition needs_span :: "nat \<Rightarrow> 'k cc \<Rightarrow> bool" where
  "needs_span idx st =
     (case span_list (buckets st ! idx) of
        [] \<Rightarrow> True
      | a # _ \<Rightarrow> (case spans (page_cache st) a of None \<Rightarrow> False | Some sp \<Rightarrow> use_count sp \<ge> capacity sp))"

text \<open>
  One iteration of the outer loop: \<open>Inl\<close> ends the loop, and its flag says whether the lock is then
  owned; \<open>Inr\<close> goes on.
\<close>

type_synonym 'k fetch_result = "(cc_error + bool \<times> fetch \<times> 'k cc) option"

definition fetch_step ::
  "'k os \<Rightarrow> nat \<Rightarrow> nat \<Rightarrow> nat \<Rightarrow> fetch \<Rightarrow> 'k cc \<Rightarrow> 'k fetch_result + nat \<times> fetch \<times> 'k cc" where
  "fetch_step os idx aligned_size k acc st =
     (if k = 0 then Inl (Some (Inr (True, acc, st)))
      else case (if needs_span idx st then GetOneSpan os idx aligned_size st else Some (Inr (True, st))) of
        None \<Rightarrow> Inl None
      | Some (Inl e) \<Rightarrow> Inl (Some (Inl e))
      | Some (Inr (got, st1)) \<Rightarrow>
          if \<not> got then Inl (Some (Inr (False, acc, st1)))
          else (case extract_objects k idx (hd (span_list (buckets st1 ! idx))) acc st1 of
             Inl e \<Rightarrow> Inl (Some (Inl e))
           | Inr r \<Rightarrow> Inr r))"

partial_function (option) fetch_loop ::
  "'k os \<Rightarrow> nat \<Rightarrow> nat \<Rightarrow> nat \<Rightarrow> fetch \<Rightarrow> 'k cc \<Rightarrow> 'k fetch_result" where
  "fetch_loop os idx aligned_size k acc st =
     (case fetch_step os idx aligned_size k acc st of
        Inl res \<Rightarrow> res
      | Inr (k', acc', st') \<Rightarrow> fetch_loop os idx aligned_size k' acc' st')"

text \<open>What follows the loop: unlock, publish the prefetched objects, return the excess.\<close>

definition fetch_publish :: "'k os \<Rightarrow> nat \<Rightarrow> bool \<Rightarrow> addr list \<Rightarrow> 'k cc \<Rightarrow> (cc_error + 'k cc) option" where
  "fetch_publish os aligned_size owned pre st =
     (if \<not> owned then Some (Inl LockNotOwned)
      else case transfer_push pre (buckets st ! Index aligned_size) of
        (b, left) \<Rightarrow> ReleaseListToSpans os (rev left) aligned_size (update_bucket (Index aligned_size) (\<lambda>_. b) st))"

text \<open>The objects taken from the TransferCache, in the order of the chain.\<close>

definition grab :: "nat \<Rightarrow> bucket \<Rightarrow> addr list \<times> bucket" where
  "grab batch_num b =
     (let n = min batch_num (length (transfer_cache b))
      in (take n (rev (transfer_cache b)),
          b\<lparr>transfer_cache := take (length (transfer_cache b) - n) (transfer_cache b)\<rparr>))"

definition FetchRange ::
  "'k os \<Rightarrow> addr list \<Rightarrow> nat \<Rightarrow> nat \<Rightarrow> 'k cc \<Rightarrow> (cc_error + nat \<times> addr list \<times> 'k cc) option" where
  "FetchRange os block_list batch_num aligned_size st =
     (case grab batch_num (buckets st ! Index aligned_size) of
        (chn, b) \<Rightarrow>
          let st1 = update_bucket (Index aligned_size) (\<lambda>_. b) st
          in if length chn < batch_num then
               (case fetch_loop os (Index aligned_size) aligned_size (batch_num - length chn + batch_num)
                       (batch_num - length chn, chn, []) st1 of
                  None \<Rightarrow> None
                | Some (Inl e) \<Rightarrow> Some (Inl e)
                | Some (Inr (owned, (need, chn', pre), st2)) \<Rightarrow>
                    map_option (map_sum id (\<lambda>st3. (batch_num - need, chn' @ block_list, st3)))
                      (fetch_publish os aligned_size owned pre st2))
             else Some (Inr (length chn, chn @ block_list, st1)))"

section \<open>Reset\<close>

text \<open>Restoring the bitmaps for the objects of the TransferCache.\<close>

primrec free_detached :: "addr list \<Rightarrow> 'k cc \<Rightarrow> cc_error + 'k cc" where
  "free_detached [] st = Inr st"
| "free_detached (obj # objs) st =
     (case GetSpan_ptr (pmap (page_cache st)) obj of
        None \<Rightarrow> free_detached objs st
      | Some a \<Rightarrow>
          (case spans (page_cache st) a of
             None \<Rightarrow> Inl (InPageCache Dangling)
           | Some sp \<Rightarrow>
               (case FreeObject obj sp of
                  None \<Rightarrow> Inl BadObject
                | Some sp' \<Rightarrow> free_detached objs (put_span a sp' st))))"

primrec release_spans :: "'k os \<Rightarrow> addr list \<Rightarrow> 'k pc \<Rightarrow> (pc_error + 'k pc) option" where
  "release_spans os [] p = Some (Inr p)"
| "release_spans os (a # as) p =
     (case ReleaseSpan os a p of
        None \<Rightarrow> None
      | Some (Inl e) \<Rightarrow> Some (Inl e)
      | Some (Inr p') \<Rightarrow> release_spans os as p')"

definition reset_bucket :: "'k os \<Rightarrow> nat \<Rightarrow> 'k cc \<Rightarrow> (cc_error + 'k cc) option" where
  "reset_bucket os i st =
     (let b = buckets st ! i
      in case free_detached (rev (transfer_cache b)) (update_bucket i (\<lambda>b. b\<lparr>transfer_cache := []\<rparr>) st) of
           Inl e \<Rightarrow> Some (Inl e)
         | Inr st1 \<Rightarrow>
             map_option (map_sum InPageCache (\<lambda>p.
                 (update_bucket i (\<lambda>b. b\<lparr>span_list := []\<rparr>) st1)\<lparr>page_cache := p\<rparr>))
               (release_spans os (rev (span_list b)) (page_cache st1)))"

primrec reset_buckets :: "'k os \<Rightarrow> nat list \<Rightarrow> 'k cc \<Rightarrow> (cc_error + 'k cc) option" where
  "reset_buckets os [] st = Some (Inr st)"
| "reset_buckets os (i # is) st =
     (case reset_bucket os i st of
        None \<Rightarrow> None
      | Some (Inl e) \<Rightarrow> Some (Inl e)
      | Some (Inr st') \<Rightarrow> reset_buckets os is st')"

definition free_transfer_cache :: "'k os \<Rightarrow> 'k cc \<Rightarrow> 'k cc" where
  "free_transfer_cache os st =
     (if transfer_cache_base (buckets st ! 0) = 0 then st
      else st\<lparr>page_cache := pc_SystemFree os (transfer_cache_base (buckets st ! 0)) transfer_cache_pages (page_cache st),
              buckets := map (\<lambda>b. b\<lparr>transfer_cache_base := 0, transfer_cache_capacity := 0, transfer_cache := []\<rparr>)
                (buckets st)\<rparr>)"

definition CentralCache_Reset :: "'k os \<Rightarrow> 'k cc \<Rightarrow> (cc_error + 'k cc) option" where
  "CentralCache_Reset os st =
     map_option (map_sum id (free_transfer_cache os)) (reset_buckets os [0..<kNumSizeClasses] st)"

end
