(* ===== verification/Central_Cache_Inv.thy ===== *)
theory Central_Cache_Inv
  imports Central_Cache
begin

text \<open>
  The invariant of the central cache, which accounts for every object that a span has handed out,
  and the proof that returning objects keeps it: no path of \<open>ReleaseListToSpans\<close> fails.
\<close>

section \<open>Invariant\<close>

text \<open>The addresses of the objects that a span has handed out.\<close>

definition used_objs :: "span \<Rightarrow> addr set" where
  "used_objs sp = slot_addr sp ` ({..<capacity sp} - free_slots sp)"

definition class_span :: "(addr \<Rightarrow> span option) \<Rightarrow> nat \<Rightarrow> addr \<Rightarrow> span \<Rightarrow> bool" where
  "class_span f i a sp \<longleftrightarrow> f a = Some sp \<and> IsUsed sp \<and> wf_span sp \<and> aligned_obj_size sp = Size i"

text \<open>
  \<open>out\<close> are the objects of the class that are outside of the central cache: the objects that the
  spans of the bucket have handed out are those in the TransferCache together with \<open>out\<close>.
\<close>

definition bucket_ok :: "(addr \<Rightarrow> span option) \<Rightarrow> nat \<Rightarrow> addr set \<Rightarrow> bucket \<Rightarrow> bool" where
  "bucket_ok f i out b \<longleftrightarrow>
     distinct (span_list b) \<and> (\<forall>a \<in> set (span_list b). \<exists>sp. class_span f i a sp) \<and>
     distinct (transfer_cache b) \<and> length (transfer_cache b) \<le> transfer_cache_capacity b \<and>
     set (transfer_cache b) \<inter> out = {} \<and>
     (\<forall>x. x \<in> set (transfer_cache b) \<union> out \<longleftrightarrow>
        (\<exists>a \<in> set (span_list b). \<exists>sp. f a = Some sp \<and> x \<in> used_objs sp))"

text \<open>
  \<open>big\<close> are the spans that the page cache has given to others: they are in use and no object span.
\<close>

definition big_ok :: "(addr \<Rightarrow> span option) \<Rightarrow> (addr \<Rightarrow> span option) \<Rightarrow> bool" where
  "big_ok f big \<longleftrightarrow> (\<forall>a sp. big a = Some sp \<longrightarrow> f a = Some sp \<and> IsUsed sp \<and> aligned_obj_size sp = 0)"

definition cc_inv ::
  "('k \<Rightarrow> addr set) \<Rightarrow> (addr \<Rightarrow> span option) \<Rightarrow> (nat \<Rightarrow> addr set) \<Rightarrow> 'k cc \<Rightarrow> bool" where
  "cc_inv mapped big out st \<longleftrightarrow>
     pc_inv mapped (page_cache st) \<and> big_ok (spans (page_cache st)) big \<and> length (buckets st) = kNumSizeClasses \<and>
     (\<forall>i < kNumSizeClasses. bucket_ok (spans (page_cache st)) i (out i) (buckets st ! i))"

lemma slot_page:
  assumes "wf_span sp" and "i < capacity sp"
  shows "slot_addr sp i div PAGE_SIZE \<in> pages_of sp"
proof -
  have "i * aligned_obj_size sp + aligned_obj_size sp \<le> capacity sp * aligned_obj_size sp"
    using assms(2) by (metis Suc_leI add.commute mult_Suc mult_le_mono1)
  then have "obj_offset sp + i * aligned_obj_size sp < page_num sp * PAGE_SIZE"
    using wf_fits [OF assms(1)] wf_size(1) [OF assms(1)] by linarith
  moreover have "slot_addr sp i = start_page_idx sp * PAGE_SIZE + (obj_offset sp + i * aligned_obj_size sp)"
    by (simp add: slot_addr_def GetDataBasePtr_def GetPageBaseAddr_def page_bytes)
  ultimately have "slot_addr sp i \<in> span_bytes sp" by (simp add: span_bytes_def bytes_def)
  then show ?thesis by (simp add: span_bytes_iff)
qed

lemma GetSpan_slot:
  assumes "pc_inv mapped p" and "spans p a = Some sp" and "wf_span sp" and "i < capacity sp"
  shows "GetSpan_ptr (pmap p) (slot_addr sp i) = Some a"
proof -
  have "map_ok (spans p) (pmap p)" using assms(1) by (simp add: pc_inv_def)
  moreover have "drop_bit PAGE_SHIFT (slot_addr sp i) = slot_addr sp i div PAGE_SIZE"
    by (simp add: drop_bit_eq_div PAGE_SHIFT_def PAGE_SIZE_def)
  ultimately show ?thesis
    using slot_page [OF assms(3,4)] assms(2) unfolding map_ok_def GetSpan_ptr_def by auto
qed

lemma used_objs_span:
  assumes "pc_inv mapped p" and "class_span (spans p) i a sp" and "x \<in> used_objs sp"
  shows "GetSpan_ptr (pmap p) x = Some a"
  using assms GetSpan_slot [OF assms(1)] by (auto simp: used_objs_def class_span_def)

lemma Size_inj: "i < kNumSizeClasses \<Longrightarrow> j < kNumSizeClasses \<Longrightarrow> Size i = Size j \<Longrightarrow> i = j"
  by (metis ladder.idx_sz)

lemma bucket_frame:
  assumes "bucket_ok f k out b" and "\<And>a. a \<in> set (span_list b) \<Longrightarrow> f' a = f a"
  shows "bucket_ok f' k out b"
  using assms unfolding bucket_ok_def class_span_def by (simp cong: bex_cong)

lemma bucket_span:
  assumes "bucket_ok f i out b" and "a \<in> set (span_list b)"
  obtains sp where "class_span f i a sp"
  using assms unfolding bucket_ok_def by blast

lemma other_bucket:
  assumes "cc_inv mapped big out st" and "i < kNumSizeClasses" and "k < kNumSizeClasses" and "i \<noteq> k"
    and "a \<in> set (span_list (buckets st ! i))" and "b \<in> set (span_list (buckets st ! k))"
  shows "a \<noteq> b"
proof
  assume ab: "a = b"
  have ok: "bucket_ok (spans (page_cache st)) i (out i) (buckets st ! i)"
    "bucket_ok (spans (page_cache st)) k (out k) (buckets st ! k)" using assms(1-3) by (simp_all add: cc_inv_def)
  obtain s t where "class_span (spans (page_cache st)) i a s" "class_span (spans (page_cache st)) k b t"
    using bucket_span [OF ok(1) assms(5)] bucket_span [OF ok(2) assms(6)] by metis
  then have "Size i = Size k" using ab by (auto simp: class_span_def)
  with Size_inj assms(2-4) show False by blast
qed

text \<open>A change of bucket \<open>i\<close> and of the page cache that keeps the spans of the other buckets.\<close>

lemma cc_inv_change:
  assumes inv: "cc_inv mapped big out st" and i: "i < kNumSizeClasses" and p: "pc_inv mapped p"
    and b: "bucket_ok (spans p) i out' b"
    and other: "\<And>k a. k < kNumSizeClasses \<Longrightarrow> k \<noteq> i \<Longrightarrow> a \<in> set (span_list (buckets st ! k)) \<Longrightarrow>
      spans p a = spans (page_cache st) a"
    and big: "big_ok (spans p) big"
  shows "cc_inv mapped big (out(i := out')) (st\<lparr>page_cache := p, buckets := (buckets st)[i := b]\<rparr>)"
  unfolding cc_inv_def
proof (intro conjI allI impI)
  show "length (buckets (st\<lparr>page_cache := p, buckets := (buckets st)[i := b]\<rparr>)) = kNumSizeClasses"
    using inv by (simp add: cc_inv_def)
  fix k assume k: "k < kNumSizeClasses"
  have len: "length (buckets st) = kNumSizeClasses" using inv by (simp add: cc_inv_def)
  show "bucket_ok (spans (page_cache (st\<lparr>page_cache := p, buckets := (buckets st)[i := b]\<rparr>))) k ((out(i := out')) k)
      (buckets (st\<lparr>page_cache := p, buckets := (buckets st)[i := b]\<rparr>) ! k)"
  proof (cases "k = i")
    case True
    then show ?thesis using b i len by simp
  next
    case False
    have "bucket_ok (spans (page_cache st)) k (out k) (buckets st ! k)" using inv k by (simp add: cc_inv_def)
    then have "bucket_ok (spans p) k (out k) (buckets st ! k)" by (rule bucket_frame) (rule other [OF k False])
    then show ?thesis using False by simp
  qed
qed (use p big in simp_all)

lemma put_span_eq:
  "put_span a sp st = st\<lparr>page_cache := pc_update a (\<lambda>_. sp) (page_cache st), buckets := (buckets st)[i := buckets st ! i]\<rparr>"
  by (simp add: put_span_def)

text \<open>Replacing a span of the bucket by one that differs in its bitmap only.\<close>

definition same_layout :: "span \<Rightarrow> span \<Rightarrow> bool" where
  "same_layout sp sp' \<longleftrightarrow> same_pages sp sp' \<and> flags sp' = flags sp \<and> capacity sp' = capacity sp \<and>
     aligned_obj_size sp' = aligned_obj_size sp \<and> slot_addr sp' = slot_addr sp"

lemma cc_inv_put:
  assumes inv: "cc_inv mapped big out st" and i: "i < kNumSizeClasses" and a: "a \<in> set (span_list (buckets st ! i))"
    and sp: "spans (page_cache st) a = Some sp" and sp': "wf_span sp'" "same_layout sp sp'"
    and b: "set (span_list b) = set (span_list (buckets st ! i))" "distinct (span_list b)"
      "transfer_cache_capacity b = transfer_cache_capacity (buckets st ! i)"
      "transfer_cache b = transfer_cache (buckets st ! i)"
    and out': "set (transfer_cache b) \<inter> out' = {}"
      "\<And>x. x \<in> set (transfer_cache b) \<union> out' \<longleftrightarrow>
         x \<in> (set (transfer_cache b) \<union> out i - used_objs sp) \<union> used_objs sp'"
  shows "cc_inv mapped big (out(i := out')) (update_bucket i (\<lambda>_. b) (put_span a sp' st))"
proof -
  let ?f = "spans (page_cache st)" and ?p = "pc_update a (\<lambda>_. sp') (page_cache st)"
  have pc: "pc_inv mapped (page_cache st)" and ok: "bucket_ok ?f i (out i) (buckets st ! i)"
    using inv i by (simp_all add: cc_inv_def)
  obtain sp0 where "class_span ?f i a sp0" by (rule bucket_span [OF ok a])
  then have cs: "class_span ?f i a sp" using sp by (simp add: class_span_def)
  have f: "spans ?p = ?f(a \<mapsto> sp')" using sp by (simp add: pc_update_def)
  have used: "IsUsed sp" "IsUsed sp'" using cs sp'(2) by (simp_all add: class_span_def same_layout_def IsUsed_def)
  have p: "pc_inv mapped ?p" using pc sp sp'(2) used by (intro pc_inv_retag) (simp_all add: same_layout_def)
  have cs': "class_span (?f(a \<mapsto> sp')) i a sp'"
    using cs sp' used by (simp add: class_span_def same_layout_def)
  have "bucket_ok (?f(a \<mapsto> sp')) i out' b"
    unfolding bucket_ok_def
  proof (intro conjI ballI allI)
    show "\<exists>s. class_span (?f(a \<mapsto> sp')) i c s" if "c \<in> set (span_list b)" for c
      using that cs' ok b(1) unfolding bucket_ok_def class_span_def by (cases "c = a") auto
    fix x
    let ?rest = "\<exists>c \<in> set (span_list b). c \<noteq> a \<and> (\<exists>s. ?f c = Some s \<and> x \<in> used_objs s)"
    have "x \<in> set (transfer_cache b) \<union> out i \<longleftrightarrow> (\<exists>c \<in> set (span_list b). \<exists>s. ?f c = Some s \<and> x \<in> used_objs s)"
      using ok b(1,4) unfolding bucket_ok_def by simp
    also have "\<dots> \<longleftrightarrow> ?rest \<or> x \<in> used_objs sp" using a b(1) sp by (metis option.inject)
    finally have old: "x \<in> set (transfer_cache b) \<union> out i \<longleftrightarrow> ?rest \<or> x \<in> used_objs sp" .
    have uniq: "c = a" if c: "c \<in> set (span_list b)" "?f c = Some s" "x \<in> used_objs s" "x \<in> used_objs sp" for c s
    proof -
      obtain s' where "class_span ?f i c s'" using bucket_span [OF ok] c(1) b(1) by metis
      then have "class_span ?f i c s" using c(2) by (simp add: class_span_def)
      then show ?thesis using used_objs_span [OF pc _ c(3)] used_objs_span [OF pc cs c(4)] by simp
    qed
    have "(\<exists>c \<in> set (span_list b). \<exists>s. (?f(a \<mapsto> sp')) c = Some s \<and> x \<in> used_objs s) \<longleftrightarrow> ?rest \<or> x \<in> used_objs sp'"
      using a b(1) by (auto split: if_splits)
    then show "x \<in> set (transfer_cache b) \<union> out' \<longleftrightarrow>
        (\<exists>c \<in> set (span_list b). \<exists>s. (?f(a \<mapsto> sp')) c = Some s \<and> x \<in> used_objs s)"
      unfolding out'(2) using old uniq by blast
  qed (use ok b out' in \<open>simp_all add: bucket_ok_def\<close>)
  then have bo: "bucket_ok (spans ?p) i out' b" by (simp add: f)
  have oth: "spans ?p c = ?f c" if "k < kNumSizeClasses" "k \<noteq> i" "c \<in> set (span_list (buckets st ! k))" for k c
    using other_bucket [OF inv i that(1) _ a that(3)] that(2) f by auto
  have e: "update_bucket i (\<lambda>_. b) (put_span a sp' st) = st\<lparr>page_cache := ?p, buckets := (buckets st)[i := b]\<rparr>"
    by (simp add: update_bucket_def put_span_def)
  have "big_ok ?f big" using inv by (simp add: cc_inv_def)
  moreover have "0 < aligned_obj_size sp" using cs by (simp add: class_span_def wf_span_def)
  ultimately have bg: "big_ok (spans ?p) big" unfolding f big_ok_def using sp by force
  show ?thesis unfolding e by (rule cc_inv_change [OF inv i p bo oth bg])
qed


lemma AllocObject_layout:
  assumes "wf_span sp" and "AllocObject sp = Some (sp', Some obj)"
  shows "wf_span sp'" and "same_layout sp sp'" and "obj \<notin> used_objs sp" and "used_objs sp' = insert obj (used_objs sp)"
    and "obj \<in> slot_addr sp ` {..<capacity sp}"
proof -
  have ne: "free_slots sp \<noteq> {}" using assms AllocObject_full by fastforce
  obtain s where s: "AllocObject sp = Some (s, Some (slot_addr sp (Min (free_slots sp))))" "wf_span s"
    "free_slots s = free_slots sp - {Min (free_slots sp)}" "\<And>i. slot_addr s i = slot_addr sp i" "capacity s = capacity sp"
    "aligned_obj_size s = aligned_obj_size sp" "start_page_idx s = start_page_idx sp" "page_num s = page_num sp"
    "flags s = flags sp" using AllocObject_ok [OF assms(1) ne] by metis
  then have e: "sp' = s" "obj = slot_addr sp (Min (free_slots sp))" using assms(2) by simp_all
  have m: "Min (free_slots sp) \<in> free_slots sp" by (rule Min_in [OF finite_free_bits ne])
  moreover from this have "Min (free_slots sp) < capacity sp" using wf_free [OF assms(1)] by blast
  ultimately have m: "Min (free_slots sp) \<in> free_slots sp" "Min (free_slots sp) < capacity sp" by blast+
  show "wf_span sp'" using s(2) e by simp
  show "same_layout sp sp'" using s e by (auto simp: same_layout_def same_pages_def)
  show "obj \<notin> used_objs sp"
    using m span_pool.at_inj [OF assms(1)] unfolding e used_objs_def by auto
  show "used_objs sp' = insert obj (used_objs sp)"
    unfolding e used_objs_def s(3,5) using m s(4) by auto
  show "obj \<in> slot_addr sp ` {..<capacity sp}" unfolding e using m by blast
qed

lemma FreeObject_layout:
  assumes "wf_span sp" and "obj \<in> used_objs sp"
  obtains sp' where "FreeObject obj sp = Some sp'" and "wf_span sp'" and "same_layout sp sp'"
    and "used_objs sp' = used_objs sp - {obj}" and "use_count sp = use_count sp' + 1"
proof -
  obtain j where j: "j < capacity sp" "j \<notin> free_slots sp" "obj = slot_addr sp j" using assms(2) by (auto simp: used_objs_def)
  obtain s where s: "FreeObject obj sp = Some s" "wf_span s"
    "free_slots s = insert j (free_slots sp)" "\<And>i. slot_addr s i = slot_addr sp i" "capacity s = capacity sp"
    "aligned_obj_size s = aligned_obj_size sp" "start_page_idx s = start_page_idx sp" "page_num s = page_num sp"
    "flags s = flags sp" "use_count sp = use_count s + 1"
    using FreeObject_ok [OF assms(1) j(1,2)] j(3) by metis
  have "used_objs s = used_objs sp - {obj}"
    unfolding used_objs_def s(3,5) j(3) using j span_pool.at_inj [OF assms(1)] s(4) by auto
  moreover have "same_layout sp s" using s by (auto simp: same_layout_def same_pages_def)
  ultimately show thesis using s that by blast
qed

text \<open>Extracting an object from a span of the bucket.\<close>

lemma take_object:
  assumes inv: "cc_inv mapped big out st" and i: "i < kNumSizeClasses" and a: "a \<in> set (span_list (buckets st ! i))"
    and sp: "spans (page_cache st) a = Some sp" "AllocObject sp = Some (sp', Some obj)"
  shows "cc_inv mapped big (out(i := insert obj (out i))) (put_span a sp' st)"
    and "obj \<notin> out i" and "obj \<notin> set (transfer_cache (buckets st ! i))"
proof -
  let ?b = "buckets st ! i"
  have pc: "pc_inv mapped (page_cache st)" and ok: "bucket_ok (spans (page_cache st)) i (out i) ?b"
    using inv i by (simp_all add: cc_inv_def)
  obtain sp0 where "class_span (spans (page_cache st)) i a sp0" by (rule bucket_span [OF ok a])
  then have cs: "class_span (spans (page_cache st)) i a sp" using sp by (simp add: class_span_def)
  then have wf: "wf_span sp" by (simp add: class_span_def)
  note L = AllocObject_layout [OF wf sp(2)]
  have new: "obj \<notin> set (transfer_cache ?b) \<union> out i"
  proof
    assume "obj \<in> set (transfer_cache ?b) \<union> out i"
    then obtain c s where c: "c \<in> set (span_list ?b)" "spans (page_cache st) c = Some s" "obj \<in> used_objs s"
      using ok unfolding bucket_ok_def by blast
    obtain s' where "class_span (spans (page_cache st)) i c s'" by (rule bucket_span [OF ok c(1)])
    then have "class_span (spans (page_cache st)) i c s" using c(2) by (simp add: class_span_def)
    from used_objs_span [OF pc this c(3)] have "GetSpan_ptr (pmap (page_cache st)) obj = Some c" .
    moreover have "GetSpan_ptr (pmap (page_cache st)) obj = Some a" using GetSpan_slot [OF pc sp(1) wf] L(5) by auto
    ultimately have "c = a" by simp
    then show False using c(2,3) sp(1) L(3) by simp
  qed
  then show "obj \<notin> out i" "obj \<notin> set (transfer_cache ?b)" by simp_all
  have "used_objs sp \<subseteq> set (transfer_cache ?b) \<union> out i" using ok a sp(1) unfolding bucket_ok_def by blast
  then have x: "x \<in> set (transfer_cache ?b) \<union> insert obj (out i) \<longleftrightarrow>
      x \<in> (set (transfer_cache ?b) \<union> out i - used_objs sp) \<union> used_objs sp'" for x
    unfolding L(4) by blast
  have d: "set (transfer_cache ?b) \<inter> insert obj (out i) = {}" "distinct (span_list ?b)"
    using ok new unfolding bucket_ok_def by blast+
  have len: "i < length (buckets st)" using inv i by (simp add: cc_inv_def)
  have "update_bucket i (\<lambda>_. ?b) (put_span a sp' st) = put_span a sp' st"
    by (simp add: update_bucket_def put_span_def)
  with cc_inv_put [OF inv i a sp(1) L(1,2) refl d(2) refl refl d(1) x]
  show "cc_inv mapped big (out(i := insert obj (out i))) (put_span a sp' st)" by simp
qed


section \<open>Returning objects\<close>

lemma ReleaseSpan_ok:
  assumes "kernel_ok os mapped" and "pc_inv mapped p" and "spans p a = Some sp" and "IsUsed sp"
  shows "\<exists>p'. ReleaseSpan os a p = Some (Inr p') \<and> pc_inv mapped p' \<and>
    (\<forall>c sc. c \<noteq> a \<longrightarrow> spans p c = Some sc \<longrightarrow> IsUsed sc \<longrightarrow> spans p' c = Some sc)"
proof (cases "page_num sp \<le> MAX_PAGE_NUM")
  case True
  from release_small_ok [OF assms True] show ?thesis unfolding ReleaseSpan_def by blast
next
  case False
  then have "MAX_PAGE_NUM < page_num sp" by simp
  from release_big_ok [OF assms(1-3) this] show ?thesis unfolding ReleaseSpan_def by fastforce
qed

lemma unused_span: "wf_span sp \<Longrightarrow> use_count sp = 0 \<Longrightarrow> used_objs sp = {}"
proof -
  assume wf: "wf_span sp" and u: "use_count sp = 0"
  have "card (free_slots sp) = card {..<capacity sp}" using wf_count [OF wf] u by simp
  then have "free_slots sp = {..<capacity sp}" using wf_free [OF wf] by (intro card_subset_eq) auto
  then show ?thesis by (simp add: used_objs_def)
qed

text \<open>An unused span leaves the bucket and goes back to the page cache.\<close>

lemma drop_span:
  assumes os: "kernel_ok os mapped" and inv: "cc_inv mapped big out st" and i: "i < kNumSizeClasses"
    and a: "a \<in> set (span_list (buckets st ! i))" and sp: "spans (page_cache st) a = Some sp" "use_count sp = 0"
  defines "st3 \<equiv> update_bucket i (\<lambda>b. b\<lparr>span_list := remove1 a (span_list b)\<rparr>) st"
  shows "\<exists>p. ReleaseSpan os a (page_cache st3) = Some (Inr p) \<and> cc_inv mapped big out (st3\<lparr>page_cache := p\<rparr>)"
proof -
  let ?f = "spans (page_cache st)" and ?b = "buckets st ! i"
  let ?b' = "?b\<lparr>span_list := remove1 a (span_list ?b)\<rparr>"
  have pc: "pc_inv mapped (page_cache st)" and ok: "bucket_ok ?f i (out i) ?b" using inv i by (simp_all add: cc_inv_def)
  obtain sp0 where "class_span ?f i a sp0" by (rule bucket_span [OF ok a])
  then have cs: "wf_span sp" "IsUsed sp" using sp by (simp_all add: class_span_def)
  obtain p where p: "ReleaseSpan os a (page_cache st) = Some (Inr p)" "pc_inv mapped p"
    "\<And>c sc. c \<noteq> a \<Longrightarrow> ?f c = Some sc \<Longrightarrow> IsUsed sc \<Longrightarrow> spans p c = Some sc"
    using ReleaseSpan_ok [OF os pc sp(1) cs(2)] by blast
  have same: "spans p c = ?f c" if c: "k < kNumSizeClasses" "c \<in> set (span_list (buckets st ! k))" "c \<noteq> a" for k c
  proof -
    have "bucket_ok ?f k (out k) (buckets st ! k)" using inv c(1) by (simp add: cc_inv_def)
    then obtain s where "class_span ?f k c s" using bucket_span c(2) by blast
    then show ?thesis using p(3) [OF c(3)] by (simp add: class_span_def)
  qed
  have d: "distinct (span_list ?b)" using ok by (simp add: bucket_ok_def)
  have "bucket_ok ?f i (out i) ?b'"
    unfolding bucket_ok_def
  proof (intro conjI allI)
    fix x
    have "x \<in> set (transfer_cache ?b) \<union> out i \<longleftrightarrow> (\<exists>c \<in> set (span_list ?b). \<exists>s. ?f c = Some s \<and> x \<in> used_objs s)"
      using ok unfolding bucket_ok_def by blast
    also have "\<dots> \<longleftrightarrow> (\<exists>c \<in> set (remove1 a (span_list ?b)). \<exists>s. ?f c = Some s \<and> x \<in> used_objs s)"
      using d sp(1) unused_span [OF cs(1) sp(2)] by auto
    finally show "x \<in> set (transfer_cache ?b') \<union> out i \<longleftrightarrow>
        (\<exists>c \<in> set (span_list ?b'). \<exists>s. ?f c = Some s \<and> x \<in> used_objs s)" by simp
  qed (use ok in \<open>auto simp: bucket_ok_def\<close>)
  then have "bucket_ok (spans p) i (out i) ?b'"
    by (rule bucket_frame) (use same [OF i] d in auto)
  moreover have "spans p c = ?f c" if c: "k < kNumSizeClasses" "k \<noteq> i" "c \<in> set (span_list (buckets st ! k))" for k c
    using same [OF c(1,3)] other_bucket [OF inv i c(1) _ a c(3)] c(2) by metis
  moreover have "big_ok (spans p) big"
  proof -
    have "big_ok ?f big" using inv by (simp add: cc_inv_def)
    moreover have "0 < aligned_obj_size sp" using cs by (simp add: wf_span_def)
    ultimately show ?thesis unfolding big_ok_def using p(3) sp(1) by force
  qed
  ultimately have "cc_inv mapped big (out(i := out i)) (st\<lparr>page_cache := p, buckets := (buckets st)[i := ?b']\<rparr>)"
    by (rule cc_inv_change [OF inv i p(2)])
  moreover have "st3\<lparr>page_cache := p\<rparr> = st\<lparr>page_cache := p, buckets := (buckets st)[i := ?b']\<rparr>" "page_cache st3 = page_cache st"
    by (simp_all add: st3_def update_bucket_def)
  ultimately show ?thesis using p(1) by simp
qed

lemma release_object_ok:
  assumes os: "kernel_ok os mapped" and inv: "cc_inv mapped big out st" and i: "i < kNumSizeClasses" and obj: "obj \<in> out i"
  shows "\<exists>st'. release_object os i obj st = Some (Inr st') \<and> cc_inv mapped big (out(i := out i - {obj})) st'"
proof -
  let ?f = "spans (page_cache st)" and ?b = "buckets st ! i"
  have pc: "pc_inv mapped (page_cache st)" and ok: "bucket_ok ?f i (out i) ?b" using inv i by (simp_all add: cc_inv_def)
  obtain a sp where a: "a \<in> set (span_list ?b)" "?f a = Some sp" "obj \<in> used_objs sp"
    using ok obj unfolding bucket_ok_def by blast
  obtain sp0 where "class_span ?f i a sp0" by (rule bucket_span [OF ok a(1)])
  then have cs: "class_span ?f i a sp" "wf_span sp" using a(2) by (simp_all add: class_span_def)
  note look = used_objs_span [OF pc cs(1) a(3)]
  obtain sp' where s: "FreeObject obj sp = Some sp'" "wf_span sp'" "same_layout sp sp'"
    "used_objs sp' = used_objs sp - {obj}" by (rule FreeObject_layout [OF cs(2) a(3)])
  define b where "b = (if use_count sp' = (capacity sp' + 2 ^ 32 - 1) mod 2 ^ 32
    then ?b\<lparr>span_list := a # remove1 a (span_list ?b)\<rparr> else ?b)"
  define st2 where "st2 = update_bucket i (\<lambda>_. b) (put_span a sp' st)"
  have d: "distinct (span_list ?b)" "set (transfer_cache ?b) \<inter> out i = {}" using ok by (auto simp: bucket_ok_def)
  have b: "set (span_list b) = set (span_list ?b)" "distinct (span_list b)"
    "transfer_cache_capacity b = transfer_cache_capacity ?b" "transfer_cache b = transfer_cache ?b"
    using d a(1) by (auto simp: b_def)
  have "used_objs sp \<subseteq> set (transfer_cache ?b) \<union> out i" using ok a(1,2) unfolding bucket_ok_def by blast
  then have x: "x \<in> set (transfer_cache b) \<union> (out i - {obj}) \<longleftrightarrow>
      x \<in> (set (transfer_cache b) \<union> out i - used_objs sp) \<union> used_objs sp'" for x
    unfolding b(4) s(4) using d(2) obj a(3) by blast
  have inv2: "cc_inv mapped big (out(i := out i - {obj})) st2"
    unfolding st2_def by (rule cc_inv_put [OF inv i a(1,2) s(2,3) b _ x]) (use d(2) b(4) in auto)
  have len: "i < length (buckets st)" using inv i by (simp add: cc_inv_def)
  have st2: "(if use_count sp' = (capacity sp' + 2 ^ 32 - 1) mod 2 ^ 32
      then update_bucket i (\<lambda>b. b\<lparr>span_list := a # remove1 a (span_list b)\<rparr>) (put_span a sp' st)
      else put_span a sp' st) = st2"
    using len by (simp add: st2_def b_def update_bucket_def put_span_def)
  have in2: "a \<in> set (span_list (buckets st2 ! i))" "spans (page_cache st2) a = Some sp'"
    using len b(1) a(1,2) by (simp_all add: st2_def update_bucket_def put_span_def pc_update_def)
  show ?thesis
  proof (cases "use_count sp' = 0")
    case True
    from drop_span [OF os inv2 i in2 True] show ?thesis
      using look a(2) s(1) st2 True by (auto simp: release_object_def Let_def)
  next
    case False
    then show ?thesis using look a(2) s(1) st2 inv2 by (simp add: release_object_def Let_def)
  qed
qed

lemma release_objects_ok:
  assumes os: "kernel_ok os mapped" and i: "i < kNumSizeClasses"
  shows "cc_inv mapped big out st \<Longrightarrow> distinct objs \<Longrightarrow> set objs \<subseteq> out i \<Longrightarrow>
    \<exists>st'. release_objects os i objs st = Some (Inr st') \<and> cc_inv mapped big (out(i := out i - set objs)) st'"
proof (induction objs arbitrary: out st)
  case (Cons obj objs)
  obtain st1 where s: "release_object os i obj st = Some (Inr st1)" "cc_inv mapped big (out(i := out i - {obj})) st1"
    using release_object_ok [OF os Cons.prems(1) i, of obj] Cons.prems(3) by auto
  have pre: "set objs \<subseteq> (out(i := out i - {obj})) i" using Cons.prems by auto
  have d: "distinct objs" using Cons.prems(2) by simp
  have e: "(out(i := out i - {obj}))(i := (out(i := out i - {obj})) i - set objs) = out(i := out i - set (obj # objs))"
    by (rule ext) auto
  from Cons.IH [OF s(2) d pre, unfolded e] s(1) show ?case by auto
qed simp


lemma transfer_push_split:
  "transfer_push ps b = (b', rest) \<Longrightarrow> \<exists>pushed. ps = pushed @ rest \<and>
     b' = b\<lparr>transfer_cache := transfer_cache b @ pushed\<rparr> \<and>
     (length (transfer_cache b) \<le> transfer_cache_capacity b \<longrightarrow> length (transfer_cache b') \<le> transfer_cache_capacity b) \<and>
     (rest \<noteq> [] \<longrightarrow> transfer_cache_capacity b \<le> length (transfer_cache b'))"
proof (induction ps arbitrary: b)
  case (Cons p ps)
  show ?case
  proof (cases "length (transfer_cache b) < transfer_cache_capacity b")
    case True
    let ?b = "b\<lparr>transfer_cache := transfer_cache b @ [p]\<rparr>"
    have "transfer_push ps ?b = (b', rest)" using Cons.prems True by simp
    from Cons.IH [OF this] obtain pushed where x: "ps = pushed @ rest"
      "b' = ?b\<lparr>transfer_cache := transfer_cache ?b @ pushed\<rparr>"
      "length (transfer_cache ?b) \<le> transfer_cache_capacity ?b \<longrightarrow> length (transfer_cache b') \<le> transfer_cache_capacity ?b"
      "rest \<noteq> [] \<longrightarrow> transfer_cache_capacity ?b \<le> length (transfer_cache b')" by blast
    then show ?thesis using True by (intro exI [of _ "p # pushed"]) simp
  next
    case False
    then have "b' = b" "rest = p # ps" using Cons.prems by simp_all
    then show ?thesis using False by simp
  qed
qed simp

text \<open>Objects enter and leave the TransferCache.\<close>

lemma cc_inv_transfer:
  assumes inv: "cc_inv mapped big out st" and i: "i < kNumSizeClasses" and b: "b = (buckets st ! i)\<lparr>transfer_cache := tc\<rparr>"
    and tc: "distinct tc" "length tc \<le> transfer_cache_capacity (buckets st ! i)" "set tc \<inter> out' = {}"
      "set tc \<union> out' = set (transfer_cache (buckets st ! i)) \<union> out i"
  shows "cc_inv mapped big (out(i := out')) (update_bucket i (\<lambda>_. b) st)"
proof -
  have pc: "pc_inv mapped (page_cache st)" and ok: "bucket_ok (spans (page_cache st)) i (out i) (buckets st ! i)"
    using inv i by (simp_all add: cc_inv_def)
  have "bucket_ok (spans (page_cache st)) i out' b"
    using ok tc(1-3) unfolding bucket_ok_def b by (simp add: tc(4) [symmetric])
  moreover have "big_ok (spans (page_cache st)) big" using inv by (simp add: cc_inv_def)
  ultimately show ?thesis using cc_inv_change [OF inv i pc] by (simp add: update_bucket_def)
qed

lemma transfer_push_ok:
  assumes inv: "cc_inv mapped big out st" and i: "i < kNumSizeClasses" and ps: "distinct ps" "set ps \<subseteq> out i"
    and push: "transfer_push ps (buckets st ! i) = (b, rest)"
  shows "cc_inv mapped big (out(i := out i - (set ps - set rest))) (update_bucket i (\<lambda>_. b) st)"
    and "distinct rest" and "set rest \<subseteq> set ps"
proof -
  let ?b = "buckets st ! i"
  have ok: "bucket_ok (spans (page_cache st)) i (out i) ?b" using inv i by (simp add: cc_inv_def)
  obtain pushed where p: "ps = pushed @ rest" "b = ?b\<lparr>transfer_cache := transfer_cache ?b @ pushed\<rparr>"
    "length (transfer_cache ?b) \<le> transfer_cache_capacity ?b \<longrightarrow> length (transfer_cache b) \<le> transfer_cache_capacity ?b"
    using transfer_push_split [OF push] by blast
  show "distinct rest" "set rest \<subseteq> set ps" using p(1) ps by auto
  have e: "set ps - set rest = set pushed" using p(1) ps(1) by auto
  have t: "set (transfer_cache ?b) \<inter> out i = {}" "distinct (transfer_cache ?b)"
    "length (transfer_cache ?b) \<le> transfer_cache_capacity ?b" using ok by (auto simp: bucket_ok_def)
  show "cc_inv mapped big (out(i := out i - (set ps - set rest))) (update_bucket i (\<lambda>_. b) st)"
    unfolding e
  proof (rule cc_inv_transfer [OF inv i p(2)])
    show "distinct (transfer_cache ?b @ pushed)" using t ps p(1) by auto
    show "length (transfer_cache ?b @ pushed) \<le> transfer_cache_capacity ?b" using p(2,3) t(3) by simp
  qed (use t ps p(1) in auto)
qed

lemma release_batch_ok:
  assumes os: "kernel_ok os mapped" and inv: "cc_inv mapped big out st" and i: "i < kNumSizeClasses"
    and ps: "distinct ps" "set ps \<subseteq> out i"
  shows "\<exists>st'. release_batch os i ps st = Some (Inr st') \<and> cc_inv mapped big (out(i := out i - set ps)) st'"
proof -
  obtain b rest where push: "transfer_push ps (buckets st ! i) = (b, rest)" by (rule prod.exhaust)
  note T = transfer_push_ok [OF inv i ps push]
  let ?out = "out(i := out i - (set ps - set rest))"
  have sub: "set rest \<subseteq> ?out i" using T(3) ps by auto
  have "out i - (set ps - set rest) - set rest = out i - set ps" using T(3) by blast
  then have e: "?out(i := ?out i - set rest) = out(i := out i - set ps)" by simp
  from release_objects_ok [OF os i T(1,2) sub, unfolded e] show ?thesis
    unfolding release_batch_def push prod.case .
qed

lemma ReleaseListToSpans_ok:
  assumes os: "kernel_ok os mapped" and i: "i < kNumSizeClasses"
  shows "cc_inv mapped big out st \<Longrightarrow> distinct objs \<Longrightarrow> set objs \<subseteq> out i \<Longrightarrow>
    \<exists>st'. ReleaseListToSpans os objs (Size i) st = Some (Inr st') \<and> cc_inv mapped big (out(i := out i - set objs)) st'"
proof (induction "length objs" arbitrary: objs out st rule: less_induct)
  case less
  have idx: "Index (Size i) = i" using i by (rule ladder.idx_sz)
  show ?case
  proof (cases "objs = []")
    case True
    then show ?thesis using less.prems(1) by (simp add: ReleaseListToSpans.simps [of _ "[]"])
  next
    case False
    let ?t = "take kMaxBatchSize objs" and ?d = "drop kMaxBatchSize objs"
    let ?out = "out(i := out i - set ?t)"
    have split: "set ?t \<union> set ?d = set objs" "set ?t \<inter> set ?d = {}"
      using set_take_disj_set_drop_if_distinct [OF less.prems(2)] by (metis append_take_drop_id set_append, blast)
    have t: "distinct ?t" "set ?t \<subseteq> out i" using split less.prems(2,3) by auto
    obtain st1 where s: "release_batch os i ?t st = Some (Inr st1)" "cc_inv mapped big ?out st1"
      using release_batch_ok [OF os less.prems(1) i t] by blast
    have d: "length ?d < length objs" "distinct ?d" using False less.prems(2) by (simp_all add: kMaxBatchSize_def)
    have d3: "set ?d \<subseteq> ?out i" using split less.prems(3) unfolding fun_upd_same by blast
    have "out i - set ?t - set ?d = out i - set objs" using split(1) by blast
    then have e: "?out(i := ?out i - set ?d) = out(i := out i - set objs)" by simp
    from less.hyps [OF d(1) s(2) d(2) d3, unfolded e] show ?thesis
      unfolding ReleaseListToSpans.simps [of os objs] idx s(1) using False by simp
  qed
qed

end
