(* ===== verification/Central_Cache_Fetch.thy ===== *)
theory Central_Cache_Fetch
  imports Central_Cache_Inv
begin

text \<open>
  \<open>FetchRange\<close>: the loops end, and a call that returns delivers exactly the requested number of
  new objects.  \<open>Reset\<close> and the construction of the TransferCaches.
\<close>

section \<open>Getting a span\<close>

lemma Init_class:
  assumes "i < kNumSizeClasses" and "page_num sp = GetMovePageNum (Size i)"
    and "(start_page_idx sp + page_num sp) * PAGE_SIZE \<le> 2 ^ 48"
  obtains sp' where "Init (Size i) sp = Some sp'" and "wf_span sp'" and "free_slots sp' = {..<capacity sp'}"
    and "0 < capacity sp'" and "same_pages sp sp'" and "flags sp' = flags sp" and "aligned_obj_size sp' = Size i"
proof -
  have sz: "0 < Size i" "Size i \<le> MAX_TC_SIZE" "Index (Size i) = i"
    using assms(1) by (simp_all add: ladder.sz_pos ladder.sz_le ladder.idx_sz)
  have tab: "page_num sp = move_page_table ! i" using sz assms(2) by (simp add: GetMovePageNum_def)
  note ok = layout_tables [OF assms(1), unfolded class_layout_ok_def, folded Size_def tab]
  obtain sp' where x: "Init (Size i) sp = Some sp'" "wf_span sp'" "capacity sp' = layout_capacity (page_num sp) (Size i)"
    "free_slots sp' = {..<capacity sp'}" "aligned_obj_size sp' = Size i" "start_page_idx sp' = start_page_idx sp"
    "page_num sp' = page_num sp" "flags sp' = flags sp"
    using Init_wf [OF sz(1,2) _ assms(3)] ok by metis
  moreover have "0 < capacity sp'" using x(3) ok by simp
  ultimately show thesis using that by (simp add: same_pages_def)
qed

lemma add_class_span:
  assumes inv: "cc_inv mapped big out st" and i: "i < kNumSizeClasses" and p: "pc_inv mapped p"
    and keep: "\<And>b sb. spans (page_cache st) b = Some sb \<Longrightarrow> IsUsed sb \<Longrightarrow> spans p b = Some sb"
    and old: "\<And>sb. spans (page_cache st) a = Some sb \<Longrightarrow> \<not> IsUsed sb"
    and cs: "class_span (spans p) i a sp" and free: "used_objs sp = {}"
  shows "cc_inv mapped big out (update_bucket i (\<lambda>b. b\<lparr>span_list := a # span_list b\<rparr>) (st\<lparr>page_cache := p\<rparr>))"
proof -
  let ?f = "spans (page_cache st)" and ?b = "buckets st ! i"
  let ?b' = "?b\<lparr>span_list := a # span_list ?b\<rparr>"
  have ok: "bucket_ok ?f i (out i) ?b" using inv i by (simp add: cc_inv_def)
  have same: "spans p c = ?f c \<and> c \<noteq> a" if c: "k < kNumSizeClasses" "c \<in> set (span_list (buckets st ! k))" for k c
  proof -
    have "bucket_ok ?f k (out k) (buckets st ! k)" using inv c(1) by (simp add: cc_inv_def)
    then obtain s where "class_span ?f k c s" using bucket_span c(2) by blast
    then show ?thesis using keep [of c s] old by (auto simp: class_span_def)
  qed
  have ok': "bucket_ok (spans p) i (out i) ?b" by (rule bucket_frame [OF ok]) (use same [OF i] in blast)
  have na: "a \<notin> set (span_list ?b)" using same [OF i] by blast
  have "bucket_ok (spans p) i (out i) ?b'"
    using ok' na cs free unfolding bucket_ok_def class_span_def by auto
  moreover have "spans p c = ?f c" if c: "k < kNumSizeClasses" "k \<noteq> i" "c \<in> set (span_list (buckets st ! k))" for k c
    using same [OF c(1,3)] by blast
  moreover have "big_ok (spans p) big" using inv keep unfolding cc_inv_def big_ok_def by blast
  ultimately have "cc_inv mapped big (out(i := out i)) (st\<lparr>page_cache := p, buckets := (buckets st)[i := ?b']\<rparr>)"
    by (rule cc_inv_change [OF inv i p])
  then show ?thesis by (simp add: update_bucket_def)
qed

definition head_free :: "nat \<Rightarrow> 'k cc \<Rightarrow> bool" where
  "head_free i st \<longleftrightarrow> span_list (buckets st ! i) \<noteq> [] \<and>
     (\<exists>sp. spans (page_cache st) (hd (span_list (buckets st ! i))) = Some sp \<and> free_slots sp \<noteq> {})"

lemma GetOneSpan_ok:
  assumes os: "kernel_ok os mapped" and inv: "cc_inv mapped big out st" and i: "i < kNumSizeClasses"
  shows "\<exists>res. GetOneSpan os i (Size i) st = Some res \<and>
    (case res of
       Inl e \<Rightarrow> e = InPageCache (Exn BadAlloc)
     | Inr (got, st') \<Rightarrow> if got then cc_inv mapped big out st' \<and> head_free i st'
         else \<exists>p. AllocSpan os (GetMovePageNum (Size i)) (page_cache st) = Some (Inr (None, p)))"
proof -
  let ?n = "GetMovePageNum (Size i)"
  have pc: "pc_inv mapped (page_cache st)" using inv by (simp add: cc_inv_def)
  have len: "i < length (buckets st)" using inv i by (simp add: cc_inv_def)
  obtain res where r: "AllocSpan os ?n (page_cache st) = Some res"
    and post: "case res of Inl e \<Rightarrow> e = Exn BadAlloc
     | Inr (r, st') \<Rightarrow> pc_inv mapped st' \<and> keeps_used (page_cache st) st' \<and>
         (\<forall>a. r = Some a \<longrightarrow> (\<exists>sp. spans st' a = Some sp \<and> IsUsed sp \<and> page_num sp = ?n \<and>
             owner_shard_id sp = 0 \<and> aligned_obj_size sp = 0) \<and>
           (\<forall>sb. spans (page_cache st) a = Some sb \<longrightarrow> \<not> IsUsed sb))"
    using AllocSpan_ok [OF os pc, of ?n] by blast
  show ?thesis
  proof (cases res)
    case (Inl e)
    then show ?thesis using r post by (simp add: GetOneSpan_def)
  next
    case (Inr x)
    obtain y p where x: "x = (y, p)" by (rule prod.exhaust)
    note P = post [unfolded Inr x sum.case prod.case]
    show ?thesis
    proof (cases y)
      case None
      then show ?thesis using r Inr x by (simp add: GetOneSpan_def)
    next
      case (Some a)
      obtain sp where sp: "spans p a = Some sp" "IsUsed sp" "page_num sp = ?n" and inv_p: "pc_inv mapped p"
        using P Some by blast
      have "start_page_idx sp + page_num sp \<le> 2 ^ 35" using pc_inv_span_ok [OF inv_p sp(1)] by (simp add: span_ok_def)
      then have "(start_page_idx sp + page_num sp) * PAGE_SIZE \<le> 2 ^ 48" by (simp add: PAGE_SIZE_def)
      from Init_class [OF i sp(3) this] obtain sp' where s: "Init (Size i) sp = Some sp'" "wf_span sp'"
        "free_slots sp' = {..<capacity sp'}" "0 < capacity sp'" "same_pages sp sp'" "flags sp' = flags sp"
        "aligned_obj_size sp' = Size i" by metis
      let ?p = "pc_update a (\<lambda>_. sp') p"
      have used: "IsUsed sp'" using s(6) sp(2) by (simp add: IsUsed_def)
      have f: "spans ?p = (spans p)(a \<mapsto> sp')" using sp(1) by (simp add: pc_update_def)
      have old: "\<not> IsUsed sb" if "spans (page_cache st) a = Some sb" for sb using P Some that by blast
      let ?st = "update_bucket i (\<lambda>b. b\<lparr>span_list := a # span_list b\<rparr>) (st\<lparr>page_cache := ?p\<rparr>)"
      have "cc_inv mapped big out ?st"
      proof (rule add_class_span [OF inv i])
        show "pc_inv mapped ?p" using inv_p sp s(5) used by (intro pc_inv_retag) simp_all
        show "spans ?p b = Some sb" if b: "spans (page_cache st) b = Some sb" "IsUsed sb" for b sb
          using P b old f unfolding keeps_used_def by auto
        show "class_span (spans ?p) i a sp'" unfolding f using used s by (simp add: class_span_def)
        show "used_objs sp' = {}" using s(3) by (simp add: used_objs_def)
      qed (rule old)
      moreover have "head_free i ?st"
        using len f s(3,4) by (simp add: head_free_def update_bucket_def lessThan_empty_iff)
      moreover have "GetOneSpan os i (Size i) st = Some (Inr (True, ?st))"
        using r Inr x Some sp(1) s(1) by (simp add: GetOneSpan_def put_span_def)
      ultimately show ?thesis by simp
    qed
  qed
qed


section \<open>The fetch loops\<close>

text \<open>
  What holds between the iterations: the collected objects count as handed out, they are new and
  distinct, and the counters of the loop are those of the source.
\<close>

definition fetch_inv ::
  "('k \<Rightarrow> addr set) \<Rightarrow> (addr \<Rightarrow> span option) \<Rightarrow> (nat \<Rightarrow> addr set) \<Rightarrow>
    nat \<Rightarrow> nat \<Rightarrow> nat \<Rightarrow> nat \<Rightarrow> fetch \<Rightarrow> 'k cc \<Rightarrow> bool" where
  "fetch_inv mapped big out i B T k acc st \<longleftrightarrow>
     (case acc of (need, chn, pre) \<Rightarrow>
        cc_inv mapped big (out(i := out i \<union> set chn \<union> set pre)) st \<and> distinct (chn @ pre) \<and>
        (set chn \<union> set pre) \<inter> out i = {} \<and> need + length chn = B \<and> (pre = [] \<or> need = 0) \<and>
        length chn + length pre + k = T)"

lemma collect_inv:
  assumes inv: "fetch_inv mapped big out i B T (Suc k) acc st" and i: "i < kNumSizeClasses"
    and a: "a \<in> set (span_list (buckets st ! i))"
    and sp: "spans (page_cache st) a = Some sp" "AllocObject sp = Some (sp', Some obj)"
  shows "fetch_inv mapped big out i B T k (collect obj acc) (put_span a sp' st)"
proof -
  obtain need chn pre where acc: "acc = (need, chn, pre)" by (metis prod.collapse)
  note iv = inv [unfolded fetch_inv_def acc prod.case]
  let ?O = "out i \<union> set chn \<union> set pre"
  note T = take_object [OF _ i a sp, of mapped big "out(i := ?O)", unfolded fun_upd_same fun_upd_upd]
  have c: "cc_inv mapped big (out(i := insert obj ?O)) (put_span a sp' st)" "obj \<notin> ?O" using T iv by blast+
  show ?thesis
  proof (cases "0 < need")
    case True
    have "insert obj ?O = out i \<union> set (obj # chn) \<union> set pre" by auto
    then show ?thesis using iv c True unfolding fetch_inv_def acc collect_def by auto
  next
    case False
    have "insert obj ?O = out i \<union> set chn \<union> set (pre @ [obj])" by auto
    then show ?thesis using iv c False unfolding fetch_inv_def acc collect_def by simp
  qed
qed

lemma rotate_span:
  assumes inv: "cc_inv mapped big out st" and i: "i < kNumSizeClasses" and a: "a \<in> set (span_list (buckets st ! i))"
    and sp: "spans (page_cache st) a = Some sp"
  shows "cc_inv mapped big out (update_bucket i (\<lambda>b. b\<lparr>span_list := remove1 a (span_list b) @ [a]\<rparr>) (put_span a sp st))"
proof -
  let ?b = "buckets st ! i"
  let ?b' = "?b\<lparr>span_list := remove1 a (span_list ?b) @ [a]\<rparr>"
  have ok: "bucket_ok (spans (page_cache st)) i (out i) ?b" using inv i by (simp add: cc_inv_def)
  obtain sp0 where "class_span (spans (page_cache st)) i a sp0" by (rule bucket_span [OF ok a])
  then have wf: "wf_span sp" using sp by (simp add: class_span_def)
  have d: "distinct (span_list ?b)" "set (transfer_cache ?b) \<inter> out i = {}" using ok by (auto simp: bucket_ok_def)
  have l: "same_layout sp sp" by (simp add: same_layout_def same_pages_def)
  have sub: "used_objs sp \<subseteq> set (transfer_cache ?b) \<union> out i" using ok a sp unfolding bucket_ok_def by blast
  have "cc_inv mapped big (out(i := out i)) (update_bucket i (\<lambda>_. ?b') (put_span a sp st))"
    by (rule cc_inv_put [OF inv i a sp wf l]) (use d a sub in auto)
  moreover have "update_bucket i (\<lambda>b. b\<lparr>span_list := remove1 a (span_list b) @ [a]\<rparr>) (put_span a sp st) =
      update_bucket i (\<lambda>_. ?b') (put_span a sp st)" by (simp add: update_bucket_def put_span_def)
  ultimately show ?thesis by simp
qed

lemma extract_ok:
  assumes i: "i < kNumSizeClasses"
  shows "fetch_inv mapped big out i B T k acc st \<Longrightarrow> a \<in> set (span_list (buckets st ! i)) \<Longrightarrow>
    \<exists>k' acc' st'. extract_objects k i a acc st = Inr (k', acc', st') \<and> fetch_inv mapped big out i B T k' acc' st' \<and> k' \<le> k \<and>
      (0 < k \<and> (\<exists>sp. spans (page_cache st) a = Some sp \<and> free_slots sp \<noteq> {}) \<longrightarrow> k' < k)"
proof (induction k arbitrary: acc st)
  case (Suc k)
  obtain need chn pre where acc: "acc = (need, chn, pre)" by (metis prod.collapse)
  have cc: "cc_inv mapped big (out(i := out i \<union> set chn \<union> set pre)) st"
    using Suc.prems(1) unfolding fetch_inv_def acc by simp
  then have "bucket_ok (spans (page_cache st)) i (out i \<union> set chn \<union> set pre) (buckets st ! i)"
    using i unfolding cc_inv_def by (metis fun_upd_same)
  then obtain sp where cs: "class_span (spans (page_cache st)) i a sp" using bucket_span Suc.prems(2) by blast
  then have sp: "spans (page_cache st) a = Some sp" "wf_span sp" by (simp_all add: class_span_def)
  show ?case
  proof (cases "free_slots sp = {}")
    case True
    let ?st = "update_bucket i (\<lambda>b. b\<lparr>span_list := remove1 a (span_list b) @ [a]\<rparr>) (put_span a sp st)"
    have "AllocObject sp = Some (sp, None)" by (rule AllocObject_full [OF sp(2) True])
    then have "extract_objects (Suc k) i a acc st = Inr (Suc k, acc, ?st)" using sp(1) by simp
    moreover have "fetch_inv mapped big out i B T (Suc k) acc ?st"
      using Suc.prems(1) rotate_span [OF cc i Suc.prems(2) sp(1)] unfolding fetch_inv_def acc by simp
    ultimately show ?thesis using sp(1) True by simp
  next
    case False
    then obtain sp' obj where o: "AllocObject sp = Some (sp', Some obj)" using span_pool.alloc_some [OF sp(2)] by blast
    have inv: "fetch_inv mapped big out i B T k (collect obj acc) (put_span a sp' st)"
      by (rule collect_inv [OF Suc.prems(1) i Suc.prems(2) sp(1) o])
    have "a \<in> set (span_list (buckets (put_span a sp' st) ! i))" using Suc.prems(2) by (simp add: put_span_def)
    from Suc.IH [OF inv this] obtain k' acc' st' where
      x: "extract_objects k i a (collect obj acc) (put_span a sp' st) = Inr (k', acc', st')"
      "fetch_inv mapped big out i B T k' acc' st'" "k' \<le> k" by blast
    then show ?thesis using sp(1) o by (intro exI [of _ k'] exI [of _ acc'] exI [of _ st']) simp
  qed
qed simp

lemma needs_span_False:
  assumes "cc_inv mapped big out st" and "i < kNumSizeClasses" and "\<not> needs_span i st"
  shows "head_free i st"
proof -
  have ok: "bucket_ok (spans (page_cache st)) i (out i) (buckets st ! i)" using assms(1,2) by (simp add: cc_inv_def)
  obtain a as where l: "span_list (buckets st ! i) = a # as" using assms(3) by (auto simp: needs_span_def split: list.splits)
  then obtain sp where "class_span (spans (page_cache st)) i a sp" using bucket_span [OF ok, of a] by auto
  then have "spans (page_cache st) a = Some sp" "wf_span sp" by (simp_all add: class_span_def)
  then show ?thesis using assms(3) l wf_full_iff [of sp] by (auto simp: needs_span_def head_free_def)
qed


lemma fetch_loop_ok:
  assumes os: "kernel_ok os mapped" and i: "i < kNumSizeClasses"
  shows "fetch_inv mapped big out i B T k acc st \<Longrightarrow>
    \<exists>res. fetch_loop os i (Size i) k acc st = Some res \<and>
      (case res of Inl e \<Rightarrow> e = InPageCache (Exn BadAlloc)
       | Inr (owned, acc', st') \<Rightarrow> owned \<longrightarrow> fetch_inv mapped big out i B T 0 acc' st')"
proof (induction k arbitrary: acc st rule: less_induct)
  case (less k)
  obtain need chn pre where acc: "acc = (need, chn, pre)" by (metis prod.collapse)
  have cc: "cc_inv mapped big (out(i := out i \<union> set chn \<union> set pre)) st"
    using less.prems unfolding fetch_inv_def acc by simp
  let ?get = "if needs_span i st then GetOneSpan os i (Size i) st else Some (Inr (True, st))"
  obtain res where r: "?get = Some res" and post: "case res of Inl e \<Rightarrow> e = InPageCache (Exn BadAlloc)
     | Inr (got, st') \<Rightarrow> got \<longrightarrow> cc_inv mapped big (out(i := out i \<union> set chn \<union> set pre)) st' \<and> head_free i st'"
  proof (cases "needs_span i st")
    case True
    obtain res where "GetOneSpan os i (Size i) st = Some res"
      "case res of Inl e \<Rightarrow> e = InPageCache (Exn BadAlloc)
       | Inr (got, st') \<Rightarrow> if got then cc_inv mapped big (out(i := out i \<union> set chn \<union> set pre)) st' \<and> head_free i st'
           else \<exists>p. AllocSpan os (GetMovePageNum (Size i)) (page_cache st) = Some (Inr (None, p))"
      using GetOneSpan_ok [OF os cc i] by blast
    then show ?thesis using that [of res] True by (cases res) auto
  next
    case False
    then show ?thesis using that [of "Inr (True, st)"] cc needs_span_False [OF cc i False] by simp
  qed
  show ?case
  proof (cases "k = 0")
    case True
    have "fetch_loop os i (Size i) k acc st = Some (Inr (True, acc, st))"
      unfolding fetch_loop.simps [of os i "Size i" k] using True by (simp add: fetch_step_def)
    then show ?thesis using less.prems True by simp
  next
    case k: False
    show ?thesis
    proof (cases res)
      case (Inl e)
      then have "fetch_step os i (Size i) k acc st = Inl (Some (Inl e))" using k r by (simp add: fetch_step_def)
      then show ?thesis using post Inl by (simp add: fetch_loop.simps [of _ _ _ k])
    next
      case (Inr x)
      obtain got st1 where x: "x = (got, st1)" by (rule prod.exhaust)
      show ?thesis
      proof (cases got)
        case False
        then have "fetch_step os i (Size i) k acc st = Inl (Some (Inr (False, acc, st1)))"
          using k r Inr x by (simp add: fetch_step_def)
        then show ?thesis by (simp add: fetch_loop.simps [of _ _ _ k])
      next
        case True
        then have s1: "cc_inv mapped big (out(i := out i \<union> set chn \<union> set pre)) st1" "head_free i st1"
          using post Inr x by simp_all
        let ?a = "hd (span_list (buckets st1 ! i))"
        have inv1: "fetch_inv mapped big out i B T k acc st1" using less.prems s1(1) unfolding fetch_inv_def acc by simp
        have a: "?a \<in> set (span_list (buckets st1 ! i))" "\<exists>sp. spans (page_cache st1) ?a = Some sp \<and> free_slots sp \<noteq> {}"
          using s1(2) by (simp_all add: head_free_def)
        obtain k' acc' st' where e: "extract_objects k i ?a acc st1 = Inr (k', acc', st')"
          "fetch_inv mapped big out i B T k' acc' st'" "k' < k" using extract_ok [OF i inv1 a(1)] a(2) k by blast
        have "fetch_step os i (Size i) k acc st = Inr (k', acc', st')"
          using k r Inr x True e(1) by (simp add: fetch_step_def)
        then have "fetch_loop os i (Size i) k acc st = fetch_loop os i (Size i) k' acc' st'"
          by (simp add: fetch_loop.simps [of _ _ _ k])
        then show ?thesis using less.IH [OF e(3,2)] by simp
      qed
    qed
  qed
qed

lemma grab_ok:
  assumes inv: "cc_inv mapped big out st" and i: "i < kNumSizeClasses" and g: "grab n (buckets st ! i) = (chn, b)"
  shows "cc_inv mapped big (out(i := out i \<union> set chn)) (update_bucket i (\<lambda>_. b) st)"
    and "distinct chn" and "set chn \<inter> out i = {}" and "length chn = min n (length (transfer_cache (buckets st ! i)))"
proof -
  let ?b = "buckets st ! i"
  let ?tc = "transfer_cache ?b"
  let ?n = "min n (length ?tc)"
  let ?l = "length ?tc - ?n"
  have ok: "bucket_ok (spans (page_cache st)) i (out i) ?b" using inv i by (simp add: cc_inv_def)
  have e: "chn = rev (drop ?l ?tc)" "b = ?b\<lparr>transfer_cache := take ?l ?tc\<rparr>"
    using g by (auto simp: grab_def Let_def take_rev)
  have d: "distinct ?tc" "length ?tc \<le> transfer_cache_capacity ?b" "set ?tc \<inter> out i = {}" using ok by (auto simp: bucket_ok_def)
  have un: "set ?tc = set (take ?l ?tc) \<union> set (drop ?l ?tc)" by (metis append_take_drop_id set_append)
  have dis: "set (take ?l ?tc) \<inter> set (drop ?l ?tc) = {}" using set_take_disj_set_drop_if_distinct [OF d(1)] by blast
  show "distinct chn" "set chn \<inter> out i = {}" using e(1) d un by auto
  show "length chn = ?n" using e(1) by simp
  show "cc_inv mapped big (out(i := out i \<union> set chn)) (update_bucket i (\<lambda>_. b) st)"
  proof (rule cc_inv_transfer [OF inv i e(2)])
    show "set (take ?l ?tc) \<inter> (out i \<union> set chn) = {}" using e(1) dis d(3) un by auto
    show "set (take ?l ?tc) \<union> (out i \<union> set chn) = set ?tc \<union> out i" using e(1) un by auto
  qed (use d in auto)
qed

lemma FetchRange_ok:
  assumes os: "kernel_ok os mapped" and inv: "cc_inv mapped big out st" and i: "i < kNumSizeClasses" and n: "0 < n"
  shows "\<exists>res. FetchRange os bl n (Size i) st = Some res \<and>
    (case res of
       Inl e \<Rightarrow> e = InPageCache (Exn BadAlloc) \<or> e = LockNotOwned
     | Inr (m, l, st') \<Rightarrow> m = n \<and> (\<exists>chn. l = chn @ bl \<and> length chn = n \<and> distinct chn \<and> set chn \<inter> out i = {} \<and>
         cc_inv mapped big (out(i := out i \<union> set chn)) st'))"
proof -
  have idx: "Index (Size i) = i" using i by (rule ladder.idx_sz)
  obtain chn b where g: "grab n (buckets st ! i) = (chn, b)" by (rule prod.exhaust)
  note G = grab_ok [OF inv i g]
  let ?st = "update_bucket i (\<lambda>_. b) st"
  show ?thesis
  proof (cases "length chn < n")
    case False
    then have "length chn = n" using G(4) by simp
    then show ?thesis using False G g idx by (simp add: FetchRange_def Let_def)
  next
    case True
    have f0: "fetch_inv mapped big out i n (n + n) (n - length chn + n) (n - length chn, chn, []) ?st"
      using G True by (simp add: fetch_inv_def)
    obtain res where r: "fetch_loop os i (Size i) (n - length chn + n) (n - length chn, chn, []) ?st = Some res"
      "case res of Inl e \<Rightarrow> e = InPageCache (Exn BadAlloc)
       | Inr (owned, acc', st') \<Rightarrow> owned \<longrightarrow> fetch_inv mapped big out i n (n + n) 0 acc' st'"
      using fetch_loop_ok [OF os i f0] by blast
    have run: "FetchRange os bl n (Size i) st = (case res of Inl e \<Rightarrow> Some (Inl e)
        | Inr (owned, (need, chn', pre), st2) \<Rightarrow> map_option (map_sum id (\<lambda>st3. (n - need, chn' @ bl, st3)))
            (fetch_publish os (Size i) owned pre st2))"
      using True g idx r(1) by (simp add: FetchRange_def Let_def split: sum.splits)
    show ?thesis
    proof (cases res)
      case (Inl e)
      then show ?thesis using run r(2) by simp
    next
      case (Inr x)
      obtain owned need chn' pre st2 where x: "x = (owned, (need, chn', pre), st2)" by (metis prod.collapse)
      show ?thesis
      proof (cases owned)
        case False
        then show ?thesis using run Inr x by (simp add: fetch_publish_def)
      next
        case True
        then have f: "fetch_inv mapped big out i n (n + n) 0 (need, chn', pre) st2" using r(2) Inr x by simp
        note F = f [unfolded fetch_inv_def prod.case]
        have nd: "need = 0" "length chn' = n" using F n by auto
        let ?O = "out(i := out i \<union> set chn' \<union> set pre)"
        obtain b2 left where p: "transfer_push pre (buckets st2 ! i) = (b2, left)" by (rule prod.exhaust)
        have c2: "cc_inv mapped big ?O st2" and pd: "distinct pre" "set pre \<subseteq> ?O i" using F by auto
        note P = transfer_push_ok [OF c2 i pd p]
        let ?O2 = "?O(i := ?O i - (set pre - set left))"
        have l: "distinct (rev left)" "set (rev left) \<subseteq> ?O2 i" using P(2,3) pd by auto
        obtain st3 where s3: "ReleaseListToSpans os (rev left) (Size i) (update_bucket i (\<lambda>_. b2) st2) = Some (Inr st3)"
          "cc_inv mapped big (?O2(i := ?O2 i - set (rev left))) st3"
          using ReleaseListToSpans_ok [OF os i P(1) l] by blast
        have "?O2 i - set (rev left) = out i \<union> set chn'" using F P(3) by auto
        then have "?O2(i := ?O2 i - set (rev left)) = out(i := out i \<union> set chn')" by simp
        with s3(2) have c3: "cc_inv mapped big (out(i := out i \<union> set chn')) st3" by simp
        have "fetch_publish os (Size i) owned pre st2 = Some (Inr st3)"
          using True p s3(1) idx by (simp add: fetch_publish_def)
        then have "FetchRange os bl n (Size i) st = Some (Inr (n, chn' @ bl, st3))" using run Inr x nd by simp
        moreover have "distinct chn'" "set chn' \<inter> out i = {}" using F by auto
        ultimately show ?thesis using c3 nd by auto
      qed
    qed
  qed
qed

section \<open>Construction\<close>

lemma slice_buckets_length: "length (slice_buckets p is bs) = length bs"
  by (induction "is" arbitrary: p bs) (simp_all add: Let_def)

lemma slice_buckets_other: "k \<notin> set is \<Longrightarrow> slice_buckets p is bs ! k = bs ! k"
  by (induction "is" arbitrary: p bs) (simp_all add: Let_def)

definition slice_bytes :: "nat \<Rightarrow> nat" where
  "slice_bytes i = CalculateBatchSize (Size i) * kCapScale * 8"

lemma slice_buckets_nth:
  "n \<le> length bs \<Longrightarrow> m \<le> i \<Longrightarrow> i < n \<Longrightarrow>
     slice_buckets p [m..<n] bs ! i = (bs ! i)\<lparr>transfer_cache_capacity := CalculateBatchSize (Size i) * kCapScale,
       transfer_cache_base := p + sum_list (map slice_bytes [m..<i])\<rparr>"
proof (induction "n - m" arbitrary: m p bs)
  case (Suc d)
  have m: "m < n" using Suc.hyps(2) by simp
  then have u: "[m..<n] = m # [Suc m..<n]" by (simp add: upt_conv_Cons)
  let ?bs = "bs[m := (bs ! m)\<lparr>transfer_cache_capacity := CalculateBatchSize (Size m) * kCapScale, transfer_cache_base := p\<rparr>]"
  have e: "slice_buckets p [m..<n] bs = slice_buckets (p + slice_bytes m) [Suc m..<n] ?bs"
    unfolding u by (simp add: Let_def slice_bytes_def)
  show ?case
  proof (cases "i = m")
    case True
    then show ?thesis unfolding e using Suc.prems(1) m by (simp add: slice_buckets_other)
  next
    case False
    then have i: "Suc m \<le> i" using Suc.prems(2) by simp
    have "d = n - Suc m" using Suc.hyps(2) by simp
    from Suc.hyps(1) [OF this, of ?bs "p + slice_bytes m"] i Suc.prems(1,3)
    show ?thesis unfolding e using False by (simp add: upt_conv_Cons [of m i] add.assoc)
  qed
qed simp

lemma slice_total: "sum_list (map slice_bytes [0..<kNumSizeClasses]) \<le> transfer_cache_pages * PAGE_SIZE"
proof -
  let ?t = "sum_list (map (\<lambda>i. kCapScale * CalculateBatchSize (Size i)) [0..<kNumSizeClasses])"
  have "map slice_bytes [0..<kNumSizeClasses] = map (\<lambda>i. kCapScale * CalculateBatchSize (Size i) * 8) [0..<kNumSizeClasses]"
    by (simp add: slice_bytes_def)
  then have e: "sum_list (map slice_bytes [0..<kNumSizeClasses]) = ?t * 8" by (simp only: sum_list_mult_const)
  have "transfer_cache_pages = (?t * 8 + 4095) div 4096"
    by (simp add: transfer_cache_pages_def Let_def PAGE_SIZE_def PAGE_SHIFT_def drop_bit_eq_div)
  moreover have "x \<le> (x + 4095) div 4096 * 4096" for x :: nat by linarith
  ultimately show ?thesis unfolding e by (simp add: PAGE_SIZE_def)
qed

lemma ctor_ok:
  assumes os: "kernel_ok os mapped" and p: "pc_inv mapped p"
    and ctor: "CentralCache_ctor os p = Inr st"
  shows "cc_inv mapped Map.empty (\<lambda>_. {}) st"
proof -
  obtain ptr s where a: "SystemAlloc os transfer_cache_pages (sys p) = (Some ptr, s)"
    and st: "st = \<lparr>page_cache = p\<lparr>sys := s\<rparr>,
      buckets = slice_buckets ptr [0..<kNumSizeClasses] (replicate kNumSizeClasses empty_bucket)\<rparr>"
    using ctor by (auto simp: CentralCache_ctor_def InitTransferCache_def split: prod.splits option.splits)
  have "mem_inv mapped (span_mem (spans p)) (sys p) (span_pool p) (node_pool p)" using p by (simp add: pc_inv_def)
  from mem_SystemAlloc [OF os this a]
  have m: "mem_inv mapped (span_mem (spans p)) s (span_pool p) (node_pool p)" by (auto simp: mem_inv_def)
  then have pc: "pc_inv mapped (p\<lparr>sys := s\<rparr>)" using p by (simp add: pc_inv_def)
  have "bucket_ok (spans p) i {} (buckets st ! i)" if "i < kNumSizeClasses" for i
    using that slice_buckets_nth [of kNumSizeClasses "replicate kNumSizeClasses empty_bucket" 0 i ptr]
    by (simp add: st bucket_ok_def empty_bucket_def)
  then show ?thesis using pc by (simp add: cc_inv_def st slice_buckets_length big_ok_def)
qed


section \<open>Reset\<close>

lemma free_detached_ok:
  assumes i: "i < kNumSizeClasses"
  shows "cc_inv mapped big out st \<Longrightarrow> distinct objs \<Longrightarrow> set objs \<subseteq> out i \<Longrightarrow>
    \<exists>st'. free_detached objs st = Inr st' \<and> cc_inv mapped big (out(i := out i - set objs)) st' \<and> buckets st' = buckets st"
proof (induction objs arbitrary: out st)
  case (Cons obj objs)
  let ?f = "spans (page_cache st)" and ?b = "buckets st ! i"
  have pc: "pc_inv mapped (page_cache st)" and ok: "bucket_ok ?f i (out i) ?b"
    using Cons.prems(1) i by (simp_all add: cc_inv_def)
  have obj: "obj \<in> out i" using Cons.prems(3) by simp
  then obtain a sp where a: "a \<in> set (span_list ?b)" "?f a = Some sp" "obj \<in> used_objs sp"
    using ok unfolding bucket_ok_def by blast
  obtain sp0 where "class_span ?f i a sp0" by (rule bucket_span [OF ok a(1)])
  then have cs: "class_span ?f i a sp" "wf_span sp" using a(2) by (simp_all add: class_span_def)
  note look = used_objs_span [OF pc cs(1) a(3)]
  obtain sp' where s: "FreeObject obj sp = Some sp'" "wf_span sp'" "same_layout sp sp'"
    "used_objs sp' = used_objs sp - {obj}" by (rule FreeObject_layout [OF cs(2) a(3)])
  have d: "distinct (span_list ?b)" "set (transfer_cache ?b) \<inter> out i = {}" using ok by (auto simp: bucket_ok_def)
  have "used_objs sp \<subseteq> set (transfer_cache ?b) \<union> out i" using ok a(1,2) unfolding bucket_ok_def by blast
  then have x: "x \<in> set (transfer_cache ?b) \<union> (out i - {obj}) \<longleftrightarrow>
      x \<in> (set (transfer_cache ?b) \<union> out i - used_objs sp) \<union> used_objs sp'" for x
    unfolding s(4) using d(2) obj a(3) by blast
  have "update_bucket i (\<lambda>_. ?b) (put_span a sp' st) = put_span a sp' st" by (simp add: update_bucket_def put_span_def)
  moreover have "cc_inv mapped big (out(i := out i - {obj})) (update_bucket i (\<lambda>_. ?b) (put_span a sp' st))"
    by (rule cc_inv_put [OF Cons.prems(1) i a(1,2) s(2,3) refl d(1) refl refl _ x]) (use d(2) in auto)
  ultimately have inv1: "cc_inv mapped big (out(i := out i - {obj})) (put_span a sp' st)" by simp
  have e: "(out(i := out i - {obj}))(i := (out(i := out i - {obj})) i - set objs) = out(i := out i - set (obj # objs))"
    by (rule ext) auto
  have "set objs \<subseteq> (out(i := out i - {obj})) i" "distinct objs" using Cons.prems by auto
  from Cons.IH [OF inv1 this(2,1), unfolded e] show ?case using look a(2) s(1) by (auto simp: put_span_def)
qed simp

lemma release_spans_ok:
  assumes os: "kernel_ok os mapped"
  shows "pc_inv mapped p \<Longrightarrow> distinct as \<Longrightarrow> \<forall>a \<in> set as. \<exists>sp. spans p a = Some sp \<and> IsUsed sp \<Longrightarrow>
    \<exists>p'. release_spans os as p = Some (Inr p') \<and> pc_inv mapped p' \<and>
      (\<forall>c sc. c \<notin> set as \<longrightarrow> spans p c = Some sc \<longrightarrow> IsUsed sc \<longrightarrow> spans p' c = Some sc)"
proof (induction as arbitrary: p)
  case (Cons a as)
  obtain sp where sp: "spans p a = Some sp" "IsUsed sp" using Cons.prems(3) by auto
  obtain p1 where p1: "ReleaseSpan os a p = Some (Inr p1)" "pc_inv mapped p1"
    "\<And>c sc. c \<noteq> a \<Longrightarrow> spans p c = Some sc \<Longrightarrow> IsUsed sc \<Longrightarrow> spans p1 c = Some sc"
    using ReleaseSpan_ok [OF os Cons.prems(1) sp] by blast
  have "\<exists>s. spans p1 c = Some s \<and> IsUsed s" if c: "c \<in> set as" for c
  proof -
    have "c \<noteq> a" using c Cons.prems(2) by auto
    moreover obtain s where "spans p c = Some s" "IsUsed s" using c Cons.prems(3) by auto
    ultimately show ?thesis using p1(3) by blast
  qed
  then have "\<forall>c \<in> set as. \<exists>s. spans p1 c = Some s \<and> IsUsed s" by blast
  moreover have "distinct as" using Cons.prems(2) by simp
  ultimately obtain p' where p': "release_spans os as p1 = Some (Inr p')" "pc_inv mapped p'"
    "\<And>c sc. c \<notin> set as \<Longrightarrow> spans p1 c = Some sc \<Longrightarrow> IsUsed sc \<Longrightarrow> spans p' c = Some sc"
    using Cons.IH [OF p1(2)] by blast
  have "release_spans os (a # as) p = Some (Inr p')" using p1(1) p'(1) by simp
  then show ?case using p'(2,3) p1(3) by auto
qed simp

lemma reset_bucket_ok:
  assumes os: "kernel_ok os mapped" and inv: "cc_inv mapped big out st" and i: "i < kNumSizeClasses" and o: "out i = {}"
  shows "\<exists>st'. reset_bucket os i st = Some (Inr st') \<and> cc_inv mapped big out st' \<and>
    buckets st' = (buckets st)[i := (buckets st ! i)\<lparr>transfer_cache := [], span_list := []\<rparr>]"
proof -
  let ?b = "buckets st ! i"
  let ?tc = "transfer_cache ?b"
  let ?st0 = "update_bucket i (\<lambda>_. ?b\<lparr>transfer_cache := []\<rparr>) st"
  have len: "i < length (buckets st)" using inv i by (simp add: cc_inv_def)
  have ok: "bucket_ok (spans (page_cache st)) i (out i) ?b" using inv i by (simp add: cc_inv_def)
  have d: "distinct ?tc" "distinct (span_list ?b)" using ok by (simp_all add: bucket_ok_def)
  have inv0: "cc_inv mapped big (out(i := set ?tc)) ?st0"
    by (rule cc_inv_transfer [OF inv i refl]) (use o in simp_all)
  have rv: "distinct (rev ?tc)" "set (rev ?tc) \<subseteq> (out(i := set ?tc)) i" using d by simp_all
  obtain st1 where s1: "free_detached (rev ?tc) ?st0 = Inr st1" "buckets st1 = buckets ?st0"
    "cc_inv mapped big ((out(i := set ?tc))(i := (out(i := set ?tc)) i - set (rev ?tc))) st1"
    using free_detached_ok [OF i inv0 rv] by blast
  have "(out(i := set ?tc))(i := (out(i := set ?tc)) i - set (rev ?tc)) = out" using o by (simp add: fun_upd_idem)
  with s1(3) have inv1: "cc_inv mapped big out st1" by simp
  have b1: "buckets st1 ! i = ?b\<lparr>transfer_cache := []\<rparr>" using s1(2) len by (simp add: update_bucket_def)
  have pc: "pc_inv mapped (page_cache st1)" and ok1: "bucket_ok (spans (page_cache st1)) i (out i) (?b\<lparr>transfer_cache := []\<rparr>)"
    using inv1 i b1 by (auto simp: cc_inv_def)
  have used: "\<forall>a \<in> set (rev (span_list ?b)). \<exists>sp. spans (page_cache st1) a = Some sp \<and> IsUsed sp"
    using ok1 unfolding bucket_ok_def class_span_def by auto
  have ds: "distinct (rev (span_list ?b))" using d by simp
  obtain p where p: "release_spans os (rev (span_list ?b)) (page_cache st1) = Some (Inr p)" "pc_inv mapped p"
    "\<And>c sc. c \<notin> set (span_list ?b) \<Longrightarrow> spans (page_cache st1) c = Some sc \<Longrightarrow> IsUsed sc \<Longrightarrow> spans p c = Some sc"
    using release_spans_ok [OF os pc ds used] by auto
  let ?b' = "?b\<lparr>transfer_cache := [], span_list := []\<rparr>"
  have "spans p c = spans (page_cache st1) c"
    if c: "k < kNumSizeClasses" "k \<noteq> i" "c \<in> set (span_list (buckets st1 ! k))" for k c
  proof -
    have "bucket_ok (spans (page_cache st1)) k (out k) (buckets st1 ! k)" using inv1 c(1) by (simp add: cc_inv_def)
    then obtain s where "class_span (spans (page_cache st1)) k c s" using bucket_span c(3) by blast
    moreover have "c \<notin> set (span_list ?b)" using other_bucket [OF inv1 i c(1), of c c] c(2,3) b1 by auto
    ultimately show ?thesis using p(3) by (simp add: class_span_def)
  qed
  moreover have "bucket_ok (spans p) i {} ?b'" using ok1 by (simp add: bucket_ok_def)
  moreover have "big_ok (spans p) big"
  proof -
    have "big_ok (spans (page_cache st1)) big" using inv1 by (simp add: cc_inv_def)
    moreover have "aligned_obj_size sp \<noteq> 0" if "a \<in> set (span_list ?b)" "spans (page_cache st1) a = Some sp" for a sp
      using ok1 that unfolding bucket_ok_def class_span_def by (auto simp: wf_span_def)
    ultimately show ?thesis unfolding big_ok_def using p(3) by metis
  qed
  ultimately have "cc_inv mapped big (out(i := {})) (st1\<lparr>page_cache := p, buckets := (buckets st1)[i := ?b']\<rparr>)"
    by (intro cc_inv_change [OF inv1 i p(2)])
  moreover have "out(i := {}) = out" using o by (simp add: fun_upd_idem)
  moreover have "(update_bucket i (\<lambda>b. b\<lparr>span_list := []\<rparr>) st1)\<lparr>page_cache := p\<rparr> =
      st1\<lparr>page_cache := p, buckets := (buckets st1)[i := ?b']\<rparr>" using b1 by (simp add: update_bucket_def)
  moreover have "update_bucket i (\<lambda>b. b\<lparr>transfer_cache := []\<rparr>) st = ?st0" by (simp add: update_bucket_def)
  ultimately show ?thesis
    using s1(1,2) p(1) unfolding reset_bucket_def Let_def by (simp add: update_bucket_def)
qed

lemma reset_buckets_ok:
  assumes os: "kernel_ok os mapped" and o: "\<And>i. out i = {}"
  shows "set is \<subseteq> {..<kNumSizeClasses} \<Longrightarrow> distinct is \<Longrightarrow> cc_inv mapped big out st \<Longrightarrow>
    \<exists>st'. reset_buckets os is st = Some (Inr st') \<and> cc_inv mapped big out st' \<and>
      (\<forall>i. buckets st' ! i = (if i \<in> set is then (buckets st ! i)\<lparr>transfer_cache := [], span_list := []\<rparr> else buckets st ! i))"
proof (induction "is" arbitrary: st)
  case (Cons k ks)
  have k: "k < kNumSizeClasses" using Cons.prems(1) by simp
  have len: "k < length (buckets st)" using Cons.prems(3) k by (simp add: cc_inv_def)
  obtain st1 where s: "reset_bucket os k st = Some (Inr st1)" "cc_inv mapped big out st1"
    "buckets st1 = (buckets st)[k := (buckets st ! k)\<lparr>transfer_cache := [], span_list := []\<rparr>]"
    using reset_bucket_ok [OF os Cons.prems(3) k o] by blast
  obtain st' where t: "reset_buckets os ks st1 = Some (Inr st')" "cc_inv mapped big out st'"
    "\<And>i. buckets st' ! i = (if i \<in> set ks then (buckets st1 ! i)\<lparr>transfer_cache := [], span_list := []\<rparr> else buckets st1 ! i)"
    using Cons.IH [OF _ _ s(2)] Cons.prems(1,2) by auto
  have "buckets st' ! i = (if i \<in> set (k # ks) then (buckets st ! i)\<lparr>transfer_cache := [], span_list := []\<rparr> else buckets st ! i)" for i
    unfolding t(3) s(3) using len Cons.prems(2) by (cases "i = k") simp_all
  then show ?case using s(1) t(1,2) by simp
qed simp


section \<open>A run on the witness kernel\<close>

lemma transfer_cache_pages_eq: "transfer_cache_pages = 127"
proof -
  have "map (\<lambda>i. CalculateBatchSize (Size i)) [0..<kNumSizeClasses] = batch_table"
  proof (rule nth_equalityI)
    show "length (map (\<lambda>i. CalculateBatchSize (Size i)) [0..<kNumSizeClasses]) = length batch_table"
      by (simp add: batch_table_def)
    fix i assume "i < length (map (\<lambda>i. CalculateBatchSize (Size i)) [0..<kNumSizeClasses])"
    then have i: "i < kNumSizeClasses" by simp
    then show "map (\<lambda>i. CalculateBatchSize (Size i)) [0..<kNumSizeClasses] ! i = batch_table ! i"
      using ladder.sz_pos [OF i] ladder.sz_le [OF i] ladder.idx_sz [OF i] by (simp add: CalculateBatchSize_def)
  qed
  moreover have "sum_list (map (\<lambda>i. kCapScale * CalculateBatchSize (Size i)) [0..<kNumSizeClasses]) =
      kCapScale * sum_list (map (\<lambda>i. CalculateBatchSize (Size i)) [0..<kNumSizeClasses])"
    by (rule sum_list_const_mult)
  ultimately show ?thesis
    by (simp add: transfer_cache_pages_def Let_def batch_table_eq kCapScale_def PAGE_SIZE_def PAGE_SHIFT_def drop_bit_eq_div)
qed


lemma central_demo: "\<exists>st. CentralCache_ctor bump_os (PageCache_ctor boot) = Inr st \<and> cc_inv snd Map.empty (\<lambda>_. {}) st"
proof -
  have "room (127 + 1) boot" using room_mono [OF room_boot] by simp
  then obtain p s where "SystemAlloc bump_os 127 boot = (Some p, s)" using room_SystemAlloc [of 127 1 boot] by auto
  then have "\<exists>st. CentralCache_ctor bump_os (PageCache_ctor boot) = Inr st"
    by (simp add: CentralCache_ctor_def InitTransferCache_def transfer_cache_pages_eq PageCache_ctor_def)
  then show ?thesis using ctor_ok [OF kernel_ok_bump pc_inv_boot] by blast
qed

text \<open>A central cache with one span of the largest class and one object outside.\<close>

lemma central_object_demo: "\<exists>st obj. cc_inv snd Map.empty ((\<lambda>_. {})(47 := {obj})) (st :: bump_kernel cc)"
proof -
  obtain a p sp where p: "pc_inv snd (p :: bump_kernel pc)" "spans p a = Some sp" "IsUsed sp" "page_num sp = 128"
    using AllocSpan_demo by blast
  have sz: "Size 47 = 32768" by (simp add: Size_def size_table_eq)
  have i: "47 < kNumSizeClasses" by (simp add: kNumSizeClasses_eq)
  have "start_page_idx sp + page_num sp \<le> 2 ^ 35" using pc_inv_span_ok [OF p(1,2)] by (simp add: span_ok_def)
  then have rng: "(start_page_idx sp + page_num sp) * PAGE_SIZE \<le> 2 ^ 48" by (simp add: PAGE_SIZE_def)
  obtain sp' where s: "Init (Size 47) sp = Some sp'" "wf_span sp'" "free_slots sp' = {..<capacity sp'}"
    "capacity sp' = layout_capacity 128 32768" "same_pages sp sp'" "flags sp' = flags sp" "aligned_obj_size sp' = Size 47"
    using Init_wf [of "Size 47" sp, OF _ _ _ rng] p(4) sz
    by (auto simp: same_pages_def layout_capacity_def init_bitmap_num_def init_max_objs_def init_offset_def
        drop_bit_eq_div config_defs)
  have cap: "0 < capacity sp'" unfolding s(4)
    by (simp add: layout_capacity_def init_bitmap_num_def init_max_objs_def init_offset_def drop_bit_eq_div config_defs)
  let ?p = "pc_update a (\<lambda>_. sp') p"
  let ?st = "\<lparr>page_cache = PageCache_ctor boot, buckets = replicate kNumSizeClasses empty_bucket\<rparr>"
  have used: "IsUsed sp'" using s(6) p(3) by (simp add: IsUsed_def)
  have f: "spans ?p = (spans p)(a \<mapsto> sp')" using p(2) by (simp add: pc_update_def)
  have inv0: "cc_inv snd Map.empty (\<lambda>_. {}) ?st"
    using pc_inv_boot by (simp add: cc_inv_def bucket_ok_def empty_bucket_def big_ok_def)
  let ?st1 = "update_bucket 47 (\<lambda>b. b\<lparr>span_list := a # span_list b\<rparr>) (?st\<lparr>page_cache := ?p\<rparr>)"
  have inv1: "cc_inv snd Map.empty (\<lambda>_. {}) ?st1"
  proof (rule add_class_span [OF inv0 i])
    show "pc_inv snd ?p" using p s(5) used by (intro pc_inv_retag) simp_all
    show "class_span (spans ?p) 47 a sp'" unfolding f using used s by (simp add: class_span_def)
    show "used_objs sp' = {}" using s(3) by (simp add: used_objs_def)
  qed (simp_all add: PageCache_ctor_def)
  have "free_slots sp' \<noteq> {}" using s(3) cap by (simp add: lessThan_empty_iff)
  then obtain sp'' obj where o: "AllocObject sp' = Some (sp'', Some obj)" using span_pool.alloc_some [OF s(2)] by blast
  have "a \<in> set (span_list (buckets ?st1 ! 47))" "spans (page_cache ?st1) a = Some sp'"
    using i f by (simp_all add: update_bucket_def)
  from take_object(1) [OF inv1 i this o] show ?thesis by auto
qed

text \<open>A kernel without memory.\<close>

definition empty_os :: "unit os" where
  "empty_os =
     \<lparr>mmap = (\<lambda>_ _ k. (Inl ENOMEM, k)), munmap = (\<lambda>_ _ k. (False, k)), madvise = (\<lambda>_ _ _ k. (False, k)),
      steady_clock_ms = (\<lambda>k. (0, k)), UseMapPopulate = False\<rparr>"

definition empty_boot :: "unit pa" where
  "empty_boot = \<lparr>kernel = (), stats = zero_stats, cache = HugePageCache_ctor\<rparr>"

lemma empty_alloc: "\<exists>s. SystemAlloc empty_os MAX_PAGE_NUM empty_boot = (None, s)"
proof -
  have m: "mmap empty_os n b k = (Inl ENOMEM, k)" for n b k by (simp add: empty_os_def)
  have "\<exists>s. AllocWithRetry empty_os n b t = (None, s)" for n b t
    by (simp add: AllocWithRetry_def MAX_ALLOC_RETRIES_def numeral_3_eq_3 m)
  moreover have "\<not> (MAX_PAGE_NUM = 0 \<or> MAX_PAGE_NUM > drop_bit PAGE_SHIFT SIZE_MAX)"
    "MAX_PAGE_NUM * PAGE_SIZE < drop_bit 1 HUGE_PAGE_SIZE"
    by (simp_all add: MAX_PAGE_NUM_def PAGE_SHIFT_def PAGE_SIZE_def HUGE_PAGE_SIZE_def drop_bit_eq_div)
  ultimately show ?thesis
    by (simp add: SystemAlloc_def page_bytes AllocNormalPage_def count_failed_def Let_def split_beta)
      (metis (no_types, lifting) fst_conv option.simps(4))
qed


lemma empty_AllocSpan:
  assumes "0 < n" and "n \<le> MAX_PAGE_NUM"
  shows "\<exists>p. AllocSpan empty_os n (PageCache_ctor empty_boot) = Some (Inr (None, p))"
proof -
  let ?st = "PageCache_ctor empty_boot"
  obtain s where a: "SystemAlloc empty_os MAX_PAGE_NUM (sys ?st) = (None, s)" using empty_alloc by (auto simp: PageCache_ctor_def)
  have empty: "span_lists ?st ! i = []" if "i \<le> MAX_PAGE_NUM" for i
    using that by (simp add: PageCache_ctor_def del: replicate_Suc)
  then have "split_bucket n ?st = None" unfolding split_bucket_def find_None_iff by (auto simp del: upt_Suc)
  then have "alloc_step empty_os n ?st = Inl (Inr (None, ?st\<lparr>sys := s\<rparr>))"
    using assms empty [of n] a by (simp add: alloc_step_def alloc_refill_def)
  then have "AllocSpan_loop empty_os n ?st = Some (Inr (None, ?st\<lparr>sys := s\<rparr>))" by (simp add: AllocSpan_loop.simps)
  moreover have "\<not> (n = 0 \<or> n > 2 ^ 32 - 1)" using assms by (simp add: MAX_PAGE_NUM_def)
  ultimately show ?thesis by (simp add: AllocSpan_def AllocSpanLocked_def)
qed

section \<open>Properties\<close>



text \<open>
  C8: \<open>ReleaseListToSpans\<close> of objects that are outside of the central cache never fails, however
  many batches it takes: every object is accounted for again, in the TransferCache or in its
  span, and spans without objects in use go back to the page cache.
\<close>

theorem central_release_total:
  assumes "kernel_ok os mapped" and "cc_inv mapped big out st" and "i < kNumSizeClasses"
    and "distinct objs" and "set objs \<subseteq> out i"
  shows "\<exists>st'. ReleaseListToSpans os objs (Size i) st = Some (Inr st') \<and> cc_inv mapped big (out(i := out i - set objs)) st'"
  by (rule ReleaseListToSpans_ok [OF assms(1,3,2,4,5)])

theorem central_release_total_witness:
  "\<exists>st obj st'. cc_inv snd Map.empty ((\<lambda>_. {})(47 := {obj})) st \<and> ReleaseListToSpans bump_os [obj] (Size 47) st = Some (Inr st') \<and>
     cc_inv snd Map.empty (\<lambda>_. {}) st'"
proof -
  obtain st :: "bump_kernel cc" and obj where s: "cc_inv snd Map.empty ((\<lambda>_. {})(47 := {obj})) st"
    using central_object_demo by blast
  have i: "47 < kNumSizeClasses" by (simp add: kNumSizeClasses_eq)
  have "(\<lambda>_ :: nat. {} :: addr set)(47 := {}) = (\<lambda>_. {})" by auto
  with central_release_total [OF kernel_ok_bump s i, of "[obj]"] s show ?thesis by auto
qed

text \<open>
  C9: when the page cache has no span for a refill, \<open>GetOneSpan\<close> returns null without owning the
  bucket lock and the following \<open>unlock\<close> throws: \<open>FetchRange\<close> does not report the smaller
  number of objects that its contract promises, and the objects that it had taken from the
  TransferCache are lost.
\<close>

theorem central_fetch_oom_throws:
  assumes "length (transfer_cache (buckets st ! Index s)) < n" and "needs_span (Index s) st"
    and "AllocSpan os (GetMovePageNum s) (page_cache st) = Some (Inr (None, p))"
  shows "FetchRange os bl n s st = Some (Inl LockNotOwned)"
proof -
  let ?i = "Index s" and ?b = "buckets st ! Index s"
  let ?tc = "transfer_cache ?b"
  obtain chn b where g: "grab n ?b = (chn, b)" by (rule prod.exhaust)
  then have chn: "length chn < n" "span_list b = span_list ?b" using assms(1) by (auto simp: grab_def Let_def)
  let ?st = "update_bucket ?i (\<lambda>_. b) st"
  have l: "span_list (buckets ?st ! ?i) = span_list ?b"
    using chn(2) by (cases "?i < length (buckets st)") (simp_all add: update_bucket_def list_update_beyond)
  have pc: "page_cache ?st = page_cache st" by (simp add: update_bucket_def)
  have "needs_span ?i ?st" unfolding needs_span_def l pc using assms(2) unfolding needs_span_def .
  moreover have "GetOneSpan os ?i s ?st = Some (Inr (False, ?st\<lparr>page_cache := p\<rparr>))"
    using assms(3) pc by (simp add: GetOneSpan_def)
  ultimately have "fetch_step os ?i s k acc ?st = Inl (Some (Inr (False, acc, ?st\<lparr>page_cache := p\<rparr>)))" if "0 < k" for k acc
    using that by (simp add: fetch_step_def)
  then have "fetch_loop os ?i s k acc ?st = Some (Inr (False, acc, ?st\<lparr>page_cache := p\<rparr>))" if "0 < k" for k acc
    using that by (simp add: fetch_loop.simps)
  then show ?thesis using g chn(1) by (simp add: FetchRange_def Let_def fetch_publish_def)
qed

theorem central_fetch_oom_throws_witness:
  "FetchRange empty_os [] 2 (Size 0) \<lparr>page_cache = PageCache_ctor empty_boot, buckets = replicate kNumSizeClasses empty_bucket\<rparr> =
     Some (Inl LockNotOwned)"
proof -
  have i: "0 < kNumSizeClasses" "Index (Size 0) = 0" by (simp_all add: kNumSizeClasses_eq ladder.idx_sz)
  have "0 < GetMovePageNum (Size 0)" "GetMovePageNum (Size 0) \<le> MAX_PAGE_NUM"
    using ladder.sz_pos [OF i(1)] ladder.sz_le [OF i(1)] i(2) layout_tables [OF i(1)]
    by (simp_all add: GetMovePageNum_def class_layout_ok_def)
  then obtain p where "AllocSpan empty_os (GetMovePageNum (Size 0)) (PageCache_ctor empty_boot) = Some (Inr (None, p))"
    using empty_AllocSpan by blast
  then show ?thesis
    by (intro central_fetch_oom_throws) (simp_all add: i empty_bucket_def needs_span_def)
qed

text \<open>
  The TransferCache slices that \<open>InitTransferCache\<close> hands to the buckets have room for eight
  batches each, do not overlap, and lie within the pages that were mapped for them.
\<close>

theorem transfer_slices_disjoint:
  assumes "SystemAlloc os transfer_cache_pages (sys (page_cache st)) = (Some p, s)"
    and "length (buckets st) = kNumSizeClasses" and "i < j" and "j < kNumSizeClasses"
  shows "\<exists>st'. InitTransferCache os st = Inr st' \<and>
    transfer_cache_capacity (buckets st' ! j) = 8 * CalculateBatchSize (Size j) \<and>
    p \<le> transfer_cache_base (buckets st' ! i) \<and>
    transfer_cache_base (buckets st' ! i) + 8 * transfer_cache_capacity (buckets st' ! i) \<le> transfer_cache_base (buckets st' ! j) \<and>
    transfer_cache_base (buckets st' ! j) + 8 * transfer_cache_capacity (buckets st' ! j) \<le> p + transfer_cache_pages * PAGE_SIZE"
proof -
  let ?sum = "\<lambda>k. sum_list (map slice_bytes [0..<k])"
  have step: "?sum (Suc k) = ?sum k + slice_bytes k" for k by simp
  have mono: "?sum k \<le> ?sum l" if "k \<le> l" for k l
    using that by (induction l) (auto simp: le_Suc_eq)
  have n: "buckets (st\<lparr>page_cache := q, buckets := slice_buckets p [0..<kNumSizeClasses] (buckets st)\<rparr>) ! k =
      (buckets st ! k)\<lparr>transfer_cache_capacity := CalculateBatchSize (Size k) * kCapScale, transfer_cache_base := p + ?sum k\<rparr>"
    if "k < kNumSizeClasses" for k q
    using slice_buckets_nth [of kNumSizeClasses "buckets st" 0 k p] assms(2) that by simp
  have "?sum (Suc i) \<le> ?sum j" "?sum (Suc j) \<le> ?sum kNumSizeClasses" using mono assms(3,4) by (metis Suc_leI)+
  then have "?sum i + slice_bytes i \<le> ?sum j" "?sum j + slice_bytes j \<le> transfer_cache_pages * PAGE_SIZE"
    unfolding step using slice_total by linarith+
  then show ?thesis
    using assms(1,3,4) n [OF assms(4)] n [of i] unfolding InitTransferCache_def
    by (simp add: slice_bytes_def kCapScale_def mult.commute mult.left_commute)
qed

theorem transfer_slices_disjoint_witness:
  "\<exists>st'. InitTransferCache bump_os \<lparr>page_cache = PageCache_ctor boot, buckets = replicate kNumSizeClasses empty_bucket\<rparr> = Inr st' \<and>
    transfer_cache_base (buckets st' ! 2) + 8 * transfer_cache_capacity (buckets st' ! 2) \<le> transfer_cache_base (buckets st' ! 5)"
proof -
  have "room (127 + 1) boot" using room_mono [OF room_boot] by simp
  then obtain p s where "SystemAlloc bump_os 127 boot = (Some p, s)" using room_SystemAlloc [of 127 1 boot] by auto
  then have "SystemAlloc bump_os transfer_cache_pages
      (sys (page_cache \<lparr>page_cache = PageCache_ctor boot, buckets = replicate kNumSizeClasses empty_bucket\<rparr>)) = (Some p, s)"
    by (simp add: transfer_cache_pages_eq PageCache_ctor_def)
  from transfer_slices_disjoint [OF this, of 2 5] show ?thesis by (auto simp: kNumSizeClasses_eq)
qed

text \<open>
  \<open>Reset\<close>, when no object is outside of the central cache, always succeeds: every span has
  gone back to the page cache, whose invariant holds before the TransferCache mapping is freed,
  and every bucket is empty.
\<close>

theorem central_reset_empties:
  assumes "kernel_ok os mapped" and "cc_inv mapped big (\<lambda>_. {}) st"
  shows "\<exists>st1. reset_buckets os [0..<kNumSizeClasses] st = Some (Inr st1) \<and> cc_inv mapped big (\<lambda>_. {}) st1 \<and>
    CentralCache_Reset os st = Some (Inr (free_transfer_cache os st1)) \<and>
    (\<forall>b. b \<in> set (buckets (free_transfer_cache os st1)) \<longrightarrow> transfer_cache b = [] \<and> span_list b = [])"
proof -
  have "set [0..<kNumSizeClasses] \<subseteq> {..<kNumSizeClasses}" "distinct [0..<kNumSizeClasses]" by auto
  from reset_buckets_ok [OF assms(1) refl this assms(2)] obtain st1 where
    s: "reset_buckets os [0..<kNumSizeClasses] st = Some (Inr st1)" "cc_inv mapped big (\<lambda>_. {}) st1"
    "\<And>i. buckets st1 ! i = (if i \<in> set [0..<kNumSizeClasses] then (buckets st ! i)\<lparr>transfer_cache := [], span_list := []\<rparr>
       else buckets st ! i)" by blast
  have "length (buckets st1) = kNumSizeClasses" using s(2) by (simp add: cc_inv_def)
  then have "transfer_cache b = [] \<and> span_list b = []" if "b \<in> set (buckets st1)" for b
    using that s(3) by (auto simp: in_set_conv_nth)
  then have "transfer_cache b = [] \<and> span_list b = []" if "b \<in> set (buckets (free_transfer_cache os st1))" for b
    using that by (auto simp: free_transfer_cache_def split: if_splits)
  then show ?thesis using s by (simp add: CentralCache_Reset_def)
qed

theorem central_reset_empties_witness:
  "\<exists>st st'. CentralCache_ctor bump_os (PageCache_ctor boot) = Inr st \<and> CentralCache_Reset bump_os st = Some (Inr st')"
  using central_demo central_reset_empties [OF kernel_ok_bump] by blast

end
