(* ===== verification/Free_List.thy ===== *)
theory Free_List
  imports Am_Prelude
begin

text \<open>
  \<open>FreeList\<close> of \<open>central_cache.h\<close>: the intrusive LIFO chain through the bodies of free objects,
  on an explicit store of their \<open>next\<close> words (address 0 is null), with the quota counters, and
  the two loops of \<open>thread_cache.cpp\<close> that pop objects and relink them into a chain.  The
  operations are proved to implement those on the sequence of linked objects, which is the
  representation the thread cache and the central cache use.
\<close>

section \<open>Operations\<close>

type_synonym fb_heap = "addr \<Rightarrow> addr"

record free_list =
  fl_head :: addr
  fl_size :: nat
  fl_max_size :: nat
  fl_overages :: nat

definition FreeList_ctor :: free_list where
  "FreeList_ctor = \<lparr>fl_head = 0, fl_size = 0, fl_max_size = 1, fl_overages = 0\<rparr>"

definition fl_empty :: "free_list \<Rightarrow> bool" where
  "fl_empty fl \<longleftrightarrow> fl_head fl = 0"

definition fl_clear :: "free_list \<Rightarrow> free_list" where
  "fl_clear fl = fl\<lparr>fl_head := 0, fl_size := 0\<rparr>"

definition fl_push :: "addr \<Rightarrow> fb_heap \<Rightarrow> free_list \<Rightarrow> fb_heap \<times> free_list" where
  "fl_push ptr h fl =
     (if ptr = 0 then (h, fl)
      else (h(ptr := fl_head fl), fl\<lparr>fl_head := ptr, fl_size := (fl_size fl + 1) mod 2 ^ 32\<rparr>))"

definition fl_push_range :: "addr \<Rightarrow> addr \<Rightarrow> nat \<Rightarrow> fb_heap \<Rightarrow> free_list \<Rightarrow> fb_heap \<times> free_list" where
  "fl_push_range first last_obj count h fl =
     (if first = 0 \<or> last_obj = 0 \<or> count = 0 then (h, fl)
      else (h(last_obj := fl_head fl), fl\<lparr>fl_head := first, fl_size := (fl_size fl + count) mod 2 ^ 32\<rparr>))"

definition fl_pop :: "fb_heap \<Rightarrow> free_list \<Rightarrow> addr option \<times> free_list" where
  "fl_pop h fl =
     (if fl_empty fl then (None, fl)
      else (Some (fl_head fl), fl\<lparr>fl_head := h (fl_head fl), fl_size := (fl_size fl + 2 ^ 32 - 1) mod 2 ^ 32\<rparr>))"

definition fl_set_max_size :: "nat \<Rightarrow> free_list \<Rightarrow> free_list" where
  "fl_set_max_size n fl = fl\<lparr>fl_max_size := n mod 2 ^ 32\<rparr>"

definition fl_set_overages :: "nat \<Rightarrow> free_list \<Rightarrow> free_list" where
  "fl_set_overages n fl = fl\<lparr>fl_overages := n mod 2 ^ 32\<rparr>"

text \<open>
  The loop of \<open>DeallocateSlowPath\<close>, which stops on an empty list, and that of \<open>ReleaseAll\<close>,
  which trusts the object count; \<open>None\<close> there is the write through a null pointer.
\<close>

primrec pop_batch :: "nat \<Rightarrow> addr \<Rightarrow> fb_heap \<Rightarrow> free_list \<Rightarrow> addr \<times> fb_heap \<times> free_list" where
  "pop_batch 0 start h fl = (start, h, fl)"
| "pop_batch (Suc n) start h fl =
     (case fl_pop h fl of
        (None, fl') \<Rightarrow> (start, h, fl')
      | (Some ptr, fl') \<Rightarrow> pop_batch n ptr (h(ptr := start)) fl')"

primrec pop_count :: "nat \<Rightarrow> addr \<Rightarrow> fb_heap \<Rightarrow> free_list \<Rightarrow> (addr \<times> fb_heap \<times> free_list) option" where
  "pop_count 0 start h fl = Some (start, h, fl)"
| "pop_count (Suc n) start h fl =
     (case fl_pop h fl of
        (None, fl') \<Rightarrow> None
      | (Some ptr, fl') \<Rightarrow> pop_count n ptr (h(ptr := start)) fl')"

section \<open>The sequence of linked objects\<close>

fun chain :: "fb_heap \<Rightarrow> addr \<Rightarrow> addr list \<Rightarrow> bool" where
  "chain h p [] \<longleftrightarrow> p = 0"
| "chain h p (x # xs) \<longleftrightarrow> p = x \<and> x \<noteq> 0 \<and> chain h (h x) xs"

definition holds :: "fb_heap \<Rightarrow> free_list \<Rightarrow> addr list \<Rightarrow> bool" where
  "holds h fl xs \<longleftrightarrow> chain h (fl_head fl) xs \<and> fl_size fl = length xs \<and> distinct xs \<and> length xs < 2 ^ 32"

lemma chain_frame [simp]: "x \<notin> set xs \<Longrightarrow> chain (h(x := y)) p xs = chain h p xs"
  by (induction xs arbitrary: p) auto

lemma holds_frame: "x \<notin> set xs \<Longrightarrow> holds (h(x := y)) fl xs = holds h fl xs"
  by (simp add: holds_def)

lemma chain_append:
  "chain h p (xs @ ys) \<longleftrightarrow> (\<exists>q. (if xs = [] then p = q else chain (h(last xs := 0)) p xs \<and> h (last xs) = q) \<and> chain h q ys)"
  if "distinct xs"
  using that
proof (induction xs arbitrary: p)
  case (Cons x xs)
  show ?case
  proof (cases "xs = []")
    case False
    then have "x \<noteq> last xs" using Cons.prems by auto
    with Cons False show ?thesis by auto
  qed auto
qed simp

lemma chain_nonzero: "chain h p xs \<Longrightarrow> 0 \<notin> set xs"
  by (induction xs arbitrary: p) auto

lemma holds_ctor: "holds h FreeList_ctor []"
  by (simp add: holds_def FreeList_ctor_def)

lemma holds_empty: "holds h fl xs \<Longrightarrow> fl_empty fl \<longleftrightarrow> xs = []"
  by (cases xs) (auto simp: holds_def fl_empty_def)

lemma holds_push:
  assumes "holds h fl xs" and "ptr \<noteq> 0" and "ptr \<notin> set xs" and "length xs + 1 < 2 ^ 32"
  shows "holds (fst (fl_push ptr h fl)) (snd (fl_push ptr h fl)) (ptr # xs)"
proof -
  have "chain (h(ptr := fl_head fl)) (fl_head fl) xs" using assms(1,3) by (simp add: holds_def)
  then show ?thesis using assms by (simp add: holds_def fl_push_def)
qed

lemma holds_pop_Cons:
  assumes "holds h fl (x # xs)"
  shows "\<exists>fl'. fl_pop h fl = (Some x, fl') \<and> holds h fl' xs \<and> fl_max_size fl' = fl_max_size fl \<and>
    fl_overages fl' = fl_overages fl"
proof -
  have "(length (x # xs) + 2 ^ 32 - 1) mod 2 ^ 32 = length xs"
    using assms by (simp add: holds_def)
  then show ?thesis using assms by (auto simp: holds_def fl_pop_def fl_empty_def)
qed

lemma holds_pop_Nil: "holds h fl [] \<Longrightarrow> fl_pop h fl = (None, fl)"
  by (simp add: holds_def fl_pop_def fl_empty_def)

lemma holds_push_range:
  assumes "holds h fl xs" and "chain (h(last ys := 0)) p ys" and "ys \<noteq> []" and "distinct (ys @ xs)"
    and "length ys + length xs < 2 ^ 32"
  shows "(case fl_push_range p (last ys) (length ys) h fl of (h', fl') \<Rightarrow> holds h' fl' (ys @ xs))"
proof -
  have "p = hd ys" using assms(2,3) by (cases ys) auto
  then have nz: "p \<noteq> 0" "last ys \<noteq> 0"
    using chain_nonzero [OF assms(2)] last_in_set [OF assms(3)] hd_in_set [OF assms(3)] by metis+
  let ?h = "h(last ys := fl_head fl)"
  have "chain ?h (fl_head fl) xs"
  proof -
    have "last ys \<notin> set xs" using assms(4) last_in_set [OF assms(3)] by auto
    then show ?thesis using assms(1) by (simp add: holds_def)
  qed
  then have "chain ?h p (ys @ xs)" using assms(2-4) by (subst chain_append) auto
  with assms nz show ?thesis by (simp add: holds_def fl_push_range_def add.commute)
qed

section \<open>The contract of a LIFO list\<close>

text \<open>
  \<open>rel h l xs\<close>: in the store \<open>h\<close> the list \<open>l\<close> holds \<open>xs\<close>.  The relinking loops rely on nothing
  else than that \<open>pop\<close> removes the front and that writing a word outside of the list keeps it.
\<close>

locale lifo =
  fixes rel :: "fb_heap \<Rightarrow> 'l \<Rightarrow> addr list \<Rightarrow> bool" and pop :: "fb_heap \<Rightarrow> 'l \<Rightarrow> addr option \<times> 'l"
  assumes rel_frame: "x \<notin> set xs \<Longrightarrow> rel (h(x := y)) l xs = rel h l xs"
    and rel_ok: "rel h l xs \<Longrightarrow> distinct xs \<and> 0 \<notin> set xs"
    and pop_Nil: "rel h l [] \<Longrightarrow> pop h l = (None, l)"
    and pop_Cons: "rel h l (x # xs) \<Longrightarrow> \<exists>l'. pop h l = (Some x, l') \<and> rel h l' xs"
begin

primrec relink :: "nat \<Rightarrow> addr \<Rightarrow> fb_heap \<Rightarrow> 'l \<Rightarrow> addr \<times> fb_heap \<times> 'l" where
  "relink 0 start h l = (start, h, l)"
| "relink (Suc n) start h l =
     (case pop h l of (None, l') \<Rightarrow> (start, h, l') | (Some ptr, l') \<Rightarrow> relink n ptr (h(ptr := start)) l')"

lemma relink_chain:
  assumes "rel h l xs" and "chain h start ys" and "set xs \<inter> set ys = {}"
  shows "case relink n start h l of (start', h', l') \<Rightarrow>
    chain h' start' (rev (take n xs) @ ys) \<and> rel h' l' (drop n xs)"
  using assms
proof (induction n arbitrary: start h l xs ys)
  case (Suc n)
  show ?case
  proof (cases xs)
    case Nil
    then show ?thesis using Suc.prems pop_Nil by auto
  next
    case (Cons x xs')
    then obtain l' where p: "pop h l = (Some x, l')" "rel h l' xs'" using pop_Cons Suc.prems(1) by blast
    have x: "x \<noteq> 0" "x \<notin> set xs'" "x \<notin> set ys" using rel_ok [OF Suc.prems(1)] Suc.prems(3) Cons by auto
    have r: "rel (h(x := start)) l' xs'" using rel_frame [OF x(2)] p(2) by blast
    have c: "chain (h(x := start)) x (x # ys)"
      using Suc.prems(2) x by simp
    have d: "set xs' \<inter> set (x # ys) = {}" using Suc.prems(3) Cons x by auto
    have e: "rev (take (Suc n) xs) @ ys = rev (take n xs') @ x # ys" "drop (Suc n) xs = drop n xs'"
      using Cons by simp_all
    show ?thesis unfolding e relink.simps p(1) prod.case option.case by (rule Suc.IH [OF r c d])
  qed
qed simp

end

interpretation fl: lifo holds fl_pop
proof unfold_locales
  fix h :: fb_heap and l :: free_list and xs
  show "holds h l xs \<Longrightarrow> distinct xs \<and> 0 \<notin> set xs" using chain_nonzero by (auto simp: holds_def)
qed (use holds_frame holds_pop_Nil holds_pop_Cons in blast)+

lemma pop_batch_relink: "pop_batch n start h l = fl.relink n start h l"
  by (induction n arbitrary: start h l) (auto split: prod.splits option.splits)

lemma pop_count_relink:
  "holds h l xs \<Longrightarrow> n \<le> length xs \<Longrightarrow> 
     pop_count n start h l = Some (fl.relink n start h l)"
proof (induction n arbitrary: start h l xs)
  case (Suc n)
  then obtain x xs' where xs: "xs = x # xs'" by (cases xs) auto
  obtain l' where p: "fl_pop h l = (Some x, l')" "holds h l' xs'"
    using holds_pop_Cons Suc.prems(1) xs by blast
  have "x \<notin> set xs'" using Suc.prems(1) xs by (simp add: holds_def)
  then have "holds (h(x := start)) l' xs'" using holds_frame p(2) by blast
  moreover have "n \<le> length xs'" using Suc.prems(2) xs by simp
  ultimately show ?case
    unfolding pop_count.simps fl.relink.simps p(1) prod.case option.case by (rule Suc.IH)
qed simp

section \<open>Properties\<close>

text \<open>
  C32: the pointer-level \<open>FreeList\<close> implements a stack of objects: pushing an object or a linked
  batch puts it in front, popping returns the front object, the counters never wrap, and objects
  of other lists are not written.
\<close>

theorem free_list_refines:
  assumes "holds h fl xs" and "ptr \<noteq> 0" and "ptr \<notin> set xs"
    and "chain (h(last ys := 0)) p ys" and "ys \<noteq> []" and "distinct (ys @ xs)" and "length ys + length xs < 2 ^ 32"
  shows "(case fl_push ptr h fl of (h', fl') \<Rightarrow>
      holds h' fl' (ptr # xs) \<and> (\<forall>q. q \<noteq> ptr \<longrightarrow> h' q = h q) \<and> fl_pop h' fl' = (Some ptr, fl)) \<and>
    (case fl_push_range p (last ys) (length ys) h fl of (h', fl') \<Rightarrow>
      holds h' fl' (ys @ xs) \<and> (\<forall>q. q \<noteq> last ys \<longrightarrow> h' q = h q)) \<and>
    (case fl_pop h fl of (r, fl') \<Rightarrow>
      r = (case xs of [] \<Rightarrow> None | x # _ \<Rightarrow> Some x) \<and> holds h fl' (tl xs))"
proof (intro conjI)
  have "0 < length ys" using assms(5) by simp
  then have len: "length xs + 1 < 2 ^ 32" using assms(7) by linarith
  have "fl_size fl + 1 < 2 ^ 32" "fl_size fl < 2 ^ 32" using assms(1) len by (simp_all add: holds_def)
  then have "snd (fl_pop (fst (fl_push ptr h fl)) (snd (fl_push ptr h fl))) = fl"
    using assms(2) by (simp add: fl_push_def fl_pop_def fl_empty_def)
  then show "case fl_push ptr h fl of (h', fl') \<Rightarrow>
      holds h' fl' (ptr # xs) \<and> (\<forall>q. q \<noteq> ptr \<longrightarrow> h' q = h q) \<and> fl_pop h' fl' = (Some ptr, fl)"
    using holds_push [OF assms(1-3) len] assms(2) by (auto simp: fl_push_def fl_pop_def fl_empty_def)
  show "case fl_push_range p (last ys) (length ys) h fl of (h', fl') \<Rightarrow>
      holds h' fl' (ys @ xs) \<and> (\<forall>q. q \<noteq> last ys \<longrightarrow> h' q = h q)"
    using holds_push_range [OF assms(1,4-7)] by (auto simp: fl_push_range_def)
  show "case fl_pop h fl of (r, fl') \<Rightarrow>
      r = (case xs of [] \<Rightarrow> None | x # _ \<Rightarrow> Some x) \<and> holds h fl' (tl xs)"
    using assms(1) holds_pop_Nil holds_pop_Cons by (cases xs) fastforce+
qed

theorem free_list_refines_witness:
  "case fl_push 16 (\<lambda>_. 0) FreeList_ctor of (h', fl') \<Rightarrow> holds h' fl' [16] \<and> fl_pop h' fl' = (Some 16, FreeList_ctor)"
  using free_list_refines [of "\<lambda>_. 0" FreeList_ctor "[]" 16 "[32]" 32] holds_ctor by auto

text \<open>
  The loops that trim a thread cache relink exactly the popped objects, most recent last,
  into a well-formed chain and leave the rest of the list; \<open>ReleaseAll\<close> never dereferences null.
\<close>

theorem pop_loops_relink:
  assumes "holds h fl xs"
  shows "(case pop_batch n 0 h fl of (start, h', fl') \<Rightarrow> chain h' start (rev (take n xs)) \<and> holds h' fl' (drop n xs)) \<and>
    (\<exists>start h' fl'. pop_count (fl_size fl) 0 h fl = Some (start, h', fl') \<and> chain h' start (rev xs) \<and> holds h' fl' [])"
proof (intro conjI)
  have c: "chain h 0 []" by simp
  show "case pop_batch n 0 h fl of (start, h', fl') \<Rightarrow> chain h' start (rev (take n xs)) \<and> holds h' fl' (drop n xs)"
    using fl.relink_chain [OF assms c, of n] by (simp add: pop_batch_relink)
  have n: "fl_size fl = length xs" using assms by (simp add: holds_def)
  show "\<exists>start h' fl'. pop_count (fl_size fl) 0 h fl = Some (start, h', fl') \<and> chain h' start (rev xs) \<and> holds h' fl' []"
    unfolding n using fl.relink_chain [OF assms c, of "length xs"] pop_count_relink [OF assms, of "length xs" 0]
    by (auto split: prod.splits)
qed

theorem pop_loops_relink_witness:
  "\<exists>start h' fl'. pop_count 2 0 ((\<lambda>_. 0)(16 := 32)) \<lparr>fl_head = 16, fl_size = 2, fl_max_size = 4, fl_overages = 0\<rparr> =
     Some (start, h', fl') \<and> chain h' start [32, 16]"
proof -
  have "holds ((\<lambda>_. 0)(16 := 32)) \<lparr>fl_head = 16, fl_size = 2, fl_max_size = 4, fl_overages = 0\<rparr> [16, 32]"
    by (simp add: holds_def)
  from pop_loops_relink [OF this, of 0, THEN conjunct2] show ?thesis by auto
qed

end
