(* ===== verification/Thread_Cache.thy ===== *)
theory Thread_Cache
  imports Central_Cache_Fetch Free_List
begin

text \<open>
  \<open>ThreadCache\<close> of \<open>thread_cache.h\<close> and \<open>thread_cache.cpp\<close>.  A free list is the sequence of its
  objects with the two quota counters (the representation that \<open>Free_List\<close> implements, relinking
  loops included).  Exceptions of the central cache are results of the model; the slow paths are
  \<open>noexcept\<close>, so that they end the process.
\<close>

section \<open>State\<close>

record tc_list =
  objs :: "addr list"
  max_size :: nat
  overages :: nat

type_synonym thread_cache = "tc_list list"

definition tc_list_ctor :: tc_list where
  "tc_list_ctor = \<lparr>objs = [], max_size = 1, overages = 0\<rparr>"

definition ThreadCache_ctor :: thread_cache where
  "ThreadCache_ctor = replicate kNumSizeClasses tc_list_ctor"

definition set_max_size :: "nat \<Rightarrow> tc_list \<Rightarrow> tc_list" where
  "set_max_size n l = l\<lparr>max_size := n mod 2 ^ 32\<rparr>"

definition set_overages :: "nat \<Rightarrow> tc_list \<Rightarrow> tc_list" where
  "set_overages n l = l\<lparr>overages := n mod 2 ^ 32\<rparr>"

definition tc_pop :: "tc_list \<Rightarrow> addr option \<times> tc_list" where
  "tc_pop l = (case objs l of [] \<Rightarrow> (None, l) | x # xs \<Rightarrow> (Some x, l\<lparr>objs := xs\<rparr>))"

definition tc_push :: "addr \<Rightarrow> tc_list \<Rightarrow> tc_list" where
  "tc_push ptr l = (if ptr = 0 then l else l\<lparr>objs := ptr # objs l\<rparr>)"

section \<open>Allocate\<close>

text \<open>The slow-start policy after a refill.\<close>

definition grow_quota :: "nat \<Rightarrow> tc_list \<Rightarrow> tc_list" where
  "grow_quota batch_num l =
     (if max_size l < batch_num then
        set_max_size (min batch_num (max_size l + max 1 (max_size l))) l
      else if max_size l < batch_num * 8 then
        set_max_size (min (batch_num * 8) (max_size l + max 1 (batch_num div 8))) l
      else l)"

definition FetchFromCentralCache ::
  "'k os \<Rightarrow> tc_list \<Rightarrow> nat \<Rightarrow> 'k cc \<Rightarrow> (cc_error + addr option \<times> tc_list \<times> 'k cc) option" where
  "FetchFromCentralCache os l aligned_size st =
     (let batch_num = CalculateBatchSize aligned_size;
          fetch_num = min batch_num (max_size l)
      in case FetchRange os (objs l) fetch_num aligned_size st of
           None \<Rightarrow> None
         | Some (Inl e) \<Rightarrow> Some (Inl e)
         | Some (Inr (n, xs, st')) \<Rightarrow>
             if n = 0 then Some (Inr (None, l\<lparr>objs := xs\<rparr>, st'))
             else let (r, l') = tc_pop (set_overages 0 (grow_quota batch_num (l\<lparr>objs := xs\<rparr>)))
                  in Some (Inr (r, l', st')))"

definition Allocate ::
  "'k os \<Rightarrow> nat \<Rightarrow> thread_cache \<Rightarrow> 'k cc \<Rightarrow> (cc_error + addr option \<times> thread_cache \<times> 'k cc) option" where
  "Allocate os aligned_size tc st =
     (let idx = Index aligned_size
      in if objs (tc ! idx) \<noteq> [] then
           let (r, l) = tc_pop (tc ! idx) in Some (Inr (r, tc[idx := l], st))
         else map_option (map_sum id (\<lambda>(r, l, st'). (r, tc[idx := l], st')))
                (FetchFromCentralCache os (tc ! idx) aligned_size st))"

section \<open>Deallocate\<close>

definition kMaxOverages :: nat where "kMaxOverages = 3"

text \<open>The decay policy after a trim.\<close>

definition decay_quota :: "nat \<Rightarrow> tc_list \<Rightarrow> tc_list" where
  "decay_quota batch_num l =
     (if max_size l > batch_num then
        let l1 = set_overages (overages l + 1) l
        in if overages l1 \<ge> kMaxOverages then
             set_overages 0 (set_max_size (max (max_size l1 - batch_num) batch_num) l1)
           else l1
      else set_overages 0 l)"

definition DeallocateSlowPath ::
  "'k os \<Rightarrow> tc_list \<Rightarrow> nat \<Rightarrow> 'k cc \<Rightarrow> (cc_error + tc_list \<times> 'k cc) option" where
  "DeallocateSlowPath os l aligned_size st =
     (let batch_num = CalculateBatchSize aligned_size;
          start = rev (take batch_num (objs l));
          l1 = decay_quota batch_num (l\<lparr>objs := drop batch_num (objs l)\<rparr>)
      in if start = [] then Some (Inr (l1, st))
         else map_option (map_sum id (\<lambda>st'. (l1, st'))) (ReleaseListToSpans os start aligned_size st))"

definition Deallocate ::
  "'k os \<Rightarrow> addr \<Rightarrow> nat \<Rightarrow> thread_cache \<Rightarrow> 'k cc \<Rightarrow> (cc_error + thread_cache \<times> 'k cc) option" where
  "Deallocate os ptr aligned_size tc st =
     (let idx = Index aligned_size; l = tc_push ptr (tc ! idx)
      in if length (objs l) > max_size l then
           map_option (map_sum id (\<lambda>(l', st'). (tc[idx := l'], st'))) (DeallocateSlowPath os l aligned_size st)
         else Some (Inr (tc[idx := l], st)))"

section \<open>ReleaseAll\<close>

primrec release_classes ::
  "'k os \<Rightarrow> nat list \<Rightarrow> thread_cache \<Rightarrow> 'k cc \<Rightarrow> (cc_error + thread_cache \<times> 'k cc) option" where
  "release_classes os [] tc st = Some (Inr (tc, st))"
| "release_classes os (i # is) tc st =
     (if objs (tc ! i) = [] then release_classes os is tc st
      else case ReleaseListToSpans os (rev (objs (tc ! i))) (Size i) st of
        None \<Rightarrow> None
      | Some (Inl e) \<Rightarrow> Some (Inl e)
      | Some (Inr st') \<Rightarrow>
          release_classes os is
            (tc[i := set_overages 0 (set_max_size 1 ((tc ! i)\<lparr>objs := []\<rparr>))]) st')"

definition ReleaseAll :: "'k os \<Rightarrow> thread_cache \<Rightarrow> 'k cc \<Rightarrow> (cc_error + thread_cache \<times> 'k cc) option" where
  "ReleaseAll os tc st = release_classes os [0..<kNumSizeClasses] tc st"

section \<open>Invariant\<close>

text \<open>
  The quota stays between 1 and eight batches, and the list exceeds it by at most one object,
  right after a decay.
\<close>

definition list_ok :: "nat \<Rightarrow> tc_list \<Rightarrow> bool" where
  "list_ok b l \<longleftrightarrow>
     distinct (objs l) \<and> 1 \<le> max_size l \<and> max_size l \<le> 8 * b \<and> overages l < kMaxOverages \<and>
     length (objs l) \<le> max_size l + (if overages l = 0 then 1 else 0)"

definition tc_ok :: "thread_cache \<Rightarrow> bool" where
  "tc_ok tc \<longleftrightarrow> length tc = kNumSizeClasses \<and> (\<forall>i < kNumSizeClasses. list_ok (CalculateBatchSize (Size i)) (tc ! i))"

lemma batch_bounds:
  assumes "i < kNumSizeClasses"
  shows "2 \<le> CalculateBatchSize (Size i)" and "CalculateBatchSize (Size i) \<le> 512"
  using layout_tables [OF assms] ladder.sz_pos [OF assms] ladder.sz_le [OF assms] ladder.idx_sz [OF assms]
  by (simp_all add: CalculateBatchSize_def class_layout_ok_def kMaxBatchSize_def)

lemma grow_quota_ok:
  assumes "1 \<le> max_size l" and "max_size l \<le> 8 * b" and "2 \<le> b" and "b \<le> 512"
  shows "max_size l \<le> max_size (grow_quota b l)" and "max_size (grow_quota b l) \<le> 8 * b"
    and "objs (grow_quota b l) = objs l"
proof -
  have mod: "x mod 2 ^ 32 = x" if "x \<le> 8 * b" for x using that assms(4) by simp
  have le: "min b (max_size l + max 1 (max_size l)) \<le> 8 * b" "min (b * 8) (max_size l + max 1 (b div 8)) \<le> 8 * b" by linarith+
  show "max_size l \<le> max_size (grow_quota b l)" "max_size (grow_quota b l) \<le> 8 * b" "objs (grow_quota b l) = objs l"
    unfolding grow_quota_def set_max_size_def mod [OF le(1)] mod [OF le(2)] using assms le by auto
qed

lemma objs_decay [simp]: "objs (decay_quota b l) = objs l"
  by (simp add: decay_quota_def Let_def set_overages_def set_max_size_def)

lemma decay_quota_ok:
  assumes "1 \<le> max_size l" and "max_size l \<le> 8 * b" and "2 \<le> b" and "b \<le> 512" and "overages l < kMaxOverages"
    and "distinct (objs l)" and "length (objs l) + b \<le> max_size l + (if overages l = 0 then 2 else 1) \<or> objs l = []"
  shows "list_ok b (decay_quota b l)"
proof -
  have m: "(max (max_size l - b) b) mod 2 ^ 32 = max (max_size l - b) b" using assms(2,4) by simp
  have o: "(overages l + 1) mod 2 ^ 32 = overages l + 1" using assms(5) by (simp add: kMaxOverages_def)
  show ?thesis
  proof (cases "max_size l > b")
    case False
    then have "decay_quota b l = l\<lparr>overages := 0\<rparr>" by (simp add: decay_quota_def set_overages_def)
    then show ?thesis using assms by (auto simp: list_ok_def kMaxOverages_def split: if_splits)
  next
    case True
    show ?thesis
    proof (cases "overages l + 1 \<ge> kMaxOverages")
      case over: True
      then have "decay_quota b l = l\<lparr>overages := 0, max_size := max (max_size l - b) b\<rparr>"
        using True m o by (simp add: decay_quota_def Let_def set_overages_def set_max_size_def)
      moreover have "overages l \<noteq> 0" using over by (simp add: kMaxOverages_def)
      ultimately show ?thesis using assms by (auto simp: list_ok_def kMaxOverages_def)
    next
      case False
      then have "decay_quota b l = l\<lparr>overages := overages l + 1\<rparr>"
        using True o by (simp add: decay_quota_def Let_def set_overages_def)
      then show ?thesis using assms False by (auto simp: list_ok_def split: if_splits)
    qed
  qed
qed

lemma tc_ok_update:
  "tc_ok tc \<Longrightarrow> i < kNumSizeClasses \<Longrightarrow> list_ok (CalculateBatchSize (Size i)) l \<Longrightarrow> tc_ok (tc[i := l])"
  by (auto simp: tc_ok_def nth_list_update)

lemma tc_ok_ctor: "tc_ok ThreadCache_ctor"
proof -
  have "list_ok (CalculateBatchSize (Size i)) tc_list_ctor" if "i < kNumSizeClasses" for i
    using batch_bounds [OF that] by (simp add: list_ok_def tc_list_ctor_def kMaxOverages_def)
  then show ?thesis by (simp add: tc_ok_def ThreadCache_ctor_def)
qed

section \<open>Allocate\<close>

text \<open>\<open>new\<close> are the objects that came from the central cache.\<close>

definition allocated ::
  "('k \<Rightarrow> addr set) \<Rightarrow> (addr \<Rightarrow> span option) \<Rightarrow> (nat \<Rightarrow> addr set) \<Rightarrow> nat \<Rightarrow> thread_cache \<Rightarrow> addr option \<times> thread_cache \<times> 'k cc \<Rightarrow> bool" where
  "allocated mapped big out i tc res \<longleftrightarrow>
     (case res of (r, tc', st') \<Rightarrow> \<exists>p new. r = Some p \<and> tc_ok tc' \<and> (\<forall>k. k \<noteq> i \<longrightarrow> tc' ! k = tc ! k) \<and>
        cc_inv mapped big (out(i := out i \<union> new)) st' \<and> new \<inter> out i = {} \<and>
        p \<notin> set (objs (tc' ! i)) \<and> insert p (set (objs (tc' ! i))) = set (objs (tc ! i)) \<union> new)"

lemma list_ok_pop: "list_ok b l \<Longrightarrow> objs l = x # xs \<Longrightarrow> list_ok b (l\<lparr>objs := xs\<rparr>)"
  by (auto simp: list_ok_def split: if_splits)

lemma Allocate_ok:
  assumes os: "kernel_ok os mapped" and inv: "cc_inv mapped big out st" and i: "i < kNumSizeClasses" and tc: "tc_ok tc"
  shows "\<exists>res. Allocate os (Size i) tc st = Some res \<and>
    (case res of Inl e \<Rightarrow> e = InPageCache (Exn BadAlloc) \<or> e = LockNotOwned | Inr r \<Rightarrow> allocated mapped big out i tc r)"
proof -
  let ?b = "CalculateBatchSize (Size i)"
  have idx: "Index (Size i) = i" using i by (rule ladder.idx_sz)
  have len: "i < length tc" using tc i by (simp add: tc_ok_def)
  have l: "list_ok ?b (tc ! i)" using tc i by (simp add: tc_ok_def)
  show ?thesis
  proof (cases "objs (tc ! i)")
    case (Cons x xs)
    let ?tc = "tc[i := (tc ! i)\<lparr>objs := xs\<rparr>]"
    have "tc_ok ?tc" by (rule tc_ok_update [OF tc i list_ok_pop [OF l Cons]])
    moreover have "x \<notin> set xs" using l Cons by (simp add: list_ok_def)
    ultimately have "allocated mapped big out i tc (Some x, ?tc, st)"
      using inv len Cons unfolding allocated_def by (auto intro!: exI [of _ "{}"])
    moreover have "Allocate os (Size i) tc st = Some (Inr (Some x, ?tc, st))"
      using Cons idx by (simp add: Allocate_def tc_pop_def Let_def)
    ultimately show ?thesis by simp
  next
    case Nil
    let ?n = "min ?b (max_size (tc ! i))"
    note bb = batch_bounds [OF i]
    have n: "0 < ?n" using l bb by (simp add: list_ok_def)
    obtain res where r: "FetchRange os [] ?n (Size i) st = Some res"
      "case res of Inl e \<Rightarrow> e = InPageCache (Exn BadAlloc) \<or> e = LockNotOwned
       | Inr (m, xs, st') \<Rightarrow> m = ?n \<and> (\<exists>chn. xs = chn @ [] \<and> length chn = ?n \<and> distinct chn \<and> set chn \<inter> out i = {} \<and>
           cc_inv mapped big (out(i := out i \<union> set chn)) st')"
      using FetchRange_ok [OF os inv i n, of "[]"] by blast
    show ?thesis
    proof (cases res)
      case (Inl e)
      then show ?thesis using r idx Nil by (simp add: Allocate_def FetchFromCentralCache_def Let_def)
    next
      case (Inr y)
      obtain m xs st' where y: "y = (m, xs, st')" by (metis prod.collapse)
      have x: "m = ?n" "length xs = ?n" "distinct xs" "set xs \<inter> out i = {}" "cc_inv mapped big (out(i := out i \<union> set xs)) st'"
        using r(2) unfolding Inr y by auto
      then obtain p ps where ps: "xs = p # ps" using n by (cases xs) auto
      let ?refill = "(tc ! i)\<lparr>objs := xs\<rparr>"
      let ?l = "(set_overages 0 (grow_quota ?b ?refill))\<lparr>objs := ps\<rparr>"
      have ms: "1 \<le> max_size ?refill" "max_size ?refill \<le> 8 * ?b" using l by (simp_all add: list_ok_def)
      note g = grow_quota_ok [OF ms bb]
      have "length ps \<le> max_size (tc ! i)" using x(2) ps by simp
      then have "list_ok ?b ?l" using g ms x(3) ps by (simp add: list_ok_def set_overages_def kMaxOverages_def)
      then have "tc_ok (tc[i := ?l])" by (rule tc_ok_update [OF tc i])
      then have "allocated mapped big out i tc (Some p, tc[i := ?l], st')"
        using x len ps Nil unfolding allocated_def by (auto intro!: exI [of _ "set xs"])
      moreover have "tc_pop (set_overages 0 (grow_quota ?b ?refill)) = (Some p, ?l)"
        using g(3) ps by (simp add: tc_pop_def set_overages_def)
      then have "Allocate os (Size i) tc st = Some (Inr (Some p, tc[i := ?l], st'))"
        using r(1) Inr y x(1) n idx Nil by (simp add: Allocate_def FetchFromCentralCache_def Let_def)
      ultimately show ?thesis by simp
    qed
  qed
qed


section \<open>Deallocate\<close>

lemma out_nonzero:
  assumes inv: "cc_inv mapped big out st" and i: "i < kNumSizeClasses" and x: "x \<in> out i"
  shows "x \<noteq> 0"
proof -
  let ?f = "spans (page_cache st)"
  have pc: "pc_inv mapped (page_cache st)" and ok: "bucket_ok ?f i (out i) (buckets st ! i)" using inv i by (simp_all add: cc_inv_def)
  obtain a sp where a: "?f a = Some sp" "x \<in> used_objs sp" using ok x unfolding bucket_ok_def by blast
  have "0 < start_page_idx sp" using pc_inv_span_ok [OF pc a(1)] by (simp add: span_ok_def)
  then show ?thesis using a(2)
    by (auto simp: used_objs_def slot_addr_def GetDataBasePtr_def GetPageBaseAddr_def push_bit_eq_mult)
qed

text \<open>\<open>given\<close> are the objects that went to the central cache.\<close>

lemma Deallocate_ok:
  assumes os: "kernel_ok os mapped" and inv: "cc_inv mapped big out st" and i: "i < kNumSizeClasses" and tc: "tc_ok tc"
    and p: "p \<in> out i" "p \<notin> set (objs (tc ! i))" and sub: "set (objs (tc ! i)) \<subseteq> out i"
  shows "\<exists>tc' st' given. Deallocate os p (Size i) tc st = Some (Inr (tc', st')) \<and> tc_ok tc' \<and>
    (\<forall>k. k \<noteq> i \<longrightarrow> tc' ! k = tc ! k) \<and> cc_inv mapped big (out(i := out i - given)) st' \<and>
    given \<subseteq> insert p (set (objs (tc ! i))) \<and> set (objs (tc' ! i)) = insert p (set (objs (tc ! i))) - given"
proof -
  let ?b = "CalculateBatchSize (Size i)"
  note bb = batch_bounds [OF i]
  have idx: "Index (Size i) = i" using i by (rule ladder.idx_sz)
  have len: "i < length tc" using tc i by (simp add: tc_ok_def)
  have l: "list_ok ?b (tc ! i)" using tc i by (simp add: tc_ok_def)
  have nz: "p \<noteq> 0" by (rule out_nonzero [OF inv i p(1)])
  let ?xs = "p # objs (tc ! i)"
  define m where "m = (tc ! i)\<lparr>objs := ?xs\<rparr>"
  have push: "tc_push p (tc ! i) = m" using nz by (simp add: tc_push_def m_def)
  have mf: "objs m = ?xs" "max_size m = max_size (tc ! i)" "overages m = overages (tc ! i)" by (simp_all add: m_def)
  have d: "distinct ?xs" using l p(2) by (simp add: list_ok_def)
  show ?thesis
  proof (cases "length ?xs > max_size (tc ! i)")
    case False
    then have "list_ok ?b m" using l d mf by (simp add: list_ok_def)
    then have ok: "tc_ok (tc[i := m])" by (rule tc_ok_update [OF tc i])
    moreover have "Deallocate os p (Size i) tc st = Some (Inr (tc[i := m], st))"
      using False idx push mf by (simp add: Deallocate_def Let_def)
    ultimately show ?thesis using inv len mf by (intro exI [of _ "tc[i := m]"] exI [of _ st] exI [of _ "{}"]) simp
  next
    case True
    let ?start = "rev (take ?b ?xs)"
    define l1 where "l1 = decay_quota ?b (m\<lparr>objs := drop ?b ?xs\<rparr>)"
    have "length (drop ?b ?xs) + ?b \<le> max_size (tc ! i) + (if overages (tc ! i) = 0 then 2 else 1) \<or> drop ?b ?xs = []"
      using l by (auto simp: list_ok_def split: if_splits)
    then have ok1: "list_ok ?b l1"
      unfolding l1_def using l d mf bb by (intro decay_quota_ok; simp add: list_ok_def)
    have o1: "objs l1 = drop ?b ?xs" by (simp add: l1_def)
    have ne: "?start \<noteq> []" using bb by simp
    have st: "distinct ?start" "set ?start \<subseteq> out i"
      using d p(1) sub set_take_subset [of ?b ?xs] by (simp_all add: distinct_take del: take_Cons') blast
    obtain st' where r: "ReleaseListToSpans os ?start (Size i) st = Some (Inr st')" "cc_inv mapped big (out(i := out i - set ?start)) st'"
      using ReleaseListToSpans_ok [OF os i inv st] by blast
    have "Deallocate os p (Size i) tc st = Some (Inr (tc[i := l1], st'))"
      using True idx push mf ne r(1) by (simp add: Deallocate_def DeallocateSlowPath_def Let_def l1_def)
    moreover have "tc_ok (tc[i := l1])" by (rule tc_ok_update [OF tc i ok1])
    moreover have "set ?start \<subseteq> insert p (set (objs (tc ! i)))" using set_take_subset [of ?b ?xs] by auto
    moreover have "set (drop ?b ?xs) = set ?xs - set ?start"
    proof -
      have "set ?xs = set (take ?b ?xs) \<union> set (drop ?b ?xs)" by (metis append_take_drop_id set_append)
      then show ?thesis using set_take_disj_set_drop_if_distinct [OF d, of ?b ?b] by auto
    qed
    ultimately show ?thesis using r(2) len o1
      by (intro exI [of _ "tc[i := l1]"] exI [of _ st'] exI [of _ "set ?start"]) simp
  qed
qed


section \<open>ReleaseAll\<close>

lemma release_classes_ok:
  assumes os: "kernel_ok os mapped"
  shows "set is \<subseteq> {..<kNumSizeClasses} \<Longrightarrow> distinct is \<Longrightarrow> cc_inv mapped big out st \<Longrightarrow> tc_ok tc \<Longrightarrow>
    (\<And>i. i < kNumSizeClasses \<Longrightarrow> set (objs (tc ! i)) \<subseteq> out i) \<Longrightarrow>
    \<exists>tc' st'. release_classes os is tc st = Some (Inr (tc', st')) \<and> tc_ok tc' \<and>
      (\<forall>i. objs (tc' ! i) = (if i \<in> set is then [] else objs (tc ! i))) \<and>
      cc_inv mapped big (\<lambda>i. if i \<in> set is then out i - set (objs (tc ! i)) else out i) st'"
proof (induction "is" arbitrary: out st tc)
  case (Cons i js)
  have i: "i < kNumSizeClasses" "i \<notin> set js" using Cons.prems(1,2) by simp_all
  have js: "set js \<subseteq> {..<kNumSizeClasses}" "distinct js" using Cons.prems(1,2) by simp_all
  have len: "i < length tc" using Cons.prems(4) i by (simp add: tc_ok_def)
  let ?out = "\<lambda>tc out k. if k \<in> set js then out k - set (objs (tc ! k)) else out k"
  let ?goal = "\<lambda>k. if k \<in> set (i # js) then out k - set (objs (tc ! k)) else out k"
  show ?case
  proof (cases "objs (tc ! i) = []")
    case True
    have e: "?out tc out = ?goal" using True by (intro ext) auto
    obtain tc' st' where "release_classes os js tc st = Some (Inr (tc', st'))" "tc_ok tc'"
      "\<And>k. objs (tc' ! k) = (if k \<in> set js then [] else objs (tc ! k))" "cc_inv mapped big (?out tc out) st'"
      using Cons.IH [OF js Cons.prems(3-5)] by blast
    then show ?thesis using True e by (intro exI [of _ tc'] exI [of _ st']) simp
  next
    case False
    let ?l = "set_overages 0 (set_max_size 1 ((tc ! i)\<lparr>objs := []\<rparr>))" and ?O = "out(i := out i - set (objs (tc ! i)))"
    have "distinct (rev (objs (tc ! i)))" "set (rev (objs (tc ! i))) \<subseteq> out i"
      using Cons.prems(4,5) i(1) by (simp_all add: tc_ok_def list_ok_def)
    from ReleaseListToSpans_ok [OF os i(1) Cons.prems(3) this] obtain st1 where
      r: "ReleaseListToSpans os (rev (objs (tc ! i))) (Size i) st = Some (Inr st1)" "cc_inv mapped big ?O st1" by auto
    have "list_ok (CalculateBatchSize (Size i)) ?l"
      using batch_bounds [OF i(1)] by (simp add: list_ok_def set_overages_def set_max_size_def kMaxOverages_def)
    then have ok: "tc_ok (tc[i := ?l])" by (rule tc_ok_update [OF Cons.prems(4) i(1)])
    have ob: "objs (tc[i := ?l] ! k) = (if k = i then [] else objs (tc ! k))" for k
      using len by (simp add: set_overages_def set_max_size_def)
    have sub: "set (objs (tc[i := ?l] ! k)) \<subseteq> ?O k" if "k < kNumSizeClasses" for k
      unfolding ob using Cons.prems(5) [OF that] by simp
    have e: "?out (tc[i := ?l]) ?O = ?goal" unfolding ob using i(2) by (intro ext) (auto split: if_splits)
    obtain tc' st' where "release_classes os js (tc[i := ?l]) st1 = Some (Inr (tc', st'))" "tc_ok tc'"
      "\<And>k. objs (tc' ! k) = (if k \<in> set js then [] else objs (tc[i := ?l] ! k))" "cc_inv mapped big (?out (tc[i := ?l]) ?O) st'"
      using Cons.IH [OF js r(2) ok sub] by blast
    then show ?thesis using False r(1) e ob by (intro exI [of _ tc'] exI [of _ st']) simp
  qed
qed simp

lemma ReleaseAll_ok:
  assumes os: "kernel_ok os mapped" and inv: "cc_inv mapped big out st" and tc: "tc_ok tc"
    and sub: "\<And>i. i < kNumSizeClasses \<Longrightarrow> set (objs (tc ! i)) \<subseteq> out i"
  shows "\<exists>tc' st'. ReleaseAll os tc st = Some (Inr (tc', st')) \<and> (\<forall>i < kNumSizeClasses. objs (tc' ! i) = []) \<and>
    cc_inv mapped big (\<lambda>i. if i < kNumSizeClasses then out i - set (objs (tc ! i)) else out i) st'"
proof -
  have "set [0..<kNumSizeClasses] \<subseteq> {..<kNumSizeClasses}" "distinct [0..<kNumSizeClasses]" by auto
  from release_classes_ok [OF os this inv tc sub] show ?thesis unfolding ReleaseAll_def by auto
qed

section \<open>Properties\<close>



end
