(* ===== verification/Am_Malloc.thy ===== *)
theory Am_Malloc
  imports Thread_Cache
begin

text \<open>
  The entry points \<open>am_malloc\<close> and \<open>am_free\<close> of \<open>ammalloc.cpp\<close> with the thread-local state of every
  thread: its \<open>ThreadCache\<close> with the address of its storage, and whether its cleaner has run.
  Calls are atomic; which thread makes which call is arbitrary.  Starting the scavenger thread is
  the flag \<open>scavenger_started\<close>.
\<close>

section \<open>State\<close>

text \<open>\<open>NullConstruct\<close>: the placement \<open>new\<close> of a \<open>ThreadCache\<close> at address 0.\<close>

datatype am_error = InCentral cc_error | NullConstruct

record 'k am =
  central :: "'k cc"
  tls :: "nat \<Rightarrow> (addr \<times> thread_cache) option"
  tc_destructed :: "nat \<Rightarrow> bool"
  enable_scavenger :: bool
  scavenger_started :: bool

definition am_sys :: "'k am \<Rightarrow> 'k pa" where
  "am_sys st = sys (page_cache (central st))"

definition set_sys :: "'k pa \<Rightarrow> 'k am \<Rightarrow> 'k am" where
  "set_sys s st =
     st\<lparr>central := (central st)\<lparr>page_cache := (page_cache (central st))\<lparr>sys := s\<rparr>\<rparr>\<rparr>"

definition set_pages :: "'k pc \<Rightarrow> 'k am \<Rightarrow> 'k am" where
  "set_pages p st = st\<lparr>central := (central st)\<lparr>page_cache := p\<rparr>\<rparr>"

text \<open>\<open>sizeof (ThreadCache)\<close>: a \<open>FreeList\<close> has a pointer and three 32-bit counters, padded to 24 bytes.\<close>

definition thread_cache_pages :: nat where
  "thread_cache_pages = drop_bit PAGE_SHIFT (kNumSizeClasses * 24 + PAGE_SIZE - 1)"

section \<open>Thread caches\<close>

definition CreateThreadCache :: "'k os \<Rightarrow> nat \<Rightarrow> 'k am \<Rightarrow> am_error + (addr \<times> thread_cache) option \<times> 'k am" where
  "CreateThreadCache os t st =
     (if tc_destructed st t then Inr (None, st)
      else case tls st t of
        Some c \<Rightarrow> Inr (Some c, st)
      | None \<Rightarrow>
          (case SystemAlloc os thread_cache_pages (am_sys st) of
             (None, s) \<Rightarrow> Inl NullConstruct
           | (Some ptr, s) \<Rightarrow> Inr (Some (ptr, ThreadCache_ctor), set_sys s st)))"

text \<open>\<open>pTLSThreadCache\<close> after the test for null that both slow paths make.\<close>

definition ensure_tls :: "'k os \<Rightarrow> nat \<Rightarrow> 'k am \<Rightarrow> am_error + (addr \<times> thread_cache) option \<times> 'k am" where
  "ensure_tls os t st =
     (case tls st t of
        Some c \<Rightarrow> Inr (Some c, st)
      | None \<Rightarrow>
          (case CreateThreadCache os t st of
             Inl e \<Rightarrow> Inl e
           | Inr (c, st') \<Rightarrow> Inr (c, st'\<lparr>tls := (tls st')(t := c)\<rparr>)))"

definition ReleaseThreadCache :: "'k os \<Rightarrow> addr \<Rightarrow> 'k am \<Rightarrow> 'k am" where
  "ReleaseThreadCache os ptr st =
     (if ptr = 0 then st else set_sys (SystemFree os ptr thread_cache_pages (am_sys st)) st)"

text \<open>The destructor of \<open>ThreadCacheCleaner\<close>, when thread \<open>t\<close> ends.\<close>

definition thread_exit :: "'k os \<Rightarrow> nat \<Rightarrow> 'k am \<Rightarrow> (am_error + 'k am) option" where
  "thread_exit os t st =
     (let st1 = st\<lparr>tc_destructed := (tc_destructed st)(t := True)\<rparr>
      in case tls st t of
           None \<Rightarrow> Some (Inr st1)
         | Some (ptr, tc) \<Rightarrow>
             map_option (map_sum InCentral (\<lambda>(_, c).
                 (ReleaseThreadCache os ptr (st1\<lparr>central := c\<rparr>))\<lparr>tls := (tls st)(t := None)\<rparr>))
               (ReleaseAll os tc (central st1)))"

section \<open>am_malloc\<close>

definition EnsureScavengerStarted :: "'k am \<Rightarrow> 'k am" where
  "EnsureScavengerStarted st =
     (if \<not> enable_scavenger st then st
      else if \<not> scavenger_started st then st\<lparr>scavenger_started := True\<rparr> else st)"

definition tls_allocate ::
  "'k os \<Rightarrow> nat \<Rightarrow> addr \<times> thread_cache \<Rightarrow> nat \<Rightarrow> 'k am \<Rightarrow> (am_error + addr option \<times> 'k am) option" where
  "tls_allocate os t c original_size st =
     map_option (map_sum InCentral (\<lambda>(r, tc', cc').
         (r, st\<lparr>central := cc', tls := (tls st)(t := Some (fst c, tc'))\<rparr>)))
       (Allocate os (RoundUp original_size) (snd c) (central st))"

definition am_malloc_slow_path :: "'k os \<Rightarrow> nat \<Rightarrow> nat \<Rightarrow> 'k am \<Rightarrow> (am_error + addr option \<times> 'k am) option" where
  "am_malloc_slow_path os t original_size st =
     (let st0 = EnsureScavengerStarted st
      in if original_size > MAX_TC_SIZE then
           (let pages = drop_bit PAGE_SHIFT (AlignUp original_size PAGE_SIZE)
            in case AllocSpan os pages (page_cache (central st0)) of
                 None \<Rightarrow> None
               | Some (Inl e) \<Rightarrow> Some (Inl (InCentral (InPageCache e)))
               | Some (Inr (None, p)) \<Rightarrow> Some (Inr (None, set_pages p st0))
               | Some (Inr (Some a, p)) \<Rightarrow>
                   (case spans p a of
                      None \<Rightarrow> Some (Inl (InCentral (InPageCache Dangling)))
                    | Some sp \<Rightarrow> Some (Inr (Some (GetPageBaseAddr sp), set_pages p st0))))
         else
           (case ensure_tls os t st0 of
              Inl e \<Rightarrow> Some (Inl e)
            | Inr (None, st1) \<Rightarrow> Some (Inr (None, st1))
            | Inr (Some c, st1) \<Rightarrow> tls_allocate os t c original_size st1))"

definition am_malloc :: "'k os \<Rightarrow> nat \<Rightarrow> nat \<Rightarrow> 'k am \<Rightarrow> (am_error + addr option \<times> 'k am) option" where
  "am_malloc os t original_size st =
     (case tls st t of
        None \<Rightarrow> am_malloc_slow_path os t original_size st
      | Some c \<Rightarrow>
          if original_size > MAX_TC_SIZE then am_malloc_slow_path os t original_size st
          else tls_allocate os t c original_size st)"

section \<open>am_free\<close>

definition tls_deallocate ::
  "'k os \<Rightarrow> nat \<Rightarrow> addr \<times> thread_cache \<Rightarrow> addr \<Rightarrow> nat \<Rightarrow> 'k am \<Rightarrow> (am_error + 'k am) option" where
  "tls_deallocate os t c ptr aligned_size st =
     map_option (map_sum InCentral (\<lambda>(tc', cc'). st\<lparr>central := cc', tls := (tls st)(t := Some (fst c, tc'))\<rparr>))
       (Deallocate os ptr aligned_size (snd c) (central st))"

definition am_free_slow_path :: "'k os \<Rightarrow> nat \<Rightarrow> addr \<Rightarrow> addr \<Rightarrow> nat \<Rightarrow> 'k am \<Rightarrow> (am_error + 'k am) option" where
  "am_free_slow_path os t ptr a aligned_size st =
     (if aligned_size = 0 then
        map_option (map_sum (InCentral \<circ> InPageCache) (\<lambda>p. set_pages p st)) (ReleaseSpan os a (page_cache (central st)))
      else case ensure_tls os t st of
        Inl e \<Rightarrow> Some (Inl e)
      | Inr (None, st1) \<Rightarrow>
          map_option (map_sum InCentral (\<lambda>cc'. st1\<lparr>central := cc'\<rparr>))
            (ReleaseListToSpans os [ptr] aligned_size (central st1))
      | Inr (Some c, st1) \<Rightarrow> tls_deallocate os t c ptr aligned_size st1)"

definition am_free :: "'k os \<Rightarrow> nat \<Rightarrow> addr \<Rightarrow> 'k am \<Rightarrow> (am_error + 'k am) option" where
  "am_free os t ptr st =
     (if ptr = 0 then Some (Inr st)
      else case GetSpan_ptr (pmap (page_cache (central st))) ptr of
        None \<Rightarrow> Some (Inr st)
      | Some a \<Rightarrow>
          (case spans (page_cache (central st)) a of
             None \<Rightarrow> Some (Inl (InCentral (InPageCache Dangling)))
           | Some sp \<Rightarrow>
               (case tls st t of
                  None \<Rightarrow> am_free_slow_path os t ptr a (aligned_obj_size sp) st
                | Some c \<Rightarrow>
                    if aligned_obj_size sp = 0 then am_free_slow_path os t ptr a (aligned_obj_size sp) st
                    else tls_deallocate os t c ptr (aligned_obj_size sp) st)))"

section \<open>Invariant\<close>

definition tc_objs :: "'k am \<Rightarrow> nat \<Rightarrow> nat \<Rightarrow> addr set" where
  "tc_objs st t i = (case tls st t of None \<Rightarrow> {} | Some c \<Rightarrow> set (objs (snd c ! i)))"

text \<open>
  \<open>held i\<close> are the objects of class \<open>i\<close> and \<open>big\<close> the spans that the program holds.  Every object
  outside of the central cache is held or in exactly one thread cache.
\<close>

definition am_inv ::
  "('k \<Rightarrow> addr set) \<Rightarrow> (nat \<Rightarrow> addr set) \<Rightarrow> (addr \<Rightarrow> span option) \<Rightarrow> 'k am \<Rightarrow> bool" where
  "am_inv mapped held big st \<longleftrightarrow>
     cc_inv mapped big (\<lambda>i. held i \<union> (\<Union>t. tc_objs st t i)) (central st) \<and>
     (\<forall>t c. tls st t = Some c \<longrightarrow> tc_ok (snd c)) \<and>
     (\<forall>i < kNumSizeClasses. \<forall>t. held i \<inter> tc_objs st t i = {}) \<and>
     (\<forall>i < kNumSizeClasses. \<forall>t u. t \<noteq> u \<longrightarrow> tc_objs st t i \<inter> tc_objs st u i = {}) \<and>
     (\<forall>i. kNumSizeClasses \<le> i \<longrightarrow> held i = {})"

lemma am_inv_step:
  assumes inv: "am_inv mapped held big st" and i: "i < kNumSizeClasses"
    and tc: "tls st t = Some c" "tc_ok tc'" "\<And>k. k \<noteq> i \<Longrightarrow> tc' ! k = snd c ! k"
    and cc: "cc_inv mapped big ((\<lambda>i. held i \<union> (\<Union>t. tc_objs st t i))(i := Q)) cc'"
    and Q: "Q = H \<union> (\<Union>u \<in> - {t}. tc_objs st u i) \<union> set (objs (tc' ! i))"
    and H: "H \<inter> set (objs (tc' ! i)) = {}" "\<And>u. u \<noteq> t \<Longrightarrow> H \<inter> tc_objs st u i = {}"
    and dis: "\<And>u. u \<noteq> t \<Longrightarrow> tc_objs st u i \<inter> set (objs (tc' ! i)) = {}"
  shows "am_inv mapped (held(i := H)) big (st\<lparr>central := cc', tls := (tls st)(t := Some (fst c, tc'))\<rparr>)"
proof -
  let ?st = "st\<lparr>central := cc', tls := (tls st)(t := Some (fst c, tc'))\<rparr>"
  have ch: "tc_objs ?st u k = (if u = t \<and> k = i then set (objs (tc' ! i)) else tc_objs st u k)" for u k
    using tc(1,3) by (auto simp: tc_objs_def)
  have e: "(\<lambda>k. (held(i := H)) k \<union> (\<Union>u. tc_objs ?st u k)) = (\<lambda>i. held i \<union> (\<Union>t. tc_objs st t i))(i := Q)"
  proof (rule ext)
    fix k
    show "(held(i := H)) k \<union> (\<Union>u. tc_objs ?st u k) = ((\<lambda>i. held i \<union> (\<Union>t. tc_objs st t i))(i := Q)) k"
      unfolding ch Q by (cases "k = i") (auto split: if_splits)
  qed
  have "cc_inv mapped big (\<lambda>k. (held(i := H)) k \<union> (\<Union>u. tc_objs ?st u k)) (central ?st)" unfolding e using cc by simp
  moreover have "tc_ok (snd d)" if "tls ?st u = Some d" for u d
  proof (cases "u = t")
    case False
    then have "tls st u = Some d" using that by simp
    then show ?thesis using inv unfolding am_inv_def by blast
  qed (use that tc(2) in auto)
  moreover have "(held(i := H)) k \<inter> tc_objs ?st u k = {}" if "k < kNumSizeClasses" for k u
    unfolding ch using inv H that unfolding am_inv_def by (cases "k = i"; cases "u = t") simp_all
  moreover have "tc_objs ?st u k \<inter> tc_objs ?st v k = {}" if "k < kNumSizeClasses" "u \<noteq> v" for k u v
    unfolding ch using inv dis that unfolding am_inv_def by (auto simp: Int_commute)
  moreover have "(held(i := H)) k = {}" if "kNumSizeClasses \<le> k" for k
    using inv that i unfolding am_inv_def by auto
  ultimately show ?thesis unfolding am_inv_def by blast
qed

lemma tls_allocate_ok:
  assumes os: "kernel_ok os mapped" and inv: "am_inv mapped held big st" and c: "tls st t = Some c" and n: "n \<le> MAX_TC_SIZE"
  shows "\<exists>res. tls_allocate os t c n st = Some res \<and>
    (case res of Inl e \<Rightarrow> e = InCentral (InPageCache (Exn BadAlloc)) \<or> e = InCentral LockNotOwned
     | Inr (r, st') \<Rightarrow> \<exists>p. r = Some p \<and> p \<notin> held (Index n) \<and> am_inv mapped (held(Index n := insert p (held (Index n)))) big st')"
proof -
  let ?i = "Index n" and ?out = "\<lambda>i. held i \<union> (\<Union>t. tc_objs st t i)"
  have i: "?i < kNumSizeClasses" by (rule Index_less [OF n])
  have sz: "RoundUp n = Size ?i" by (rule RoundUp_eq [OF n])
  have cc: "cc_inv mapped big ?out (central st)" and tc: "tc_ok (snd c)" using inv c unfolding am_inv_def by blast+
  obtain res where r: "Allocate os (Size ?i) (snd c) (central st) = Some res"
    "case res of Inl e \<Rightarrow> e = InPageCache (Exn BadAlloc) \<or> e = LockNotOwned | Inr r \<Rightarrow> allocated mapped big ?out ?i (snd c) r"
    using Allocate_ok [OF os cc i tc] by blast
  show ?thesis
  proof (cases res)
    case (Inl e)
    then show ?thesis using r sz by (simp add: tls_allocate_def)
  next
    case (Inr y)
    obtain x tc' cc' where y: "y = (x, tc', cc')" by (metis prod.collapse)
    obtain p new where a: "x = Some p" "tc_ok tc'" "\<And>k. k \<noteq> ?i \<Longrightarrow> tc' ! k = snd c ! k"
      "cc_inv mapped big (?out(?i := ?out ?i \<union> new)) cc'" "new \<inter> ?out ?i = {}"
      "p \<notin> set (objs (tc' ! ?i))" "insert p (set (objs (tc' ! ?i))) = set (objs (snd c ! ?i)) \<union> new"
      using r(2) unfolding Inr y allocated_def by auto
    have ct: "tc_objs st t ?i = set (objs (snd c ! ?i))" using c by (simp add: tc_objs_def)
    have hc: "held ?i \<inter> tc_objs st u ?i = {}" for u using inv i unfolding am_inv_def by blast
    have cu: "tc_objs st u ?i \<inter> tc_objs st t ?i = {}" if "u \<noteq> t" for u using inv i that unfolding am_inv_def by blast
    have un: "(\<Union>u. tc_objs st u ?i) = (\<Union>u \<in> - {t}. tc_objs st u ?i) \<union> tc_objs st t ?i" by auto
    have np: "p \<notin> held ?i" "p \<notin> tc_objs st u ?i" if "u \<noteq> t" for u
      using a(5,7) ct hc [of t] cu [OF that] by blast+
    have sub: "set (objs (tc' ! ?i)) \<subseteq> tc_objs st t ?i \<union> new" using a(7) ct by blast
    have inv': "am_inv mapped (held(?i := insert p (held ?i))) big
        (st\<lparr>central := cc', tls := (tls st)(t := Some (fst c, tc'))\<rparr>)"
    proof (rule am_inv_step [OF inv i c a(2,3,4)])
      show "?out ?i \<union> new = insert p (held ?i) \<union> (\<Union>u \<in> - {t}. tc_objs st u ?i) \<union> set (objs (tc' ! ?i))"
        unfolding un ct using a(7) by blast
      show "insert p (held ?i) \<inter> set (objs (tc' ! ?i)) = {}" using a(5,6) hc [of t] sub by blast
      show "insert p (held ?i) \<inter> tc_objs st u ?i = {}" if "u \<noteq> t" for u using hc [of u] np(2) [OF that] by blast
      show "tc_objs st u ?i \<inter> set (objs (tc' ! ?i)) = {}" if "u \<noteq> t" for u using cu [OF that] a(5) sub by blast
    qed
    have "p \<notin> held ?i" using a(5,7) ct hc [of t] by blast
    then show ?thesis using r(1) sz inv' unfolding Inr y a(1) by (simp add: tls_allocate_def)
  qed
qed


section \<open>Creating a thread cache\<close>

lemma pc_inv_SystemAlloc:
  assumes "kernel_ok os mapped" and "pc_inv mapped p" and "SystemAlloc os n (sys p) = (r, s)"
  shows "pc_inv mapped (p\<lparr>sys := s\<rparr>)"
proof -
  have "mem_inv mapped (span_mem (spans p)) (sys p) (span_pool p) (node_pool p)" using assms(2) by (simp add: pc_inv_def)
  from mem_SystemAlloc [OF assms(1) this assms(3)]
  have "mem_inv mapped (span_mem (spans p)) s (span_pool p) (node_pool p)" by (auto simp: mem_inv_def)
  then show ?thesis using assms(2) by (simp add: pc_inv_def)
qed

lemma tc_objs_ctor: "objs (ThreadCache_ctor ! i) = []" if "i < kNumSizeClasses"
  using that by (simp add: ThreadCache_ctor_def tc_list_ctor_def)

lemma cc_inv_cong: "(\<And>i. i < kNumSizeClasses \<Longrightarrow> out' i = out i) \<Longrightarrow> cc_inv mapped big out' st = cc_inv mapped big out st"
  by (simp add: cc_inv_def)

lemma ensure_tls_ok:
  assumes os: "kernel_ok os mapped" and inv: "am_inv mapped held big st"
  shows "case ensure_tls os t st of
      Inl e \<Rightarrow> e = NullConstruct
    | Inr (c, st') \<Rightarrow> am_inv mapped held big st' \<and> tls st' t = c"
proof (cases "tls st t")
  case (Some c)
  then show ?thesis using inv by (simp add: ensure_tls_def)
next
  case None
  show ?thesis
  proof (cases "tc_destructed st t")
    case True
    have "st\<lparr>tls := (tls st)(t := None)\<rparr> = st" using None by (simp add: fun_upd_idem)
    then show ?thesis using None True inv by (simp add: ensure_tls_def CreateThreadCache_def)
  next
    case False
    obtain r s where a: "SystemAlloc os thread_cache_pages (am_sys st) = (r, s)" by (rule prod.exhaust)
    show ?thesis
    proof (cases r)
      case r: None
      then show ?thesis using None False a by (simp add: ensure_tls_def CreateThreadCache_def)
    next
      case (Some ptr)
      let ?st = "(set_sys s st)\<lparr>tls := (tls st)(t := Some (ptr, ThreadCache_ctor))\<rparr>"
      have run: "ensure_tls os t st = Inr (Some (ptr, ThreadCache_ctor), ?st)"
        using None False a Some by (simp add: ensure_tls_def CreateThreadCache_def set_sys_def)
      have ch: "tc_objs ?st u i = tc_objs st u i" if "i < kNumSizeClasses" for u i
        using None tc_objs_ctor [OF that] by (simp add: tc_objs_def)
      let ?out = "\<lambda>st i. held i \<union> (\<Union>t. tc_objs st t i)"
      have cc: "cc_inv mapped big (?out st) (central st)" using inv by (simp add: am_inv_def)
      have "pc_inv mapped ((page_cache (central st))\<lparr>sys := s\<rparr>)"
        using pc_inv_SystemAlloc [OF os _ a [unfolded am_sys_def]] cc by (simp add: cc_inv_def)
      then have "cc_inv mapped big (?out st) (central ?st)" using cc by (simp add: cc_inv_def set_sys_def)
      then have "cc_inv mapped big (?out ?st) (central ?st)" using ch by (subst cc_inv_cong) simp_all
      moreover have "tc_ok (snd c)" if "tls ?st u = Some c" for u c
      proof (cases "u = t")
        case False
        then have "tls st u = Some c" using that by (simp add: set_sys_def)
        then show ?thesis using inv unfolding am_inv_def by blast
      qed (use that tc_ok_ctor in auto)
      moreover have "held i \<inter> tc_objs ?st u i = {}" if "i < kNumSizeClasses" for i u
        unfolding ch [OF that] using inv that unfolding am_inv_def by blast
      moreover have "tc_objs ?st u i \<inter> tc_objs ?st v i = {}" if "i < kNumSizeClasses" "u \<noteq> v" for i u v
        unfolding ch [OF that(1)] using inv that unfolding am_inv_def by blast
      moreover have "held i = {}" if "kNumSizeClasses \<le> i" for i using inv that unfolding am_inv_def by blast
      ultimately have "am_inv mapped held big ?st" unfolding am_inv_def by blast
      then show ?thesis unfolding run by simp
    qed
  qed
qed

lemma scavenger_inv: "am_inv mapped held big st \<Longrightarrow> am_inv mapped held big (EnsureScavengerStarted st)"
  by (simp add: am_inv_def EnsureScavengerStarted_def tc_objs_def)

section \<open>Changes of the page cache\<close>

lemma am_inv_pages:
  assumes inv: "am_inv mapped held big st" and p: "pc_inv mapped p" and big: "big_ok (spans p) big'"
    and keep: "\<And>c sc. spans (page_cache (central st)) c = Some sc \<Longrightarrow> IsUsed sc \<Longrightarrow> aligned_obj_size sc \<noteq> 0 \<Longrightarrow>
      spans p c = Some sc"
  shows "am_inv mapped held big' (set_pages p st)"
proof -
  let ?out = "\<lambda>st i. held i \<union> (\<Union>t. tc_objs st t i)"
  have ch: "tc_objs (set_pages p st) u i = tc_objs st u i" "tls (set_pages p st) = tls st" for u i
    by (simp_all add: tc_objs_def set_pages_def)
  have cc: "cc_inv mapped big (?out st) (central st)" using inv by (simp add: am_inv_def)
  have "bucket_ok (spans p) i (?out st i) (buckets (central st) ! i)" if i: "i < kNumSizeClasses" for i
  proof -
    have ok: "bucket_ok (spans (page_cache (central st))) i (?out st i) (buckets (central st) ! i)"
      using cc i by (simp add: cc_inv_def)
    show ?thesis
    proof (rule bucket_frame [OF ok])
      fix a assume "a \<in> set (span_list (buckets (central st) ! i))"
      then obtain sp where "class_span (spans (page_cache (central st))) i a sp" using bucket_span [OF ok] by blast
      then show "spans p a = spans (page_cache (central st)) a" using keep [of a sp] by (auto simp: class_span_def wf_span_def)
    qed
  qed
  then have "cc_inv mapped big' (?out st) (central (set_pages p st))"
    using cc p big by (simp add: cc_inv_def set_pages_def)
  then show ?thesis using inv unfolding am_inv_def ch by blast
qed

lemma malloc_pages:
  assumes n: "n < 2 ^ 64" and pos: "0 < drop_bit PAGE_SHIFT (AlignUp n PAGE_SIZE)"
  shows "n \<le> drop_bit PAGE_SHIFT (AlignUp n PAGE_SIZE) * PAGE_SIZE"
proof (cases "n = 0")
  case False
  let ?m = "(4095 + n) mod 2 ^ 64"
  have "has_single_bit (of_nat PAGE_SIZE)" by (simp add: PAGE_SIZE_def has_single_bit_def popcount_def) code_simp
  then have "AlignUp n PAGE_SIZE = ?m - ?m mod 4096"
    using False by (simp add: AlignUp_def align_down_def PAGE_SIZE_def)
  then have e: "drop_bit PAGE_SHIFT (AlignUp n PAGE_SIZE) = (?m - ?m mod 4096) div 4096"
    by (simp add: drop_bit_eq_div PAGE_SHIFT_def)
  show ?thesis
  proof (cases "n + 4095 < 2 ^ 64")
    case True
    then have m: "?m = n + 4095" by simp
    have d: "(y - y mod 4096) div 4096 = y div 4096" for y :: nat by (simp add: minus_mod_eq_mult_div)
    have "n \<le> (n + 4095) div 4096 * 4096" by linarith
    then show ?thesis unfolding e m d by (simp add: PAGE_SIZE_def)
  next
    case wrap: False
    then have "?m = n + 4095 - 2 ^ 64" using n by (simp add: mod_if)
    then have "?m < 4096" using n by linarith
    then have "(?m - ?m mod 4096) div 4096 = 0" by simp
    then show ?thesis using pos e by simp
  qed
qed simp


section \<open>am_malloc and am_free\<close>

text \<open>The memory blocks that the program holds, with their usable sizes.\<close>

definition live_blocks :: "(nat \<Rightarrow> addr set) \<Rightarrow> (addr \<Rightarrow> span option) \<Rightarrow> (addr \<times> nat) set" where
  "live_blocks held big =
     {(p, Size i) | p i. p \<in> held i} \<union> {(GetPageBaseAddr sp, page_num sp * PAGE_SIZE) | sp. sp \<in> ran big}"

lemma base_bytes: "bytes (GetPageBaseAddr sp) (page_num sp * PAGE_SIZE) = span_bytes sp"
  by (simp add: span_bytes_def GetPageBaseAddr_def page_bytes)

lemma slot_bytes:
  assumes "wf_span sp" and "j < capacity sp"
  shows "bytes (slot_addr sp j) (aligned_obj_size sp) \<subseteq> span_bytes sp"
proof -
  have "j * aligned_obj_size sp + aligned_obj_size sp \<le> capacity sp * aligned_obj_size sp"
    using assms(2) by (metis Suc_leI add.commute mult_Suc mult_le_mono1)
  then have "obj_offset sp + j * aligned_obj_size sp + aligned_obj_size sp \<le> page_num sp * PAGE_SIZE"
    using wf_fits [OF assms(1)] by linarith
  moreover have "slot_addr sp j = start_page_idx sp * PAGE_SIZE + (obj_offset sp + j * aligned_obj_size sp)"
    by (simp add: slot_addr_def GetDataBasePtr_def GetPageBaseAddr_def page_bytes)
  ultimately show ?thesis by (auto simp: span_bytes_def bytes_def)
qed

lemma slots_disjoint:
  assumes "j \<noteq> k"
  shows "bytes (slot_addr sp j) (aligned_obj_size sp) \<inter> bytes (slot_addr sp k) (aligned_obj_size sp) = {}"
proof -
  have *: "x * s + s \<le> y * s" if "x < y" for x y s :: nat
    using that by (metis Suc_leI add.commute mult_Suc mult_le_mono1)
  consider "j < k" | "k < j" using assms by linarith
  then show ?thesis
  proof cases
    case 1
    from * [OF 1, of "aligned_obj_size sp"] show ?thesis by (auto simp: bytes_def slot_addr_def)
  next
    case 2
    from * [OF 2, of "aligned_obj_size sp"] show ?thesis by (auto simp: bytes_def slot_addr_def)
  qed
qed

text \<open>Where a block lies: a slot of an object span, or all of a big span.\<close>

definition lies_in :: "'k am \<Rightarrow> addr \<Rightarrow> nat \<Rightarrow> addr \<Rightarrow> span \<Rightarrow> bool" where
  "lies_in st p n a sp \<longleftrightarrow> spans (page_cache (central st)) a = Some sp \<and> bytes p n \<subseteq> span_bytes sp \<and>
     (aligned_obj_size sp = 0 \<and> p = GetPageBaseAddr sp \<or>
      wf_span sp \<and> n = aligned_obj_size sp \<and> (\<exists>j < capacity sp. p = slot_addr sp j))"

lemma live_block_lies_in:
  assumes inv: "am_inv mapped held big st" and b: "(p, n) \<in> live_blocks held big"
  obtains a sp where "lies_in st p n a sp" and "p \<noteq> 0"
proof -
  let ?f = "spans (page_cache (central st))" and ?out = "\<lambda>i. held i \<union> (\<Union>t. tc_objs st t i)"
  have cc: "cc_inv mapped big ?out (central st)" using inv by (simp add: am_inv_def)
  consider i where "p \<in> held i" "n = Size i" | a sp where "big a = Some sp" "p = GetPageBaseAddr sp" "n = page_num sp * PAGE_SIZE"
    using b by (auto simp: live_blocks_def ran_def)
  then show thesis
  proof cases
    case 1
    then have i: "i < kNumSizeClasses" using inv unfolding am_inv_def by (metis empty_iff not_less)
    have ok: "bucket_ok ?f i (?out i) (buckets (central st) ! i)" using cc i by (simp add: cc_inv_def)
    have po: "p \<in> ?out i" using 1(1) by blast
    then obtain a sp where a: "a \<in> set (span_list (buckets (central st) ! i))" "?f a = Some sp" "p \<in> used_objs sp"
      using ok unfolding bucket_ok_def by blast
    obtain s where "class_span ?f i a s" by (rule bucket_span [OF ok a(1)])
    then have "wf_span sp" "aligned_obj_size sp = Size i" using a(2) by (simp_all add: class_span_def)
    moreover obtain j where "j < capacity sp" "p = slot_addr sp j" using a(3) by (auto simp: used_objs_def)
    ultimately have "lies_in st p n a sp" using a(2) 1(2) slot_bytes [of sp j] by (auto simp: lies_in_def)
    then show thesis using that out_nonzero [OF cc i po] by blast
  next
    case 2
    then have a: "?f a = Some sp" "aligned_obj_size sp = 0" using cc unfolding cc_inv_def big_ok_def by blast+
    have "pc_inv mapped (page_cache (central st))" using cc by (simp add: cc_inv_def)
    from pc_inv_span_ok [OF this a(1)] have "p \<noteq> 0" using 2(2) by (simp add: span_ok_def GetPageBaseAddr_def push_bit_eq_mult)
    moreover have "lies_in st p n a sp" using a 2 base_bytes by (auto simp: lies_in_def)
    ultimately show thesis using that by blast
  qed
qed

lemma live_blocks_disjoint:
  assumes inv: "am_inv mapped held big st" and b: "(p, n) \<in> live_blocks held big" "(q, m) \<in> live_blocks held big" and ne: "p \<noteq> q"
  shows "bytes p n \<inter> bytes q m = {}"
proof -
  obtain a sp where a: "lies_in st p n a sp" by (rule live_block_lies_in [OF inv b(1)])
  obtain c sc where c: "lies_in st q m c sc" by (rule live_block_lies_in [OF inv b(2)])
  show ?thesis
  proof (cases "a = c")
    case True
    then have e: "sc = sp" using a c by (simp add: lies_in_def)
    show ?thesis
    proof (cases "aligned_obj_size sp = 0")
      case True
      then have "p = q" using a c e by (auto simp: lies_in_def wf_span_def)
      with ne show ?thesis by simp
    next
      case False
      then obtain j k where "p = slot_addr sp j" "q = slot_addr sp k" "n = aligned_obj_size sp" "m = aligned_obj_size sp"
        using a c e by (auto simp: lies_in_def)
      then show ?thesis using ne slots_disjoint [of j k sp] by auto
    qed
  next
    case False
    have "spans_ok (spans (page_cache (central st)))" using inv by (simp add: am_inv_def cc_inv_def pc_inv_def)
    then have "pages_of sp \<inter> pages_of sc = {}" using a c False unfolding spans_ok_def lies_in_def by blast
    then have "span_bytes sp \<inter> span_bytes sc = {}" by (auto simp: span_bytes_iff)
    then show ?thesis using a c unfolding lies_in_def by blast
  qed
qed


lemma live_blocks_hold: "live_blocks (held(i := insert p (held i))) big = insert (p, Size i) (live_blocks held big)"
  by (auto simp: live_blocks_def split: if_splits)

lemma live_blocks_big: "big a = None \<Longrightarrow>
    live_blocks held (big(a \<mapsto> sp)) = insert (GetPageBaseAddr sp, page_num sp * PAGE_SIZE) (live_blocks held big)"
  by (auto simp: live_blocks_def)

text \<open>What an allocation of \<open>n\<close> bytes delivers.\<close>

definition malloc_post ::
  "('k \<Rightarrow> addr set) \<Rightarrow> (nat \<Rightarrow> addr set) \<Rightarrow> (addr \<Rightarrow> span option) \<Rightarrow> nat \<Rightarrow> am_error + addr option \<times> 'k am \<Rightarrow> bool" where
  "malloc_post mapped held big n res \<longleftrightarrow>
     (case res of
        Inl e \<Rightarrow> e \<in> {NullConstruct, InCentral LockNotOwned, InCentral (InPageCache (Exn BadAlloc))}
      | Inr (None, st') \<Rightarrow> am_inv mapped held big st'
      | Inr (Some p, st') \<Rightarrow> \<exists>held' big' len. am_inv mapped held' big' st' \<and> n \<le> len \<and>
          live_blocks held' big' = insert (p, len) (live_blocks held big) \<and> (\<forall>m. (p, m) \<notin> live_blocks held big) \<and>
          big \<subseteq>\<^sub>m big')"

lemma held_class: "i < kNumSizeClasses" if "am_inv mapped held big st" "p \<in> held i"
proof (rule ccontr)
  assume "\<not> i < kNumSizeClasses"
  moreover have "\<forall>i \<ge> kNumSizeClasses. held i = {}" using that(1) by (simp add: am_inv_def)
  ultimately show False using that(2) by auto
qed

lemma held_span:
  assumes inv: "am_inv mapped held big st" and p: "p \<in> held i"
  obtains a sp where "GetSpan_ptr (pmap (page_cache (central st))) p = Some a" and "spans (page_cache (central st)) a = Some sp"
    and "aligned_obj_size sp = Size i" and "0 < Size i" and "i < kNumSizeClasses"
proof -
  let ?f = "spans (page_cache (central st))" and ?out = "\<lambda>i. held i \<union> (\<Union>t. tc_objs st t i)"
  have i: "i < kNumSizeClasses" by (rule held_class [OF inv p])
  have cc: "cc_inv mapped big ?out (central st)" using inv by (simp add: am_inv_def)
  have ok: "bucket_ok ?f i (?out i) (buckets (central st) ! i)" and pc: "pc_inv mapped (page_cache (central st))"
    using cc i by (simp_all add: cc_inv_def)
  obtain a sp where a: "a \<in> set (span_list (buckets (central st) ! i))" "?f a = Some sp" "p \<in> used_objs sp"
    using ok p unfolding bucket_ok_def by blast
  obtain s where "class_span ?f i a s" by (rule bucket_span [OF ok a(1)])
  then have cs: "class_span ?f i a sp" using a(2) by (simp add: class_span_def)
  have "aligned_obj_size sp = Size i" "0 < Size i" using cs wf_size(1) [of sp] by (auto simp: class_span_def)
  then show thesis by (rule that [OF used_objs_span [OF pc cs a(3)] a(2) _ _ i])
qed

lemma big_span:
  assumes inv: "am_inv mapped held big st" and b: "big a = Some sp"
  shows "GetSpan_ptr (pmap (page_cache (central st))) (GetPageBaseAddr sp) = Some a" and
    "spans (page_cache (central st)) a = Some sp" and "aligned_obj_size sp = 0" and "IsUsed sp"
proof -
  let ?f = "spans (page_cache (central st))"
  have pc: "pc_inv mapped (page_cache (central st))" using inv by (simp add: am_inv_def cc_inv_def)
  have "big_ok ?f big" using inv by (simp add: am_inv_def cc_inv_def)
  then show a: "?f a = Some sp" "aligned_obj_size sp = 0" "IsUsed sp" using b unfolding big_ok_def by blast+
  have "start_page_idx sp \<in> pages_of sp" using pc_inv_span_ok [OF pc a(1)] by (simp add: pages_of_def span_ok_def)
  moreover have "drop_bit PAGE_SHIFT (GetPageBaseAddr sp) = start_page_idx sp"
    by (simp add: GetPageBaseAddr_def push_bit_eq_mult drop_bit_eq_div)
  moreover have "map_ok ?f (pmap (page_cache (central st)))" using pc by (simp add: pc_inv_def)
  ultimately show "GetSpan_ptr (pmap (page_cache (central st))) (GetPageBaseAddr sp) = Some a"
    using a(1) unfolding map_ok_def GetSpan_ptr_def by metis
qed

lemma held_unique:
  assumes inv: "am_inv mapped held big st" and p: "p \<in> held i"
  shows "p \<in> held k \<Longrightarrow> k = i" and "big a = Some sp \<Longrightarrow> p \<noteq> GetPageBaseAddr sp"
proof -
  obtain c sc where c: "GetSpan_ptr (pmap (page_cache (central st))) p = Some c" "spans (page_cache (central st)) c = Some sc"
    "aligned_obj_size sc = Size i" "0 < Size i" "i < kNumSizeClasses" by (rule held_span [OF inv p])
  show "k = i" if "p \<in> held k"
  proof -
    obtain d sd where "GetSpan_ptr (pmap (page_cache (central st))) p = Some d" "spans (page_cache (central st)) d = Some sd"
      "aligned_obj_size sd = Size k" "k < kNumSizeClasses" using held_span [OF inv \<open>p \<in> held k\<close>] by metis
    then have "Size k = Size i" using c by simp
    then show ?thesis using Size_inj \<open>k < kNumSizeClasses\<close> c(5) by blast
  qed
  show "p \<noteq> GetPageBaseAddr sp" if "big a = Some sp"
    using big_span [OF inv that] c by auto
qed

lemma big_unique:
  assumes inv: "am_inv mapped held big st" and b: "big a = Some sp" "big c = Some sc" "GetPageBaseAddr sp = GetPageBaseAddr sc"
  shows "c = a"
  using big_span(1) [OF inv b(1)] big_span(1) [OF inv b(2)] b(3) by simp

lemma small_new:
  assumes inv': "am_inv mapped (held(i := insert p (held i))) big st'" and p: "p \<notin> held i"
  shows "(p, m) \<notin> live_blocks held big"
proof
  assume b: "(p, m) \<in> live_blocks held big"
  let ?h = "held(i := insert p (held i))"
  have pi: "p \<in> ?h i" by simp
  from b consider k where "p \<in> held k" | a sp where "big a = Some sp" "p = GetPageBaseAddr sp"
    by (auto simp: live_blocks_def ran_def)
  then show False
  proof cases
    case 1
    then have "p \<in> ?h k" by auto
    then have "k = i" by (rule held_unique(1) [OF inv' pi])
    then show False using 1 p by simp
  next
    case 2
    then show False using held_unique(2) [OF inv' pi] by blast
  qed
qed

lemma big_new:
  assumes inv': "am_inv mapped held (big(a \<mapsto> sp)) st'" and a: "big a = None"
  shows "(GetPageBaseAddr sp, m) \<notin> live_blocks held big"
proof
  assume b: "(GetPageBaseAddr sp, m) \<in> live_blocks held big"
  have ba: "(big(a \<mapsto> sp)) a = Some sp" by simp
  from b consider k where "GetPageBaseAddr sp \<in> held k" | c sc where "big c = Some sc" "GetPageBaseAddr sp = GetPageBaseAddr sc"
    by (auto simp: live_blocks_def ran_def)
  then show False
  proof cases
    case 1
    then show False using held_unique(2) [OF inv' 1 ba] by simp
  next
    case 2
    then have "(big(a \<mapsto> sp)) c = Some sc" using a by auto
    from big_unique [OF inv' ba this 2(2)] show False using 2(1) a by simp
  qed
qed

lemma tls_malloc_post:
  assumes "kernel_ok os mapped" and "am_inv mapped held big st" and "tls st t = Some c" and "n \<le> MAX_TC_SIZE"
  shows "\<exists>res. tls_allocate os t c n st = Some res \<and> malloc_post mapped held big n res"
proof -
  obtain res where r: "tls_allocate os t c n st = Some res"
    "case res of Inl e \<Rightarrow> e = InCentral (InPageCache (Exn BadAlloc)) \<or> e = InCentral LockNotOwned
     | Inr (r, st') \<Rightarrow> \<exists>p. r = Some p \<and> p \<notin> held (Index n) \<and> am_inv mapped (held(Index n := insert p (held (Index n)))) big st'"
    using tls_allocate_ok [OF assms] by blast
  have i: "Index n < kNumSizeClasses" by (rule Index_less [OF assms(4)])
  have le: "n \<le> Size (Index n)"
    using ladder.sz_idx_ge [of n] assms(4) by (cases "n = 0") auto
  show ?thesis
  proof (cases res)
    case (Inl e)
    then show ?thesis using r by (auto simp: malloc_post_def)
  next
    case (Inr x)
    obtain p st' where p: "x = (Some p, st')" "p \<notin> held (Index n)" "am_inv mapped (held(Index n := insert p (held (Index n)))) big st'"
      using r(2) unfolding Inr by (cases x) auto
    have "malloc_post mapped held big n res"
      unfolding malloc_post_def Inr p(1) using p(3) le live_blocks_hold small_new [OF p(3,2)] by simp (blast intro: map_le_refl)
    then show ?thesis using r(1) by blast
  qed
qed

lemma am_malloc_ok:
  assumes os: "kernel_ok os mapped" and inv: "am_inv mapped held big st" and n: "n < 2 ^ 64"
  shows "\<exists>res. am_malloc os t n st = Some res \<and> malloc_post mapped held big n res"
proof (cases "n \<le> MAX_TC_SIZE")
  case True
  show ?thesis
  proof (cases "tls st t")
    case (Some c)
    from tls_malloc_post [OF os inv Some True] show ?thesis using Some True by (simp add: am_malloc_def)
  next
    case None
    let ?st = "EnsureScavengerStarted st"
    have run: "am_malloc os t n st = (case ensure_tls os t ?st of
        Inl e \<Rightarrow> Some (Inl e) | Inr (None, st1) \<Rightarrow> Some (Inr (None, st1)) | Inr (Some c, st1) \<Rightarrow> tls_allocate os t c n st1)"
      using None True by (simp add: am_malloc_def am_malloc_slow_path_def Let_def)
    note E = ensure_tls_ok [OF os scavenger_inv [OF inv], of t]
    show ?thesis
    proof (cases "ensure_tls os t ?st")
      case (Inl e)
      then show ?thesis using E run by (simp add: malloc_post_def)
    next
      case (Inr x)
      obtain c st1 where x: "x = (c, st1)" by (rule prod.exhaust)
      then have i1: "am_inv mapped held big st1" "tls st1 t = c" using E Inr by simp_all
      show ?thesis
      proof (cases c)
        case None
        then show ?thesis using run Inr x i1 by (simp add: malloc_post_def)
      next
        case (Some d)
        from tls_malloc_post [OF os i1(1) _ True] show ?thesis using run Inr x Some i1(2) by simp
      qed
    qed
  qed
next
  case False
  let ?st = "EnsureScavengerStarted st" and ?n = "drop_bit PAGE_SHIFT (AlignUp n PAGE_SIZE)"
  have inv0: "am_inv mapped held big ?st" by (rule scavenger_inv [OF inv])
  then have pc: "pc_inv mapped (page_cache (central ?st))" by (simp add: am_inv_def cc_inv_def)
  have slow: "am_malloc os t n st = am_malloc_slow_path os t n st"
    using False by (simp add: am_malloc_def split: option.splits)
  obtain res where r: "AllocSpan os ?n (page_cache (central ?st)) = Some res"
    and post: "case res of Inl e \<Rightarrow> e = Exn BadAlloc
     | Inr (r, st') \<Rightarrow> pc_inv mapped st' \<and> keeps_used (page_cache (central ?st)) st' \<and>
         (\<forall>a. r = Some a \<longrightarrow> (\<exists>sp. spans st' a = Some sp \<and> IsUsed sp \<and> page_num sp = ?n \<and>
             owner_shard_id sp = 0 \<and> aligned_obj_size sp = 0) \<and>
           (\<forall>sb. spans (page_cache (central ?st)) a = Some sb \<longrightarrow> \<not> IsUsed sb))"
    using AllocSpan_ok [OF os pc, of ?n] by blast
  show ?thesis
  proof (cases res)
    case (Inl e)
    then show ?thesis using r post False slow by (simp add: am_malloc_slow_path_def Let_def malloc_post_def)
  next
    case (Inr x)
    obtain y p where x: "x = (y, p)" by (rule prod.exhaust)
    note P = post [unfolded Inr x sum.case prod.case]
    have keep: "spans p c = Some sc" if "spans (page_cache (central ?st)) c = Some sc" "IsUsed sc" for c sc
      using P that unfolding keeps_used_def by blast
    have ip: "pc_inv mapped p" using P by blast
    have b0: "big_ok (spans (page_cache (central ?st))) big" using inv0 by (simp add: am_inv_def cc_inv_def)
    then have b1: "big_ok (spans p) big" unfolding big_ok_def using keep by blast
    show ?thesis
    proof (cases y)
      case None
      have "am_inv mapped held big (set_pages p ?st)" by (rule am_inv_pages [OF inv0 ip b1 keep])
      then show ?thesis using r Inr x None False slow by (simp add: am_malloc_slow_path_def Let_def malloc_post_def)
    next
      case (Some a)
      obtain sp where sp: "spans p a = Some sp" "IsUsed sp" "page_num sp = ?n" "aligned_obj_size sp = 0"
        and old: "\<And>sb. spans (page_cache (central ?st)) a = Some sb \<Longrightarrow> \<not> IsUsed sb" using P Some by blast
      have na: "big a = None"
      proof (cases "big a")
        case (Some s)
        then have "spans (page_cache (central ?st)) a = Some s" "IsUsed s" using b0 unfolding big_ok_def by blast+
        with old show ?thesis by blast
      qed
      have b2: "big_ok (spans p) (big(a \<mapsto> sp))" using b1 sp by (simp add: big_ok_def)
      have i2: "am_inv mapped held (big(a \<mapsto> sp)) (set_pages p ?st)" by (rule am_inv_pages [OF inv0 ip b2 keep])
      have "0 < ?n" using pc_inv_span_ok [OF ip sp(1)] sp(3) by (simp add: span_ok_def)
      then have le: "n \<le> page_num sp * PAGE_SIZE" using malloc_pages [OF n] sp(3) by simp
      have grow: "big \<subseteq>\<^sub>m big(a \<mapsto> sp)" using na by (auto simp: map_le_def)
      have "am_malloc os t n st = Some (Inr (Some (GetPageBaseAddr sp), set_pages p ?st))"
        using r Inr x Some False slow sp(1) by (simp add: am_malloc_slow_path_def Let_def)
      moreover have "malloc_post mapped held big n (Inr (Some (GetPageBaseAddr sp), set_pages p ?st))"
        unfolding malloc_post_def using i2 le live_blocks_big [of big, OF na, of held sp] big_new [OF i2 na] grow by simp blast
      ultimately show ?thesis by blast
    qed
  qed
qed


lemma give_back_sets:
  assumes "p \<in> H" and "H \<inter> T = {}" and "R \<inter> T = {}" and "p \<notin> R" and "G \<subseteq> insert p T"
  shows "H \<union> (R \<union> T) - G = (H - {p}) \<union> R \<union> (insert p T - G)"
  using assms by blast

lemma tls_deallocate_ok:
  assumes os: "kernel_ok os mapped" and inv: "am_inv mapped held big st" and c: "tls st t = Some c" and p: "p \<in> held i"
  shows "\<exists>st'. tls_deallocate os t c p (Size i) st = Some (Inr st') \<and> am_inv mapped (held(i := held i - {p})) big st'"
proof -
  let ?out = "\<lambda>i. held i \<union> (\<Union>t. tc_objs st t i)"
  have i: "i < kNumSizeClasses" by (rule held_class [OF inv p])
  have cc: "cc_inv mapped big ?out (central st)" and tc: "tc_ok (snd c)" using inv c unfolding am_inv_def by blast+
  have ct: "tc_objs st t i = set (objs (snd c ! i))" using c by (simp add: tc_objs_def)
  have hc: "held i \<inter> tc_objs st u i = {}" for u using inv i unfolding am_inv_def by blast
  have cu: "tc_objs st u i \<inter> tc_objs st t i = {}" if "u \<noteq> t" for u using inv i that unfolding am_inv_def by blast
  have un: "(\<Union>u. tc_objs st u i) = (\<Union>u \<in> - {t}. tc_objs st u i) \<union> tc_objs st t i" by auto
  have pre: "p \<in> ?out i" "p \<notin> set (objs (snd c ! i))" "set (objs (snd c ! i)) \<subseteq> ?out i"
    using p hc [of t] ct by blast+
  obtain tc' cc' given where d: "Deallocate os p (Size i) (snd c) (central st) = Some (Inr (tc', cc'))" "tc_ok tc'"
    "\<forall>k. k \<noteq> i \<longrightarrow> tc' ! k = snd c ! k" "cc_inv mapped big (?out(i := ?out i - given)) cc'"
    "given \<subseteq> insert p (set (objs (snd c ! i)))" "set (objs (tc' ! i)) = insert p (set (objs (snd c ! i))) - given"
    using Deallocate_ok [OF os cc i tc pre] by (elim exE conjE) (rule that)
  have "am_inv mapped (held(i := held i - {p})) big (st\<lparr>central := cc', tls := (tls st)(t := Some (fst c, tc'))\<rparr>)"
  proof (rule am_inv_step [OF inv i c d(2) _ d(4)])
    show "tc' ! k = snd c ! k" if "k \<noteq> i" for k using d(3) that by blast
    have pu: "p \<notin> tc_objs st u i" for u using p hc [of u] by blast
    have R: "(\<Union>u \<in> - {t}. tc_objs st u i) \<inter> tc_objs st t i = {}" "p \<notin> (\<Union>u \<in> - {t}. tc_objs st u i)" using cu pu by auto
    show "?out i - given = held i - {p} \<union> (\<Union>u \<in> - {t}. tc_objs st u i) \<union> set (objs (tc' ! i))"
      unfolding un d(6) using give_back_sets [OF p hc [of t] R] d(5) ct by simp
    show "(held i - {p}) \<inter> set (objs (tc' ! i)) = {}" using d(6) hc [of t] ct by blast
    show "(held i - {p}) \<inter> tc_objs st u i = {}" if "u \<noteq> t" for u using hc [of u] by blast
    show "tc_objs st u i \<inter> set (objs (tc' ! i)) = {}" if "u \<noteq> t" for u
      unfolding d(6) using cu [OF that] pu [of u] ct by auto
  qed
  then show ?thesis using d(1) by (simp add: tls_deallocate_def)
qed

text \<open>The release without a thread cache, after the cleaner of the thread has run.\<close>

lemma release_one_ok:
  assumes os: "kernel_ok os mapped" and inv: "am_inv mapped held big st" and p: "p \<in> held i"
  shows "\<exists>cc'. ReleaseListToSpans os [p] (Size i) (central st) = Some (Inr cc') \<and>
    am_inv mapped (held(i := held i - {p})) big (st\<lparr>central := cc'\<rparr>)"
proof -
  let ?out = "\<lambda>i. held i \<union> (\<Union>t. tc_objs st t i)"
  have i: "i < kNumSizeClasses" by (rule held_class [OF inv p])
  have cc: "cc_inv mapped big ?out (central st)" using inv by (simp add: am_inv_def)
  have "distinct [p]" "set [p] \<subseteq> ?out i" using p by simp_all
  from ReleaseListToSpans_ok [OF os i cc this] obtain cc' where
    r: "ReleaseListToSpans os [p] (Size i) (central st) = Some (Inr cc')" "cc_inv mapped big (?out(i := ?out i - set [p])) cc'" by blast
  let ?st = "st\<lparr>central := cc'\<rparr>" and ?h = "held(i := held i - {p})"
  have ch: "tc_objs ?st u k = tc_objs st u k" for u k by (simp add: tc_objs_def)
  have hc: "held k \<inter> tc_objs st u k = {}" if "k < kNumSizeClasses" for k u using inv that unfolding am_inv_def by blast
  have "?out(i := ?out i - set [p]) = (\<lambda>k. ?h k \<union> (\<Union>u. tc_objs ?st u k))"
    unfolding ch using hc [OF i] p by (intro ext) auto
  with r(2) have "cc_inv mapped big (\<lambda>k. ?h k \<union> (\<Union>u. tc_objs ?st u k)) (central ?st)" by simp
  moreover have "?h k \<inter> tc_objs ?st u k = {}" if "k < kNumSizeClasses" for k u unfolding ch using hc [OF that] by auto
  moreover have "tc_objs ?st u k \<inter> tc_objs ?st v k = {}" if "k < kNumSizeClasses" "u \<noteq> v" for k u v
    unfolding ch using inv that unfolding am_inv_def by blast
  moreover have "tc_ok (snd c)" if "tls ?st u = Some c" for u c
  proof -
    have "tls st u = Some c" using that by simp
    then show ?thesis using inv unfolding am_inv_def by blast
  qed
  moreover have "?h k = {}" if "kNumSizeClasses \<le> k" for k using inv that i unfolding am_inv_def by auto
  ultimately have "am_inv mapped ?h big ?st" unfolding am_inv_def by blast
  then show ?thesis using r(1) by blast
qed

lemma free_small_ok:
  assumes os: "kernel_ok os mapped" and inv: "am_inv mapped held big st" and p: "p \<in> held i"
  shows "\<exists>res. am_free os t p st = Some res \<and>
    (case res of Inl e \<Rightarrow> e = NullConstruct | Inr st' \<Rightarrow> am_inv mapped (held(i := held i - {p})) big st')"
proof -
  obtain a sp where a: "GetSpan_ptr (pmap (page_cache (central st))) p = Some a" "spans (page_cache (central st)) a = Some sp"
    "aligned_obj_size sp = Size i" "0 < Size i" by (rule held_span [OF inv p])
  have "(p, Size i) \<in> live_blocks held big" using p by (auto simp: live_blocks_def)
  then have nz: "p \<noteq> 0" using live_block_lies_in [OF inv] by metis
  show ?thesis
  proof (cases "tls st t")
    case (Some c)
    then have "am_free os t p st = tls_deallocate os t c p (Size i) st" using a nz by (simp add: am_free_def)
    then show ?thesis using tls_deallocate_ok [OF os inv Some p] by auto
  next
    case None
    then have run: "am_free os t p st = am_free_slow_path os t p a (Size i) st" using a nz by (simp add: am_free_def)
    note E = ensure_tls_ok [OF os inv, of t]
    show ?thesis
    proof (cases "ensure_tls os t st")
      case (Inl e)
      then show ?thesis using E run a(4) by (simp add: am_free_slow_path_def)
    next
      case (Inr x)
      obtain c st1 where x: "x = (c, st1)" by (rule prod.exhaust)
      then have i1: "am_inv mapped held big st1" "tls st1 t = c" using E Inr by simp_all
      show ?thesis
      proof (cases c)
        case None
        then show ?thesis using run Inr x a(4) release_one_ok [OF os i1(1) p] by (auto simp: am_free_slow_path_def)
      next
        case (Some d)
        then obtain st' where "tls_deallocate os t d p (Size i) st1 = Some (Inr st')" "am_inv mapped (held(i := held i - {p})) big st'"
          using i1 tls_deallocate_ok [OF os i1(1) _ p] by blast
        then show ?thesis using run Inr x Some a(4) by (simp add: am_free_slow_path_def)
      qed
    qed
  qed
qed

lemma free_big_ok:
  assumes os: "kernel_ok os mapped" and inv: "am_inv mapped held big st" and b: "big a = Some sp"
  shows "\<exists>st'. am_free os t (GetPageBaseAddr sp) st = Some (Inr st') \<and> am_inv mapped held (big(a := None)) st'"
proof -
  note B = big_span [OF inv b]
  have pc: "pc_inv mapped (page_cache (central st))" and bo: "big_ok (spans (page_cache (central st))) big"
    using inv by (simp_all add: am_inv_def cc_inv_def)
  have nz: "GetPageBaseAddr sp \<noteq> 0"
    using pc_inv_span_ok [OF pc B(2)] by (simp add: span_ok_def GetPageBaseAddr_def push_bit_eq_mult)
  obtain p where p: "ReleaseSpan os a (page_cache (central st)) = Some (Inr p)" "pc_inv mapped p"
    "\<And>c sc. c \<noteq> a \<Longrightarrow> spans (page_cache (central st)) c = Some sc \<Longrightarrow> IsUsed sc \<Longrightarrow> spans p c = Some sc"
    using ReleaseSpan_ok [OF os pc B(2,4)] by blast
  have "big_ok (spans p) (big(a := None))" using bo p(3) unfolding big_ok_def by (simp add: fun_upd_apply)
  moreover have "spans p c = Some sc" if "spans (page_cache (central st)) c = Some sc" "IsUsed sc" "aligned_obj_size sc \<noteq> 0" for c sc
    using p(3) [of c sc] that B(2,3) by (cases "c = a") simp_all
  ultimately have "am_inv mapped held (big(a := None)) (set_pages p st)" by (rule am_inv_pages [OF inv p(2)])
  moreover have "am_free os t (GetPageBaseAddr sp) st = Some (Inr (set_pages p st))"
    using B nz p(1) by (simp add: am_free_def am_free_slow_path_def split: option.splits)
  ultimately show ?thesis by blast
qed


lemma live_blocks_drop:
  assumes inv: "am_inv mapped held big st" and p: "p \<in> held i"
  shows "live_blocks (held(i := held i - {p})) big = live_blocks held big - {(p, Size i)}"
proof (intro set_eqI iffI)
  fix b assume b: "b \<in> live_blocks (held(i := held i - {p})) big"
  then consider k q where "b = (q, Size k)" "q \<in> held k" "\<not> (k = i \<and> q = p)"
    | a sp where "b = (GetPageBaseAddr sp, page_num sp * PAGE_SIZE)" "big a = Some sp"
    by (auto simp: live_blocks_def ran_def split: if_splits)
  then show "b \<in> live_blocks held big - {(p, Size i)}"
  proof cases
    case 1
    then have "q \<noteq> p" using held_unique(1) [OF inv p] by blast
    then show ?thesis using 1 by (auto simp: live_blocks_def)
  next
    case 2
    then have "p \<noteq> GetPageBaseAddr sp" using held_unique(2) [OF inv p] by blast
    then show ?thesis using 2 by (auto simp: live_blocks_def ran_def)
  qed
next
  fix b assume "b \<in> live_blocks held big - {(p, Size i)}"
  then show "b \<in> live_blocks (held(i := held i - {p})) big" by (auto simp: live_blocks_def)
qed

lemma live_blocks_drop_big:
  assumes inv: "am_inv mapped held big st" and a: "big a = Some sp"
  shows "live_blocks held (big(a := None)) = live_blocks held big - {(GetPageBaseAddr sp, page_num sp * PAGE_SIZE)}"
proof (intro set_eqI iffI)
  fix b assume b: "b \<in> live_blocks held (big(a := None))"
  then consider k q where "b = (q, Size k)" "q \<in> held k"
    | c sc where "b = (GetPageBaseAddr sc, page_num sc * PAGE_SIZE)" "big c = Some sc" "c \<noteq> a"
    by (auto simp: live_blocks_def ran_def split: if_splits)
  then show "b \<in> live_blocks held big - {(GetPageBaseAddr sp, page_num sp * PAGE_SIZE)}"
  proof cases
    case 1
    then have "q \<noteq> GetPageBaseAddr sp" using held_unique(2) [OF inv _ a] by blast
    then show ?thesis using 1 by (auto simp: live_blocks_def)
  next
    case 2
    then have "GetPageBaseAddr sc \<noteq> GetPageBaseAddr sp" using big_unique [OF inv a] by metis
    then show ?thesis using 2 by (auto simp: live_blocks_def ran_def)
  qed
next
  fix b assume b: "b \<in> live_blocks held big - {(GetPageBaseAddr sp, page_num sp * PAGE_SIZE)}"
  then consider k q where "b = (q, Size k)" "q \<in> held k"
    | c sc where "b = (GetPageBaseAddr sc, page_num sc * PAGE_SIZE)" "big c = Some sc"
    by (auto simp: live_blocks_def ran_def)
  then show "b \<in> live_blocks held (big(a := None))"
  proof cases
    case 2
    then have "c \<noteq> a" using a b by auto
    then have "sc \<in> ran (big(a := None))" using 2(2) by (auto simp: ran_def)
    then show ?thesis using 2(1) by (auto simp: live_blocks_def)
  qed (auto simp: live_blocks_def)
qed

lemma am_free_ok:
  assumes os: "kernel_ok os mapped" and inv: "am_inv mapped held big st" and b: "(p, len) \<in> live_blocks held big"
  shows "\<exists>res. am_free os t p st = Some res \<and>
    (case res of Inl e \<Rightarrow> e = NullConstruct
     | Inr st' \<Rightarrow> \<exists>held' big'. am_inv mapped held' big' st' \<and> live_blocks held' big' = live_blocks held big - {(p, len)} \<and>
         (\<forall>a sp. big a = Some sp \<longrightarrow> GetPageBaseAddr sp \<noteq> p \<longrightarrow> big' a = Some sp))"
proof -
  from b consider i where "p \<in> held i" "len = Size i"
    | a sp where "big a = Some sp" "p = GetPageBaseAddr sp" "len = page_num sp * PAGE_SIZE"
    by (auto simp: live_blocks_def ran_def)
  then show ?thesis
  proof cases
    case 1
    obtain res where r: "am_free os t p st = Some res"
      "case res of Inl e \<Rightarrow> e = NullConstruct | Inr st' \<Rightarrow> am_inv mapped (held(i := held i - {p})) big st'"
      using free_small_ok [OF os inv 1(1), of t] by (elim exE conjE) (rule that)
    show ?thesis
    proof (cases res)
      case (Inl e)
      then show ?thesis using r by simp
    next
      case (Inr st')
      then have "am_inv mapped (held(i := held i - {p})) big st'" using r(2) by simp
      moreover have "live_blocks (held(i := held i - {p})) big = live_blocks held big - {(p, len)}"
        using live_blocks_drop [OF inv 1(1)] 1(2) by simp
      ultimately show ?thesis unfolding r(1) Inr by (intro exI [of _ "Inr st'"]) (simp del: fun_upd_apply, metis)
    qed
  next
    case 2
    obtain st' where "am_free os t p st = Some (Inr st')" "am_inv mapped held (big(a := None)) st'"
      using free_big_ok [OF os inv 2(1), of t, folded 2(2)] by (elim exE conjE) (rule that)
    moreover have "live_blocks held (big(a := None)) = live_blocks held big - {(p, len)}"
      using live_blocks_drop_big [OF inv 2(1)] 2(2,3) by simp
    moreover have "(big(a := None)) b = Some sb" if "big b = Some sb" "GetPageBaseAddr sb \<noteq> p" for b sb using that 2(1,2) by auto
    ultimately show ?thesis by (intro exI [of _ "Inr st'"]) (simp del: fun_upd_apply, metis)
  qed
qed

section \<open>The end of a thread\<close>

lemma thread_exit_ok:
  assumes os: "kernel_ok os mapped" and inv: "am_inv mapped held big st"
  shows "\<exists>st'. am_inv mapped held big st' \<and> tls st' = (tls st)(t := None) \<and> tc_destructed st' = (tc_destructed st)(t := True) \<and>
    thread_exit os t st = Some (Inr (case tls st t of None \<Rightarrow> st' | Some c \<Rightarrow> ReleaseThreadCache os (fst c) st'))"
proof (cases "tls st t")
  case None
  let ?st = "st\<lparr>tc_destructed := (tc_destructed st)(t := True)\<rparr>"
  have "am_inv mapped held big ?st" using inv by (simp add: am_inv_def tc_objs_def)
  moreover have "(tls st)(t := None) = tls st" using None by (simp add: fun_upd_idem)
  ultimately show ?thesis using None by (intro exI [of _ ?st]) (simp add: thread_exit_def)
next
  case (Some c)
  let ?out = "\<lambda>i. held i \<union> (\<Union>t. tc_objs st t i)"
  have cc: "cc_inv mapped big ?out (central st)" and tc: "tc_ok (snd c)" using inv Some unfolding am_inv_def by blast+
  have ct: "tc_objs st t i = set (objs (snd c ! i))" for i using Some by (simp add: tc_objs_def)
  have hc: "held i \<inter> tc_objs st u i = {}" if "i < kNumSizeClasses" for i u using inv that unfolding am_inv_def by blast
  have cu: "tc_objs st u i \<inter> tc_objs st v i = {}" if "u \<noteq> v" "i < kNumSizeClasses" for u v i using inv that unfolding am_inv_def by blast
  have sub: "set (objs (snd c ! i)) \<subseteq> ?out i" for i using ct by blast
  obtain tc' cc' where r: "ReleaseAll os (snd c) (central st) = Some (Inr (tc', cc'))"
    "cc_inv mapped big (\<lambda>i. if i < kNumSizeClasses then ?out i - set (objs (snd c ! i)) else ?out i) cc'"
    using ReleaseAll_ok [OF os cc tc sub] by (elim exE conjE) (rule that)
  let ?st = "st\<lparr>tc_destructed := (tc_destructed st)(t := True), central := cc', tls := (tls st)(t := None)\<rparr>"
  have ch: "tc_objs ?st u i = (if u = t then {} else tc_objs st u i)" for u i by (simp add: tc_objs_def)
  have "?out i - set (objs (snd c ! i)) = held i \<union> (\<Union>u. tc_objs ?st u i)" if i: "i < kNumSizeClasses" for i
  proof -
    have "x \<notin> tc_objs st t i" if "x \<in> tc_objs st u i" "u \<noteq> t" for x u using cu [OF that(2) i] that(1) by blast
    moreover have "(\<Union>u. tc_objs ?st u i) = (\<Union>u \<in> - {t}. tc_objs st u i)" unfolding ch by (auto split: if_splits)
    moreover have "(\<Union>u. tc_objs st u i) = (\<Union>u \<in> - {t}. tc_objs st u i) \<union> tc_objs st t i" by auto
    ultimately show ?thesis using ct [of i] hc [OF i, of t] by auto
  qed
  then have "cc_inv mapped big (\<lambda>i. held i \<union> (\<Union>u. tc_objs ?st u i)) cc'"
    using r(2) by (subst cc_inv_cong) simp_all
  moreover have "tc_ok (snd d)" if "tls ?st u = Some d" for u d
  proof -
    have "tls st u = Some d" using that by (simp split: if_splits)
    then show ?thesis using inv unfolding am_inv_def by blast
  qed
  moreover have "held i \<inter> tc_objs ?st u i = {}" if "i < kNumSizeClasses" for i u unfolding ch using hc [OF that] by simp
  moreover have "tc_objs ?st u i \<inter> tc_objs ?st v i = {}" if "i < kNumSizeClasses" "u \<noteq> v" for i u v
    unfolding ch using cu [OF that(2,1)] by simp
  moreover have "held i = {}" if "kNumSizeClasses \<le> i" for i using inv that unfolding am_inv_def by blast
  ultimately have "am_inv mapped held big ?st" unfolding am_inv_def by simp
  moreover have "thread_exit os t st = Some (Inr (ReleaseThreadCache os (fst c) ?st))"
    using Some r(1) by (cases c) (simp add: thread_exit_def ReleaseThreadCache_def set_sys_def am_sys_def)
  ultimately show ?thesis using Some by (intro exI [of _ ?st]) simp
qed

definition am_boot :: "bool \<Rightarrow> 'k cc \<Rightarrow> 'k am" where
  "am_boot enable cc =
     \<lparr>central = cc, tls = (\<lambda>_. None), tc_destructed = (\<lambda>_. False), enable_scavenger = enable, scavenger_started = False\<rparr>"

text \<open>
  The blocks \<open>L\<close> of the program are blocks of the allocator that are large enough; the other blocks
  are the spans \<open>B\<close> that the page cache has lent to somebody else.
\<close>

definition span_blocks :: "(addr \<Rightarrow> span option) \<Rightarrow> (addr \<times> nat) set" where
  "span_blocks B = {(GetPageBaseAddr sp, page_num sp * PAGE_SIZE) | sp. sp \<in> ran B}"

definition heap_ok :: "('k \<Rightarrow> addr set) \<Rightarrow> (addr \<times> nat) set \<Rightarrow> (addr \<Rightarrow> span option) \<Rightarrow> 'k am \<Rightarrow> bool" where
  "heap_ok mapped L B st \<longleftrightarrow> (\<exists>held big len. am_inv mapped held big st \<and> B \<subseteq>\<^sub>m big \<and>
     live_blocks held big = (\<lambda>b. (fst b, len (fst b))) ` L \<union> span_blocks B \<and> (\<forall>b \<in> L. snd b \<le> len (fst b)) \<and> inj_on fst L \<and>
     (\<forall>b \<in> L. \<forall>m. (fst b, m) \<notin> span_blocks B))"

lemma heap_okE:
  assumes "heap_ok mapped L B st"
  obtains held big len where "am_inv mapped held big st" "B \<subseteq>\<^sub>m big"
    "live_blocks held big = (\<lambda>b. (fst b, len (fst b))) ` L \<union> span_blocks B" "\<forall>b \<in> L. snd b \<le> len (fst b)" "inj_on fst L"
    "\<forall>b \<in> L. \<forall>m. (fst b, m) \<notin> span_blocks B"
  using assms unfolding heap_ok_def by (elim exE conjE) (rule that)

lemma heap_ok_boot: "cc_inv mapped Map.empty (\<lambda>_. {}) cc \<Longrightarrow> heap_ok mapped {} Map.empty (am_boot enable cc)"
  unfolding heap_ok_def
  by (intro exI [of _ "\<lambda>_. {}"] exI [of _ Map.empty])
    (simp add: am_inv_def am_boot_def tc_objs_def live_blocks_def span_blocks_def)

lemma heap_ok_insert:
  assumes h: "am_inv mapped held' big' st'" "n \<le> k" "live_blocks held' big' = insert (p, k) (live_blocks held big)"
      "\<forall>m. (p, m) \<notin> live_blocks held big" "big \<subseteq>\<^sub>m big'"
    and l: "B \<subseteq>\<^sub>m big" "live_blocks held big = (\<lambda>b. (fst b, len (fst b))) ` L \<union> span_blocks B" "\<forall>b \<in> L. snd b \<le> len (fst b)"
      "inj_on fst L" "\<forall>b \<in> L. \<forall>m. (fst b, m) \<notin> span_blocks B"
  shows "heap_ok mapped (insert (p, n) L) B st'"
proof -
  have np: "fst b \<noteq> p" if "b \<in> L" for b using h(4) l(2) that by auto
  let ?len = "len(p := k)"
  have "(\<lambda>b. (fst b, ?len (fst b))) ` L = (\<lambda>b. (fst b, len (fst b))) ` L" using np by (intro image_cong) auto
  then have "live_blocks held' big' = (\<lambda>b. (fst b, ?len (fst b))) ` insert (p, n) L \<union> span_blocks B" using h(3) l(2) by simp
  moreover have "\<forall>b \<in> insert (p, n) L. snd b \<le> ?len (fst b)" using l(3) np h(2) by auto
  moreover have "inj_on fst (insert (p, n) L)" using l(4) np by (auto simp: inj_on_def)
  moreover have "\<forall>b \<in> insert (p, n) L. \<forall>m. (fst b, m) \<notin> span_blocks B" using l(5) h(4) l(2) by simp
  moreover have "B \<subseteq>\<^sub>m big'" by (rule map_le_trans [OF l(1) h(5)])
  ultimately show ?thesis unfolding heap_ok_def using h(1) by blast
qed

lemma heap_ok_malloc:
  assumes os: "kernel_ok os mapped" and h: "heap_ok mapped L B st" and n: "n < 2 ^ 64"
  shows "\<exists>res. am_malloc os t n st = Some res \<and> (case res of
      Inl e \<Rightarrow> e \<in> {NullConstruct, InCentral LockNotOwned, InCentral (InPageCache (Exn BadAlloc))}
    | Inr (r, st') \<Rightarrow> heap_ok mapped (case r of None \<Rightarrow> L | Some p \<Rightarrow> insert (p, n) L) B st')"
proof -
  obtain held big len where inv: "am_inv mapped held big st" and l: "B \<subseteq>\<^sub>m big"
    "live_blocks held big = (\<lambda>b. (fst b, len (fst b))) ` L \<union> span_blocks B"
    "\<forall>b \<in> L. snd b \<le> len (fst b)" "inj_on fst L" "\<forall>b \<in> L. \<forall>m. (fst b, m) \<notin> span_blocks B" by (rule heap_okE [OF h])
  obtain res where r: "am_malloc os t n st = Some res" "malloc_post mapped held big n res"
    using am_malloc_ok [OF os inv n, of t] by (elim exE conjE) (rule that)
  show ?thesis
  proof (cases res)
    case (Inl e)
    then show ?thesis using r by (simp add: malloc_post_def)
  next
    case (Inr x)
    obtain y st' where x: "x = (y, st')" by (rule prod.exhaust)
    show ?thesis
    proof (cases y)
      case None
      then have "am_inv mapped held big st'" using r(2) unfolding Inr x by (simp add: malloc_post_def)
      then have "heap_ok mapped L B st'" unfolding heap_ok_def using l by (intro exI conjI)
      then show ?thesis using r(1) Inr x None by simp
    next
      case (Some p)
      obtain held' big' k where q: "am_inv mapped held' big' st'" "n \<le> k"
        "live_blocks held' big' = insert (p, k) (live_blocks held big)" "\<forall>m. (p, m) \<notin> live_blocks held big" "big \<subseteq>\<^sub>m big'"
        using r(2) unfolding Inr x Some malloc_post_def by (simp only: sum.case prod.case option.case) (elim exE conjE, rule that)
      show ?thesis using heap_ok_insert [OF q l] r(1) Inr x Some by simp
    qed
  qed
qed

lemma heap_ok_free:
  assumes os: "kernel_ok os mapped" and h: "heap_ok mapped L B st" and p: "(p, n) \<in> L"
  shows "\<exists>res. am_free os t p st = Some res \<and>
    (case res of Inl e \<Rightarrow> e = NullConstruct | Inr st' \<Rightarrow> heap_ok mapped (L - {(p, n)}) B st')"
proof -
  obtain held big len where inv: "am_inv mapped held big st" and l: "B \<subseteq>\<^sub>m big"
    "live_blocks held big = (\<lambda>b. (fst b, len (fst b))) ` L \<union> span_blocks B"
    "\<forall>b \<in> L. snd b \<le> len (fst b)" "inj_on fst L" "\<forall>b \<in> L. \<forall>m. (fst b, m) \<notin> span_blocks B" by (rule heap_okE [OF h])
  have b: "(p, len p) \<in> live_blocks held big" unfolding l(2)
    by (rule UnI1, rule rev_image_eqI [OF p]) simp
  have B: "(p, m) \<notin> span_blocks B" for m using l(5) p by fastforce
  obtain res where r: "am_free os t p st = Some res"
    "case res of Inl e \<Rightarrow> e = NullConstruct
     | Inr st' \<Rightarrow> \<exists>held' big'. am_inv mapped held' big' st' \<and> live_blocks held' big' = live_blocks held big - {(p, len p)} \<and>
         (\<forall>a sp. big a = Some sp \<longrightarrow> GetPageBaseAddr sp \<noteq> p \<longrightarrow> big' a = Some sp)"
    using am_free_ok [OF os inv b, of t] by (elim exE conjE) (rule that)
  show ?thesis
  proof (cases res)
    case (Inl e)
    then show ?thesis using r by simp
  next
    case (Inr st')
    then obtain held' big' where q: "am_inv mapped held' big' st'" "live_blocks held' big' = live_blocks held big - {(p, len p)}"
      "\<And>a sp. big a = Some sp \<Longrightarrow> GetPageBaseAddr sp \<noteq> p \<Longrightarrow> big' a = Some sp"
      using r(2) by (simp only: sum.case) (elim exE conjE, rule that, blast+)
    have ne: "fst b \<noteq> p" if "b \<in> L" "b \<noteq> (p, n)" for b using inj_onD [OF l(4) _ that(1) p] that(2) by auto
    then have "live_blocks held' big' = (\<lambda>b. (fst b, len (fst b))) ` (L - {(p, n)}) \<union> span_blocks B"
      unfolding q(2) l(2) using B by auto
    moreover have "big' a = Some sp" if a: "B a = Some sp" for a sp
    proof (rule q(3))
      show "big a = Some sp" using l(1) a by (metis domI map_le_def)
      show "GetPageBaseAddr sp \<noteq> p" using B a by (auto simp: span_blocks_def ran_def)
    qed
    then have "B \<subseteq>\<^sub>m big'" by (auto simp: map_le_def dom_def)
    moreover have "\<forall>b \<in> L - {(p, n)}. snd b \<le> len (fst b)" "\<forall>b \<in> L - {(p, n)}. \<forall>m. (fst b, m) \<notin> span_blocks B" using l(3,5) by blast+
    moreover have "inj_on fst (L - {(p, n)})" using l(4) by (rule inj_on_subset) blast
    ultimately have "heap_ok mapped (L - {(p, n)}) B st'" unfolding heap_ok_def using q(1) by blast
    then show ?thesis using r(1) Inr by simp
  qed
qed

lemma heap_ok_blocks:
  assumes h: "heap_ok mapped L B st" and b: "(p, n) \<in> L"
  shows "p \<noteq> 0 \<and> (\<forall>(q, m) \<in> L. (q, m) \<noteq> (p, n) \<longrightarrow> q \<noteq> p \<and> bytes p n \<inter> bytes q m = {}) \<and>
    (\<forall>(q, m) \<in> span_blocks B. bytes p n \<inter> bytes q m = {})"
proof -
  obtain held big len where inv: "am_inv mapped held big st" and l: "B \<subseteq>\<^sub>m big"
    "live_blocks held big = (\<lambda>b. (fst b, len (fst b))) ` L \<union> span_blocks B"
    "\<forall>b \<in> L. snd b \<le> len (fst b)" "inj_on fst L" "\<forall>b \<in> L. \<forall>m. (fst b, m) \<notin> span_blocks B" by (rule heap_okE [OF h])
  have lb: "(q, len q) \<in> live_blocks held big" "bytes q m \<subseteq> bytes q (len q)" if "(q, m) \<in> L" for q m
  proof -
    show "(q, len q) \<in> live_blocks held big" unfolding l(2)
      by (rule UnI1, rule rev_image_eqI [OF that]) simp
    have "m \<le> len q" using l(3) that by fastforce
    then show "bytes q m \<subseteq> bytes q (len q)" by (auto simp: bytes_def)
  qed
  have "p \<noteq> 0" using live_block_lies_in [OF inv lb(1) [OF b]] by metis
  moreover have "q \<noteq> p \<and> bytes p n \<inter> bytes q m = {}" if "(q, m) \<in> L" "(q, m) \<noteq> (p, n)" for q m
  proof
    show ne: "q \<noteq> p" using inj_onD [OF l(4) _ that(1) b] that(2) by auto
    have "bytes p (len p) \<inter> bytes q (len q) = {}" using live_blocks_disjoint [OF inv lb(1) [OF b] lb(1) [OF that(1)]] ne by simp
    then show "bytes p n \<inter> bytes q m = {}" using lb(2) [OF b] lb(2) [OF that(1)] by blast
  qed
  moreover have "bytes p n \<inter> bytes q m = {}" if q: "(q, m) \<in> span_blocks B" for q m
  proof -
    have "q \<noteq> p" using l(5) b q by fastforce
    then have "bytes p (len p) \<inter> bytes q m = {}" using live_blocks_disjoint [OF inv lb(1) [OF b], of q m] q l(2) by simp
    then show ?thesis using lb(2) [OF b] by blast
  qed
  ultimately show ?thesis by blast
qed

section \<open>Properties\<close>

lemma malloc_demo:
  "\<exists>cc st p. CentralCache_ctor bump_os (PageCache_ctor boot) = Inr cc \<and>
     am_malloc bump_os 0 524288 (am_boot False cc) = Some (Inr (Some p, st))"
proof -
  have "room (127 + 9800) boot" using room_mono [OF room_boot] by simp
  then obtain p s where a: "SystemAlloc bump_os 127 boot = (Some p, s)" "room 9800 s" using room_SystemAlloc [of 127 9800 boot] by auto
  obtain cc where cc: "CentralCache_ctor bump_os (PageCache_ctor boot) = Inr cc" "page_cache cc = PageCache_ctor s"
    using a(1) by (simp add: CentralCache_ctor_def InitTransferCache_def transfer_cache_pages_eq PageCache_ctor_def)
  have "pc_inv snd (PageCache_ctor s)" using ctor_ok [OF kernel_ok_bump pc_inv_boot cc(1)] cc(2) by (simp add: cc_inv_def)
  from AllocSpan_room [OF a(2) this] obtain x st' sp where
    "AllocSpan bump_os 128 (PageCache_ctor s) = Some (Inr (Some x, st'))" "spans st' x = Some sp" by (elim exE conjE) (rule that)
  moreover have "drop_bit PAGE_SHIFT (AlignUp 524288 PAGE_SIZE) = 128"
    by (simp add: AlignUp_def align_down_def PAGE_SIZE_def PAGE_SHIFT_def drop_bit_eq_div)
  ultimately show ?thesis using cc
    by (simp add: am_malloc_def am_malloc_slow_path_def am_boot_def EnsureScavengerStarted_def Let_def MAX_TC_SIZE_def)
qed

text \<open>
  C2: \<open>am_malloc\<close>.  In every consistent state and for every size a \<open>size_t\<close> can hold, the call
  returns.  A block it returns is not null, is at least as large as asked for, starts at an address
  that no held block has, and does not overlap any held block; the program then holds exactly this
  block in addition, and the allocator is consistent again.  Null leaves the held blocks alone.
\<close>

theorem am_malloc_correct:
  assumes "kernel_ok os mapped" and "am_inv mapped held big st" and "n < 2 ^ 64"
  shows "\<exists>res. am_malloc os t n st = Some res \<and> (case res of
      Inl e \<Rightarrow> e \<in> {NullConstruct, InCentral LockNotOwned, InCentral (InPageCache (Exn BadAlloc))}
    | Inr (None, st') \<Rightarrow> am_inv mapped held big st'
    | Inr (Some p, st') \<Rightarrow> \<exists>held' big' len. am_inv mapped held' big' st' \<and> n \<le> len \<and> p \<noteq> 0 \<and>
        live_blocks held' big' = insert (p, len) (live_blocks held big) \<and>
        (\<forall>(q, m) \<in> live_blocks held big. q \<noteq> p \<and> bytes p len \<inter> bytes q m = {}))"
proof -
  obtain res where r: "am_malloc os t n st = Some res" "malloc_post mapped held big n res"
    using am_malloc_ok [OF assms, of t] by (elim exE conjE) (rule that)
  have "\<exists>held' big' len. am_inv mapped held' big' st' \<and> n \<le> len \<and> p \<noteq> 0 \<and>
        live_blocks held' big' = insert (p, len) (live_blocks held big) \<and>
        (\<forall>(q, m) \<in> live_blocks held big. q \<noteq> p \<and> bytes p len \<inter> bytes q m = {})" if res: "res = Inr (Some p, st')" for p st'
  proof -
    obtain held' big' len where h: "am_inv mapped held' big' st'" "n \<le> len"
      "live_blocks held' big' = insert (p, len) (live_blocks held big)" "\<forall>m. (p, m) \<notin> live_blocks held big"
      using r(2) unfolding res malloc_post_def by (simp only: sum.case prod.case option.case) (elim exE conjE, rule that)
    have b: "(p, len) \<in> live_blocks held' big'" using h(3) by simp
    have "p \<noteq> 0" using live_block_lies_in [OF h(1) b] by metis
    moreover have "q \<noteq> p \<and> bytes p len \<inter> bytes q m = {}" if "(q, m) \<in> live_blocks held big" for q m
    proof
      show "q \<noteq> p" using h(4) that by blast
      then show "bytes p len \<inter> bytes q m = {}" using live_blocks_disjoint [OF h(1) b, of q m] h(3) that by simp
    qed
    ultimately show ?thesis using h by blast
  qed
  then show ?thesis using r by (auto simp: malloc_post_def split: sum.splits option.splits)
qed

theorem am_malloc_correct_witness:
  "\<exists>st p. am_inv snd (\<lambda>_. {}) Map.empty (st :: bump_kernel am) \<and> (\<exists>st'. am_malloc bump_os 0 524288 st = Some (Inr (Some p, st'))) \<and> p \<noteq> 0"
proof -
  obtain cc st' p where c: "CentralCache_ctor bump_os (PageCache_ctor boot) = Inr cc"
    and m: "am_malloc bump_os 0 524288 (am_boot False cc) = Some (Inr (Some p, st'))" using malloc_demo by (elim exE conjE) (rule that)
  have "cc_inv snd Map.empty (\<lambda>_. {}) cc" by (rule ctor_ok [OF kernel_ok_bump pc_inv_boot c])
  then have i: "am_inv snd (\<lambda>_. {}) Map.empty (am_boot False cc)" by (simp add: am_inv_def am_boot_def tc_objs_def)
  have "(524288 :: nat) < 2 ^ 64" by simp
  from am_malloc_correct [OF kernel_ok_bump i this, of 0] m have "p \<noteq> 0" by auto
  then show ?thesis using i m by blast
qed

text \<open>
  C3: \<open>am_free\<close> of a block the program holds, from any thread, returns; afterwards the program
  holds every other block and this one no more, and the allocator is consistent.  The only failure
  is the construction of a thread cache on a null pointer.
\<close>

theorem am_free_correct:
  assumes "kernel_ok os mapped" and "am_inv mapped held big st" and "(p, len) \<in> live_blocks held big"
  shows "\<exists>res. am_free os t p st = Some res \<and> (case res of
      Inl e \<Rightarrow> e = NullConstruct
    | Inr st' \<Rightarrow> \<exists>held' big'. am_inv mapped held' big' st' \<and> live_blocks held' big' = live_blocks held big - {(p, len)} \<and>
        (\<forall>a sp. big a = Some sp \<longrightarrow> GetPageBaseAddr sp \<noteq> p \<longrightarrow> big' a = Some sp))"
  by (rule am_free_ok [OF assms])

theorem am_free_correct_witness:
  "\<exists>st p held. am_inv snd held Map.empty (st :: bump_kernel am) \<and> p \<in> held 47 \<and> (\<exists>res. am_free bump_os 3 p st = Some res)"
proof -
  obtain cc obj where c: "cc_inv snd Map.empty ((\<lambda>_. {})(47 := {obj})) (cc :: bump_kernel cc)"
    using central_object_demo by (elim exE) (rule that)
  let ?h = "(\<lambda>_. {})(47 := {obj})"
  have i: "am_inv snd ?h Map.empty (am_boot False cc)"
    using c by (simp add: am_inv_def am_boot_def tc_objs_def kNumSizeClasses_eq fun_upd_def)
  have b: "(obj, Size 47) \<in> live_blocks ?h Map.empty" by (auto simp: live_blocks_def)
  from am_free_correct [OF kernel_ok_bump i b, of 3] have "\<exists>res. am_free bump_os 3 obj (am_boot False cc) = Some res" by blast
  moreover have "obj \<in> ?h 47" by simp
  ultimately show ?thesis using i by blast
qed



end
