(* ===== verification/Page_Scavenger.thy ===== *)
theory Page_Scavenger
  imports Am_Malloc
begin

text \<open>
  \<open>page_heap_scavenger.h\<close> and \<open>.cpp\<close>: the thread that gives physical pages of idle free spans back to the
  kernel.  A pass visits the free lists from the longest spans to the shortest.  In each it detaches
  the idle spans with the page cache locked, calls \<open>madvise\<close> for each without the lock, and puts them
  back with the lock held.  One step of the model is one locked region or one system call; between
  two steps the other threads may make any calls.  The log messages are left out.
\<close>

section \<open>One pass\<close>

definition kIdleThresholdMs :: nat where "kIdleThresholdMs = 10000"

text \<open>\<open>now - cur->last_used_time_ms\<close> is a subtraction of unsigned 64-bit numbers.\<close>

definition idle_time :: "nat \<Rightarrow> span \<Rightarrow> nat" where
  "idle_time now sp = (now + 2 ^ 64 - last_used_time_ms sp mod 2 ^ 64) mod 2 ^ 64"

text \<open>The spans detached from free list \<open>i\<close>, in the order of the chain from \<open>head\<close> to \<open>tail\<close>.\<close>

primrec detach_idle :: "nat \<Rightarrow> nat \<Rightarrow> addr list \<Rightarrow> 'k pc \<Rightarrow> pc_error + addr list \<times> 'k pc" where
  "detach_idle now i [] st = Inr ([], st)"
| "detach_idle now i (a # as) st =
     (case spans st a of
        None \<Rightarrow> Inl Dangling
      | Some sp \<Rightarrow>
          if IsUsed sp then detach_idle now i as st
          else if \<not> IsCommitted sp then detach_idle now i as st
          else if idle_time now sp \<ge> kIdleThresholdMs then
            map_sum id (\<lambda>(chn, st'). (a # chn, st')) (detach_idle now i as (pc_update a (SetUsed True) (list_erase i a st)))
          else detach_idle now i as st)"

definition discard_span :: "'k os \<Rightarrow> addr \<Rightarrow> 'k pc \<Rightarrow> pc_error + 'k pc" where
  "discard_span os a st =
     (case spans st a of
        None \<Rightarrow> Inl Dangling
      | Some sp \<Rightarrow>
          (case madvise os (GetPageBaseAddr sp) (push_bit PAGE_SHIFT (page_num sp) mod 2 ^ 32) MADV_DONTNEED (kernel (sys st)) of
             (ok, k) \<Rightarrow>
               let st1 = st\<lparr>sys := (sys st)\<lparr>kernel := k\<rparr>\<rparr>
               in Inr (if ok then pc_update a (SetCommitted False) st1 else st1)))"

definition list_push_back :: "nat \<Rightarrow> addr \<Rightarrow> 'k pc \<Rightarrow> 'k pc" where
  "list_push_back i a st = st\<lparr>span_lists := (span_lists st)[i := span_lists st ! i @ [a]]\<rparr>"

primrec reattach :: "'k os \<Rightarrow> nat \<Rightarrow> addr list \<Rightarrow> 'k pc \<Rightarrow> pc_error + 'k pc" where
  "reattach os i [] st = Inr st"
| "reattach os i (a # as) st =
     (if spans st a = None then Inl Dangling
      else case GetCurrentTimeMs os (pc_update a (SetUsed False) st) of
        (now, st1) \<Rightarrow> reattach os i as (list_push_back i a (pc_update a (\<lambda>sp. sp\<lparr>last_used_time_ms := now\<rparr>) st1)))"

text \<open>
  Where the scavenger thread is: waiting for the next pass, before the scan of free list \<open>i\<close>, or with
  the spans \<open>chn\<close> of free list \<open>i\<close> detached, of which \<open>rest\<close> are still to be discarded.
\<close>

datatype scavenger = Waiting | Scanning nat nat | Discarding nat nat "addr list" "addr list"

definition scavenge_step :: "'k os \<Rightarrow> scavenger \<Rightarrow> 'k pc \<Rightarrow> pc_error + scavenger \<times> 'k pc" where
  "scavenge_step os s st =
     (case s of
        Waiting \<Rightarrow> (case GetCurrentTimeMs os st of (now, st') \<Rightarrow> Inr (Scanning now MAX_PAGE_NUM, st'))
      | Scanning now 0 \<Rightarrow> Inr (Waiting, st)
      | Scanning now (Suc i) \<Rightarrow>
          map_sum id (\<lambda>(chn, st'). (Discarding now (Suc i) chn chn, st')) (detach_idle now (Suc i) (span_lists st ! Suc i) st)
      | Discarding now i chn (a # rest) \<Rightarrow>
          map_sum id (\<lambda>st'. (Discarding now i chn rest, st')) (discard_span os a st)
      | Discarding now i chn [] \<Rightarrow>
          map_sum id (\<lambda>st'. (Scanning now (i - 1), st')) (reattach os i chn st))"

text \<open>A whole pass without calls of other threads in between.\<close>

partial_function (option) scavenge_loop :: "'k os \<Rightarrow> scavenger \<Rightarrow> 'k pc \<Rightarrow> (pc_error + 'k pc) option" where
  "scavenge_loop os s st =
     (case scavenge_step os s st of
        Inl e \<Rightarrow> Some (Inl e)
      | Inr (s', st') \<Rightarrow> if s' = Waiting then Some (Inr st') else scavenge_loop os s' st')"

definition ScavengeOnePass :: "'k os \<Rightarrow> 'k pc \<Rightarrow> (pc_error + 'k pc) option" where
  "ScavengeOnePass os st = scavenge_loop os Waiting st"

section \<open>The page cache invariant\<close>

lemma pc_inv_update:
  assumes "pc_inv mapped st" and "spans st a = Some sp" and "same_pages sp sp'" and "span_ok sp'"
    and "spans st' = (spans st)(a \<mapsto> sp')" and "lists_ok (spans st') (span_lists st')" and "pmap st' = pmap st"
    and "span_pool st' = span_pool st" and "node_pool st' = node_pool st"
    and "mem_inv mapped (span_mem (spans st)) (sys st') (span_pool st) (node_pool st)"
  shows "pc_inv mapped st'"
  using assms update_same [of "spans st", OF assms(2,3)] by (simp add: pc_inv_def)

lemma pc_inv_kernel:
  assumes "kernel_ok os mapped" and "pc_inv mapped st"
  shows "pc_inv mapped (st\<lparr>sys := (sys st)\<lparr>kernel := snd (madvise os p n v (kernel (sys st)))\<rparr>\<rparr>)"
    and "GetCurrentTimeMs os st = (t, st') \<Longrightarrow> pc_inv mapped st'"
proof -
  have "mapped (snd (madvise os p n v (kernel (sys st)))) = mapped (kernel (sys st))"
    using assms(1) unfolding kernel_ok_def by blast
  then show "pc_inv mapped (st\<lparr>sys := (sys st)\<lparr>kernel := snd (madvise os p n v (kernel (sys st)))\<rparr>\<rparr>)"
    using assms(2) by (simp add: pc_inv_def mem_inv_def pa_inv_def in_use_def)
  have mem: "mem_inv mapped (span_mem (spans st)) (sys st) (span_pool st) (node_pool st)" using assms(2) by (simp add: pc_inv_def)
  show "pc_inv mapped st'" if "GetCurrentTimeMs os st = (t, st')"
    using clock_pc [OF assms(1) that mem] assms(2) by (simp add: pc_inv_def)
qed

lemma pc_inv_detach:
  assumes inv: "pc_inv mapped st" and a: "spans st a = Some sp" and free: "\<not> IsUsed sp" and i: "page_num sp = i" "i \<le> MAX_PAGE_NUM"
  shows "pc_inv mapped (pc_update a (SetUsed True) (list_erase i a st))"
proof (rule pc_inv_update [OF inv a, of "SetUsed True sp"])
  have l: "lists_ok (spans st) (span_lists st)" using inv by (simp add: pc_inv_def)
  show "lists_ok (spans (pc_update a (SetUsed True) (list_erase i a st))) (span_lists (pc_update a (SetUsed True) (list_erase i a st)))"
    using lists_remove [OF l a free, of "(spans st)(a \<mapsto> SetUsed True sp)"] i a by (simp add: pc_update_def list_erase_def is_free_def)
  show "span_ok (SetUsed True sp)" using pc_inv_span_ok [OF inv a] by (simp add: span_ok_def)
qed (use inv a in \<open>simp_all add: pc_update_def list_erase_def same_pages_def pc_inv_def\<close>)

lemma pc_inv_touch:
  assumes inv: "pc_inv mapped st" and a: "spans st a = Some sp" and used: "IsUsed sp"
  shows "pc_inv mapped (pc_update a (SetCommitted b) st)"
proof (rule pc_inv_update [OF inv a, of "SetCommitted b sp"])
  have l: "lists_ok (spans st) (span_lists st)" using inv by (simp add: pc_inv_def)
  show "lists_ok (spans (pc_update a (SetCommitted b) st)) (span_lists (pc_update a (SetCommitted b) st))"
    using lists_same [OF l, of a "(spans st)(a \<mapsto> SetCommitted b sp)"] a used by (simp add: pc_update_def is_free_def)
  show "span_ok (SetCommitted b sp)" using pc_inv_span_ok [OF inv a] by (simp add: span_ok_def)
qed (use inv a in \<open>simp_all add: pc_update_def same_pages_def pc_inv_def\<close>)

lemma lists_push_back:
  assumes "lists_ok f (ls[i := a # ls ! i])"
  shows "lists_ok f (ls[i := ls ! i @ [a]])"
proof -
  have "set (ls[i := ls ! i @ [a]] ! k) = set (ls[i := a # ls ! i] ! k) \<and> (distinct (ls[i := ls ! i @ [a]] ! k) \<longleftrightarrow> distinct (ls[i := a # ls ! i] ! k))"
    if "k < length ls" for k
    using that by (cases "k = i") auto
  then show ?thesis using assms unfolding lists_ok_def by simp
qed

lemma pc_inv_attach:
  assumes inv: "pc_inv mapped st" and a: "spans st a = Some sp" and used: "IsUsed sp" and i: "page_num sp = i" "i \<le> MAX_PAGE_NUM"
    and z: "aligned_obj_size sp = 0" and sp': "sp' = (SetUsed False sp)\<lparr>last_used_time_ms := now\<rparr>"
    and st': "spans st' = (spans st)(a \<mapsto> sp')" "span_lists st' = (span_lists st)[i := span_lists st ! i @ [a]]" "pmap st' = pmap st"
      "span_pool st' = span_pool st" "node_pool st' = node_pool st"
      "mem_inv mapped (span_mem (spans st)) (sys st') (span_pool st) (node_pool st)"
  shows "pc_inv mapped st'"
proof (rule pc_inv_update [OF inv a _ _ st'(1) _ st'(3-6)])
  have l: "lists_ok (spans st) (span_lists st)" using inv by (simp add: pc_inv_def)
  have "lists_ok (spans st') ((span_lists st)[page_num sp' := a # span_lists st ! page_num sp'])"
    by (rule lists_add [OF l]) (use a used i in \<open>simp_all add: st'(1) sp' is_free_def\<close>)
  then show "lists_ok (spans st') (span_lists st')" unfolding st'(2) using i(1) by (intro lists_push_back) (simp add: sp')
  show "span_ok sp'" using pc_inv_span_ok [OF inv a] i z by (simp add: span_ok_def sp')
qed (simp add: sp' same_pages_def)

section \<open>The spans of the scavenger\<close>

abbreviation pages :: "'k am \<Rightarrow> 'k pc" where "pages st \<equiv> page_cache (central st)"

lemma set_pages_pages [simp]: "pages (set_pages p st) = p" "set_pages p (set_pages q st) = set_pages p st" "set_pages (pages st) st = st"
  by (simp_all add: set_pages_def)

lemma live_blocks_spans: "live_blocks held big = {(p, Size i) | p i. p \<in> held i} \<union> span_blocks big"
  by (simp add: live_blocks_def span_blocks_def)

abbreviation block_of :: "span \<Rightarrow> addr \<times> nat" where
  "block_of sp \<equiv> (GetPageBaseAddr sp, page_num sp * PAGE_SIZE)"

lemma span_blocks_iff: "b \<in> span_blocks B \<longleftrightarrow> (\<exists>a sp. B a = Some sp \<and> b = block_of sp)"
  by (auto simp: span_blocks_def ran_def)

lemma span_blocks_upd: "span_blocks (m(a \<mapsto> sp)) = insert (block_of sp) (span_blocks (m(a := None)))"
proof -
  have "ran (m(a \<mapsto> sp)) = insert sp (ran (m(a := None)))" using ran_map_upd [of "m(a := None)" a sp] by simp
  then show ?thesis by (auto simp: span_blocks_def)
qed

lemma span_blocks_at: "m a = Some sp \<Longrightarrow> span_blocks m = insert (block_of sp) (span_blocks (m(a := None)))"
  using span_blocks_upd [of m a sp] by (simp add: map_upd_triv)

lemma span_blocks_touch: "m a = Some sp \<Longrightarrow> same_pages sp sp' \<Longrightarrow> span_blocks (m(a \<mapsto> sp')) = span_blocks m"
  using span_blocks_upd [of m a sp'] span_blocks_at [of m a sp] by (simp add: same_pages_def GetPageBaseAddr_def)

lemma span_blocks_mono: "B \<subseteq>\<^sub>m big \<Longrightarrow> span_blocks B \<subseteq> span_blocks big"
  unfolding subset_iff span_blocks_iff map_le_def by (metis domI)

lemma heap_ok_pc: "heap_ok mapped L B st \<Longrightarrow> pc_inv mapped (pages st)"
  by (auto simp: heap_ok_def am_inv_def cc_inv_def)

lemma heap_ok_lent:
  assumes "heap_ok mapped L B st" and "B a = Some sp"
  shows "spans (pages st) a = Some sp" and "IsUsed sp" and "aligned_obj_size sp = 0"
  using assms by (auto simp: heap_ok_def am_inv_def cc_inv_def big_ok_def map_le_def dom_def)

lemma heap_ok_same:
  assumes h: "heap_ok mapped L B st" and p: "pc_inv mapped p" "spans p = spans (pages st)"
  shows "heap_ok mapped L B (set_pages p st)"
proof -
  obtain held big len where inv: "am_inv mapped held big st" and l: "B \<subseteq>\<^sub>m big"
    "live_blocks held big = (\<lambda>b. (fst b, len (fst b))) ` L \<union> span_blocks B"
    "\<forall>b \<in> L. snd b \<le> len (fst b)" "inj_on fst L" "\<forall>b \<in> L. \<forall>m. (fst b, m) \<notin> span_blocks B" by (rule heap_okE [OF h])
  have "big_ok (spans p) big" using inv p(2) by (simp add: am_inv_def cc_inv_def)
  then have "am_inv mapped held big (set_pages p st)" by (rule am_inv_pages [OF inv p(1)]) (simp add: p(2))
  then show ?thesis unfolding heap_ok_def using l by blast
qed

lemma heap_ok_take:
  assumes h: "heap_ok mapped L B st" and a: "spans (pages st) a = Some sp" "\<not> IsUsed sp"
    and p: "pc_inv mapped p" "spans p = (spans (pages st))(a \<mapsto> sp')" and sp': "IsUsed sp'" "aligned_obj_size sp' = 0"
  shows "heap_ok mapped L (B(a \<mapsto> sp')) (set_pages p st)"
proof -
  obtain held big len where inv: "am_inv mapped held big st" and l: "B \<subseteq>\<^sub>m big"
    "live_blocks held big = (\<lambda>b. (fst b, len (fst b))) ` L \<union> span_blocks B"
    "\<forall>b \<in> L. snd b \<le> len (fst b)" "inj_on fst L" "\<forall>b \<in> L. \<forall>m. (fst b, m) \<notin> span_blocks B" by (rule heap_okE [OF h])
  have bo: "big_ok (spans (pages st)) big" using inv by (simp add: am_inv_def cc_inv_def)
  have na: "big a = None" using bo a by (cases "big a") (auto simp: big_ok_def)
  then have nb: "B a = None" using l(1) by (metis domIff map_le_def)
  have "big_ok (spans p) (big(a \<mapsto> sp'))" using bo sp' by (simp add: big_ok_def p(2))
  then have i: "am_inv mapped held (big(a \<mapsto> sp')) (set_pages p st)"
    by (rule am_inv_pages [OF inv p(1)]) (use a in \<open>auto simp: p(2)\<close>)
  have e: "span_blocks (B(a \<mapsto> sp')) = insert (GetPageBaseAddr sp', page_num sp' * PAGE_SIZE) (span_blocks B)"
    using nb by (auto simp: span_blocks_def)
  have new: "GetPageBaseAddr sp' \<noteq> fst b" if "b \<in> L" for b
  proof -
    have "(fst b, len (fst b)) \<in> live_blocks held big" unfolding l(2) using that by simp
    then show ?thesis using big_new [OF i na, of "len (fst b)"] by auto
  qed
  have "live_blocks held (big(a \<mapsto> sp')) = (\<lambda>b. (fst b, len (fst b))) ` L \<union> span_blocks (B(a \<mapsto> sp'))"
    unfolding e live_blocks_big [of big, OF na] l(2) by simp
  moreover have "\<forall>b \<in> L. \<forall>m. (fst b, m) \<notin> span_blocks (B(a \<mapsto> sp'))"
  proof (intro ballI allI)
    show "(fst b, m) \<notin> span_blocks (B(a \<mapsto> sp'))" if "b \<in> L" for b m unfolding e using l(5) new [OF that] that by auto
  qed
  moreover have "B(a \<mapsto> sp') \<subseteq>\<^sub>m big(a \<mapsto> sp')" by (rule map_le_upd [OF l(1)])
  ultimately show ?thesis unfolding heap_ok_def using i l(3,4)
    by (intro exI [of _ held] exI [of _ "big(a \<mapsto> sp')"] exI [of _ len] conjI)
qed

lemma heap_ok_touch:
  assumes h: "heap_ok mapped L B st" and a: "B a = Some sp"
    and p: "pc_inv mapped p" "spans p = (spans (pages st))(a \<mapsto> sp')" and sp': "IsUsed sp'" "aligned_obj_size sp' = 0" "same_pages sp sp'"
  shows "heap_ok mapped L (B(a \<mapsto> sp')) (set_pages p st)"
proof -
  obtain held big len where inv: "am_inv mapped held big st" and l: "B \<subseteq>\<^sub>m big"
    "live_blocks held big = (\<lambda>b. (fst b, len (fst b))) ` L \<union> span_blocks B"
    "\<forall>b \<in> L. snd b \<le> len (fst b)" "inj_on fst L" "\<forall>b \<in> L. \<forall>m. (fst b, m) \<notin> span_blocks B" by (rule heap_okE [OF h])
  have b: "big a = Some sp" using l(1) a by (metis domI map_le_def)
  have "big_ok (spans p) (big(a \<mapsto> sp'))" using inv sp' by (simp add: am_inv_def cc_inv_def big_ok_def p(2))
  then have i: "am_inv mapped held (big(a \<mapsto> sp')) (set_pages p st)"
    by (rule am_inv_pages [OF inv p(1)]) (use heap_ok_lent [OF h a] in \<open>auto simp: p(2)\<close>)
  have "live_blocks held (big(a \<mapsto> sp')) = (\<lambda>b. (fst b, len (fst b))) ` L \<union> span_blocks (B(a \<mapsto> sp'))"
    using l(2) unfolding live_blocks_spans span_blocks_touch [of big, OF b sp'(3)] span_blocks_touch [of B, OF a sp'(3)] .
  moreover have "B(a \<mapsto> sp') \<subseteq>\<^sub>m big(a \<mapsto> sp')" by (rule map_le_upd [OF l(1)])
  moreover have "\<forall>b \<in> L. \<forall>m. (fst b, m) \<notin> span_blocks (B(a \<mapsto> sp'))" unfolding span_blocks_touch [of B, OF a sp'(3)] by (rule l(5))
  ultimately show ?thesis unfolding heap_ok_def using i l(3,4)
    by (intro exI [of _ held] exI [of _ "big(a \<mapsto> sp')"] exI [of _ len] conjI)
qed

lemma heap_ok_give:
  assumes h: "heap_ok mapped L B st" and a: "B a = Some sp" and p: "pc_inv mapped p" "spans p = (spans (pages st))(a \<mapsto> sp')"
  shows "heap_ok mapped L (B(a := None)) (set_pages p st)"
proof -
  obtain held big len where inv: "am_inv mapped held big st" and l: "B \<subseteq>\<^sub>m big"
    "live_blocks held big = (\<lambda>b. (fst b, len (fst b))) ` L \<union> span_blocks B"
    "\<forall>b \<in> L. snd b \<le> len (fst b)" "inj_on fst L" "\<forall>b \<in> L. \<forall>m. (fst b, m) \<notin> span_blocks B" by (rule heap_okE [OF h])
  let ?b = "block_of sp"
  have b: "big a = Some sp" using l(1) a by (metis domI map_le_def)
  have "big_ok (spans p) (big(a := None))" using inv by (simp add: am_inv_def cc_inv_def big_ok_def p(2))
  then have i: "am_inv mapped held (big(a := None)) (set_pages p st)"
    by (rule am_inv_pages [OF inv p(1)]) (use heap_ok_lent [OF h a] in \<open>auto simp: p(2)\<close>)
  have d: "live_blocks held (big(a := None)) = live_blocks held big - {?b}" by (rule live_blocks_drop_big [OF inv b])
  have le: "B(a := None) \<subseteq>\<^sub>m big(a := None)" using l(1) by (simp add: map_le_def)
  note B = span_blocks_mono [OF le] span_blocks_at [of B, OF a]
  have nb: "?b \<notin> span_blocks (B(a := None))" using B(1) d unfolding live_blocks_spans by blast
  have "?b \<notin> (\<lambda>b. (fst b, len (fst b))) ` L" using l(5) B(2) by auto
  then have "live_blocks held (big(a := None)) = (\<lambda>b. (fst b, len (fst b))) ` L \<union> span_blocks (B(a := None))"
    unfolding d l(2) B(2) using nb by blast
  moreover have "\<forall>b \<in> L. \<forall>m. (fst b, m) \<notin> span_blocks (B(a := None))" using l(5) B(2) by blast
  ultimately show ?thesis unfolding heap_ok_def using i l(3,4) le
    by (intro exI [of _ held] exI [of _ "big(a := None)"] exI [of _ len] conjI)
qed

section \<open>Steps of a pass\<close>

definition lent :: "nat \<Rightarrow> addr list \<Rightarrow> (addr \<Rightarrow> span option) \<Rightarrow> bool" where
  "lent i chn B \<longleftrightarrow> distinct chn \<and> dom B = set chn \<and> (\<forall>a sp. B a = Some sp \<longrightarrow> page_num sp = i)"

lemma detach_idle_ok:
  assumes "heap_ok mapped L B (set_pages p st)" and "i \<le> MAX_PAGE_NUM" and "distinct as"
    and "\<And>a. a \<in> set as \<Longrightarrow> \<exists>sp. spans p a = Some sp \<and> \<not> IsUsed sp \<and> page_num sp = i"
  shows "\<exists>chn p' B'. detach_idle now i as p = Inr (chn, p') \<and> heap_ok mapped L (B ++ B') (set_pages p' st) \<and> lent i chn B' \<and>
    set chn \<subseteq> set as"
  using assms
proof (induction as arbitrary: p B)
  case Nil
  then show ?case by (intro exI [of _ "[]"] exI [of _ p] exI [of _ Map.empty]) (simp add: lent_def)
next
  case (Cons a as)
  obtain sp where sp: "spans p a = Some sp" "\<not> IsUsed sp" "page_num sp = i" using Cons.prems(4) [of a] by auto
  show ?case
  proof (cases "IsCommitted sp \<and> idle_time now sp \<ge> kIdleThresholdMs")
    case False
    have "\<exists>chn p' B'. detach_idle now i as p = Inr (chn, p') \<and> heap_ok mapped L (B ++ B') (set_pages p' st) \<and> lent i chn B' \<and> set chn \<subseteq> set as"
      by (rule Cons.IH) (use Cons.prems in auto)
    moreover have "detach_idle now i (a # as) p = detach_idle now i as p" using sp(1,2) False by auto
    ultimately show ?thesis by (metis set_subset_Cons subset_trans)
  next
    case True
    let ?p = "pc_update a (SetUsed True) (list_erase i a p)" and ?sp = "SetUsed True sp"
    have f: "spans ?p = (spans p)(a \<mapsto> ?sp)" using sp(1) by (simp add: pc_update_def list_erase_def)
    have inv: "pc_inv mapped p" using heap_ok_pc [OF Cons.prems(1)] by simp
    have "aligned_obj_size sp = 0" using pc_inv_span_ok [OF inv sp(1)] sp(2) by (simp add: span_ok_def)
    then have h: "heap_ok mapped L (B(a \<mapsto> ?sp)) (set_pages ?p st)"
      using heap_ok_take [OF Cons.prems(1), of a sp ?p ?sp] sp f pc_inv_detach [OF inv sp Cons.prems(2)] by simp
    have "\<exists>chn p' B'. detach_idle now i as ?p = Inr (chn, p') \<and> heap_ok mapped L (B(a \<mapsto> ?sp) ++ B') (set_pages p' st) \<and>
        lent i chn B' \<and> set chn \<subseteq> set as"
      by (rule Cons.IH [OF h Cons.prems(2)]) (use Cons.prems(3,4) in \<open>auto simp: f\<close>)
    then obtain chn p' B' where d: "detach_idle now i as ?p = Inr (chn, p')" "heap_ok mapped L (B(a \<mapsto> ?sp) ++ B') (set_pages p' st)"
      "lent i chn B'" "set chn \<subseteq> set as" by (elim exE conjE) (rule that)
    have na: "a \<notin> set chn" using d(4) Cons.prems(3) by auto
    then have e: "B(a \<mapsto> ?sp) ++ B' = B ++ B'(a \<mapsto> ?sp)" using d(3) by (auto simp: lent_def map_add_def fun_eq_iff split: option.splits)
    have "lent i (a # chn) (B'(a \<mapsto> ?sp))" using d(3) na sp(3) by (simp add: lent_def)
    moreover have "detach_idle now i (a # as) p = Inr (a # chn, p')" using sp(1,2) True d(1) by simp
    moreover have "set (a # chn) \<subseteq> set (a # as)" using d(4) by auto
    ultimately show ?thesis using d(2) [unfolded e] by (intro exI [of _ "a # chn"] exI [of _ p'] exI [of _ "B'(a \<mapsto> ?sp)"] conjI)
  qed
qed

lemma discard_span_ok:
  assumes os: "kernel_ok os mapped" and h: "heap_ok mapped L B st" and l: "lent i chn B" and a: "a \<in> set chn"
  shows "\<exists>p' B'. discard_span os a (pages st) = Inr p' \<and> heap_ok mapped L B' (set_pages p' st) \<and> lent i chn B'"
proof -
  have "a \<in> dom B" using l a by (simp add: lent_def)
  then obtain sp where b: "B a = Some sp" by blast
  note f = heap_ok_lent [OF h b]
  let ?n = "push_bit PAGE_SHIFT (page_num sp) mod 2 ^ 32"
  obtain ok k where m: "madvise os (GetPageBaseAddr sp) ?n MADV_DONTNEED (kernel (sys (pages st))) = (ok, k)" by (rule prod.exhaust)
  let ?p = "(pages st)\<lparr>sys := (sys (pages st))\<lparr>kernel := k\<rparr>\<rparr>"
  have inv: "pc_inv mapped ?p" using pc_inv_kernel(1) [OF os heap_ok_pc [OF h], of "GetPageBaseAddr sp" ?n MADV_DONTNEED] m by simp
  have h': "heap_ok mapped L B (set_pages ?p st)" by (rule heap_ok_same [OF h inv]) simp
  show ?thesis
  proof (cases ok)
    case True
    let ?q = "pc_update a (SetCommitted False) ?p" and ?sp = "SetCommitted False sp"
    have "heap_ok mapped L (B(a \<mapsto> ?sp)) (set_pages ?q (set_pages ?p st))"
      by (rule heap_ok_touch [OF h' b]) (use pc_inv_touch [OF inv _ f(2), of a] f in \<open>simp_all add: pc_update_def same_pages_def\<close>)
    moreover have "lent i chn (B(a \<mapsto> ?sp))" using l b a by (auto simp: lent_def)
    moreover have "discard_span os a (pages st) = Inr ?q" using f(1) m True by (simp add: discard_span_def)
    ultimately show ?thesis by (intro exI [of _ ?q] exI [of _ "B(a \<mapsto> ?sp)"]) simp
  next
    case False
    then have "discard_span os a (pages st) = Inr ?p" using f(1) m by (simp add: discard_span_def)
    then show ?thesis using h' l by blast
  qed
qed

lemma reattach_ok:
  assumes "kernel_ok os mapped" and "heap_ok mapped L B (set_pages p st)" and "lent i chn B" and "i \<le> MAX_PAGE_NUM"
  shows "\<exists>p'. reattach os i chn p = Inr p' \<and> heap_ok mapped L Map.empty (set_pages p' st)"
  using assms(2,3)
proof (induction chn arbitrary: p B)
  case Nil
  then show ?case by (simp add: lent_def)
next
  case (Cons a chn)
  have "a \<in> dom B" using Cons.prems(2) by (simp add: lent_def)
  then obtain sp where b: "B a = Some sp" "page_num sp = i" using Cons.prems(2) unfolding lent_def by blast
  note f = heap_ok_lent [OF Cons.prems(1) b(1), simplified]
  obtain now p1 where t: "GetCurrentTimeMs os (pc_update a (SetUsed False) p) = (now, p1)" by (rule prod.exhaust)
  let ?sp = "(SetUsed False sp)\<lparr>last_used_time_ms := now\<rparr>"
  let ?p = "list_push_back i a (pc_update a (\<lambda>sp. sp\<lparr>last_used_time_ms := now\<rparr>) p1)"
  have inv: "pc_inv mapped p" using heap_ok_pc [OF Cons.prems(1)] by simp
  then have mem: "mem_inv mapped (span_mem (spans p)) (sys p) (span_pool p) (node_pool p)" by (simp add: pc_inv_def)
  have mem1: "mem_inv mapped (span_mem (spans p)) (sys (pc_update a (SetUsed False) p)) (span_pool (pc_update a (SetUsed False) p))
      (node_pool (pc_update a (SetUsed False) p))" using mem by (simp add: pc_update_def)
  note c = clock_pc [OF assms(1) t mem1]
  have s: "spans ?p = (spans p)(a \<mapsto> ?sp)" "span_lists ?p = (span_lists p)[i := span_lists p ! i @ [a]]"
    using c f(1) by (simp_all add: list_push_back_def pc_update_def)
  have "pc_inv mapped ?p"
    by (rule pc_inv_attach [OF inv f(1,2) b(2) assms(4) f(3) refl s]) (use c in \<open>simp_all add: list_push_back_def pc_update_def\<close>)
  then have h: "heap_ok mapped L (B(a := None)) (set_pages ?p (set_pages p st))"
    by (rule heap_ok_give [OF Cons.prems(1) b(1)]) (simp add: s)
  have "lent i chn (B(a := None))" using Cons.prems(2) by (auto simp: lent_def)
  then obtain p' where "reattach os i chn ?p = Inr p'" "heap_ok mapped L Map.empty (set_pages p' st)"
    using Cons.IH [OF h [simplified set_pages_pages]] by blast
  then show ?case using f(1) t by simp
qed

definition scav_ok :: "scavenger \<Rightarrow> (addr \<Rightarrow> span option) \<Rightarrow> bool" where
  "scav_ok s B \<longleftrightarrow>
     (case s of
        Waiting \<Rightarrow> B = Map.empty
      | Scanning now i \<Rightarrow> B = Map.empty \<and> i \<le> MAX_PAGE_NUM
      | Discarding now i chn rest \<Rightarrow> lent i chn B \<and> set rest \<subseteq> set chn \<and> i \<le> MAX_PAGE_NUM)"

lemma free_list_spans:
  assumes "pc_inv mapped p" and "i \<le> MAX_PAGE_NUM"
  shows "distinct (span_lists p ! i)" and "a \<in> set (span_lists p ! i) \<Longrightarrow> \<exists>sp. spans p a = Some sp \<and> \<not> IsUsed sp \<and> page_num sp = i"
  using assms by (auto simp: pc_inv_def lists_ok_def)

lemma scan_ok:
  assumes "heap_ok mapped L Map.empty st" and "Suc i \<le> MAX_PAGE_NUM"
  shows "\<exists>chn p' B'. scavenge_step os (Scanning now (Suc i)) (pages st) = Inr (Discarding now (Suc i) chn chn, p') \<and>
    heap_ok mapped L B' (set_pages p' st) \<and> lent (Suc i) chn B'"
proof -
  have h: "heap_ok mapped L Map.empty (set_pages (pages st) st)" using assms(1) by simp
  note F = free_list_spans [OF heap_ok_pc [OF assms(1)] assms(2)]
  show ?thesis using detach_idle_ok [OF h assms(2) F, of now] by (auto simp: scavenge_step_def)
qed

lemma scavenge_step_ok:
  assumes os: "kernel_ok os mapped" and h: "heap_ok mapped L B st" and s: "scav_ok s B"
  shows "\<exists>s' p' B'. scavenge_step os s (pages st) = Inr (s', p') \<and> heap_ok mapped L B' (set_pages p' st) \<and> scav_ok s' B'"
proof (cases s)
  case Waiting
  obtain now p' where t: "GetCurrentTimeMs os (pages st) = (now, p')" by (rule prod.exhaust)
  have "spans p' = spans (pages st)" using t by (auto simp: GetCurrentTimeMs_def split: prod.splits)
  then have "heap_ok mapped L B (set_pages p' st)" by (rule heap_ok_same [OF h pc_inv_kernel(2) [OF os heap_ok_pc [OF h] t]])
  then show ?thesis using Waiting s t by (simp add: scavenge_step_def scav_ok_def)
next
  case (Scanning now i)
  show ?thesis
  proof (cases i)
    case 0
    then show ?thesis using Scanning s h by (simp add: scavenge_step_def scav_ok_def)
  next
    case (Suc k)
    then have "heap_ok mapped L Map.empty st" "Suc k \<le> MAX_PAGE_NUM" using h s Scanning by (simp_all add: scav_ok_def)
    from scan_ok [OF this, of os now] show ?thesis using Scanning Suc \<open>Suc k \<le> MAX_PAGE_NUM\<close> by (fastforce simp: scav_ok_def)
  qed
next
  case (Discarding now i chn rest)
  then have l: "lent i chn B" "set rest \<subseteq> set chn" "i \<le> MAX_PAGE_NUM" using s by (simp_all add: scav_ok_def)
  show ?thesis
  proof (cases rest)
    case Nil
    have "heap_ok mapped L B (set_pages (pages st) st)" using h by simp
    from reattach_ok [OF os this l(1,3)] show ?thesis using Discarding Nil l(3) by (auto simp: scavenge_step_def scav_ok_def)
  next
    case (Cons a as)
    then have "a \<in> set chn" using l(2) by simp
    from discard_span_ok [OF os h l(1) this] show ?thesis using Discarding Cons l by (fastforce simp: scavenge_step_def scav_ok_def)
  qed
qed

section \<open>A pass ends\<close>

lemma discard_loop:
  assumes "kernel_ok os mapped" and "heap_ok mapped L B (set_pages p st)" and "lent (Suc i) chn B" and "set rest \<subseteq> set chn" and "Suc i \<le> MAX_PAGE_NUM"
  shows "\<exists>p'. scavenge_loop os (Discarding now (Suc i) chn rest) p = scavenge_loop os (Scanning now i) p' \<and> heap_ok mapped L Map.empty (set_pages p' st)"
  using assms(2-4)
proof (induction rest arbitrary: p B)
  case Nil
  from reattach_ok [OF assms(1) Nil.prems(1,2) assms(5)] show ?case
    by (subst scavenge_loop.simps) (auto simp: scavenge_step_def)
next
  case (Cons a rest)
  then obtain p' B' where d: "discard_span os a p = Inr p'" "heap_ok mapped L B' (set_pages p' st)" "lent (Suc i) chn B'"
    using discard_span_ok [OF assms(1) Cons.prems(1,2), of a] by auto
  from Cons.IH [OF d(2,3)] Cons.prems(3) d(1) show ?case by (subst scavenge_loop.simps) (simp add: scavenge_step_def)
qed

lemma scan_loop:
  assumes "kernel_ok os mapped" and "heap_ok mapped L Map.empty (set_pages p st)" and "i \<le> MAX_PAGE_NUM"
  shows "\<exists>p'. scavenge_loop os (Scanning now i) p = Some (Inr p') \<and> heap_ok mapped L Map.empty (set_pages p' st)"
  using assms(2,3)
proof (induction i arbitrary: p)
  case 0
  then show ?case by (subst scavenge_loop.simps) (simp add: scavenge_step_def)
next
  case (Suc i)
  obtain chn q B where s: "scavenge_step os (Scanning now (Suc i)) p = Inr (Discarding now (Suc i) chn chn, q)"
    "heap_ok mapped L B (set_pages q st)" "lent (Suc i) chn B" using scan_ok [OF Suc.prems, of os now] by auto
  obtain r where "scavenge_loop os (Discarding now (Suc i) chn chn) q = scavenge_loop os (Scanning now i) r"
    "heap_ok mapped L Map.empty (set_pages r st)" using discard_loop [OF assms(1) s(2,3) subset_refl Suc.prems(2)] by blast
  then show ?case using Suc.IH [of r] Suc.prems(2) s(1) by (subst scavenge_loop.simps) simp
qed

section \<open>Traces\<close>

text \<open>
  \<open>am_trace os st0 L s st\<close>: a program whose threads call the allocator in some order, and the
  scavenger thread once it is started, have brought the allocator from \<open>st0\<close> to \<open>st\<close> and the scavenger
  to \<open>s\<close>; \<open>L\<close> are the blocks that the program has got and not freed, each with the size it asked for.
  A program frees only null and what it holds.
\<close>

inductive am_trace :: "'k os \<Rightarrow> 'k am \<Rightarrow> (addr \<times> nat) set \<Rightarrow> scavenger \<Rightarrow> 'k am \<Rightarrow> bool" for os st0 where
  start: "am_trace os st0 {} Waiting st0"
| malloc: "am_trace os st0 L s st \<Longrightarrow> n < 2 ^ 64 \<Longrightarrow> am_malloc os t n st = Some (Inr (Some p, st')) \<Longrightarrow>
    am_trace os st0 (insert (p, n) L) s st'"
| malloc_null: "am_trace os st0 L s st \<Longrightarrow> n < 2 ^ 64 \<Longrightarrow> am_malloc os t n st = Some (Inr (None, st')) \<Longrightarrow>
    am_trace os st0 L s st'"
| free: "am_trace os st0 L s st \<Longrightarrow> (p, n) \<in> L \<Longrightarrow> am_free os t p st = Some (Inr st') \<Longrightarrow>
    am_trace os st0 (L - {(p, n)}) s st'"
| free_null: "am_trace os st0 L s st \<Longrightarrow> am_free os t 0 st = Some (Inr st') \<Longrightarrow> am_trace os st0 L s st'"
| scavenge: "am_trace os st0 L s st \<Longrightarrow> scavenger_started st \<Longrightarrow> scavenge_step os s (pages st) = Inr (s', p) \<Longrightarrow>
    am_trace os st0 L s' (set_pages p st)"

lemma heap_ok_trace:
  "am_trace os st0 L s st \<Longrightarrow> kernel_ok os mapped \<Longrightarrow> heap_ok mapped {} Map.empty st0 \<Longrightarrow> \<exists>B. heap_ok mapped L B st \<and> scav_ok s B"
proof (induction rule: am_trace.induct)
  case start
  then show ?case by (auto simp: scav_ok_def)
next
  case (malloc L s st n t p st')
  then obtain B where B: "heap_ok mapped L B st" "scav_ok s B" by blast
  from heap_ok_malloc [OF malloc.prems(1) B(1) malloc.hyps(2), of t] malloc.hyps(3) B(2) show ?case by auto
next
  case (malloc_null L s st n t st')
  then obtain B where B: "heap_ok mapped L B st" "scav_ok s B" by blast
  from heap_ok_malloc [OF malloc_null.prems(1) B(1) malloc_null.hyps(2), of t] malloc_null.hyps(3) B(2) show ?case by auto
next
  case (free L s st p n t st')
  then obtain B where B: "heap_ok mapped L B st" "scav_ok s B" by blast
  from heap_ok_free [OF free.prems(1) B(1) free.hyps(2), of t] free.hyps(3) B(2) show ?case by auto
next
  case (free_null L s st t st')
  then show ?case by (simp add: am_free_def)
next
  case (scavenge L s st s' p)
  then obtain B where B: "heap_ok mapped L B st" "scav_ok s B" by blast
  from scavenge_step_ok [OF scavenge.prems(1) B] scavenge.hyps(3) show ?case by auto
qed

lemma heap_ok_start:
  assumes "kernel_ok os mapped" and "cache s = HugePageCache_ctor" and "CentralCache_ctor os (PageCache_ctor s) = Inr cc"
  shows "heap_ok mapped {} Map.empty (am_boot enable cc)"
  by (rule heap_ok_boot) (rule ctor_ok [OF assms(1) pc_inv_ctor [OF pa_inv_fresh [OF assms(2)]] assms(3)])

section \<open>Properties\<close>

text \<open>
  C1: heap integrity.  Start the allocator on any kernel that keeps the documented contract of
  \<open>mmap\<close>, \<open>munmap\<close> and \<open>madvise\<close>, and let any number of threads call \<open>am_malloc\<close> and \<open>am_free\<close> in
  any order, each block freed at most once, with the scavenger's locked regions and system calls
  anywhere in between.  Then at every moment the blocks the program holds are not null, have
  distinct addresses and do not overlap over the sizes the program asked for; the next \<open>am_malloc\<close>
  of any size returns (a block, null, or one of the three exceptions of an exhausted kernel), and so
  does the next \<open>am_free\<close> of a block the program holds.
\<close>

theorem heap_integrity:
  assumes "kernel_ok os mapped" and "cache s = HugePageCache_ctor" and "CentralCache_ctor os (PageCache_ctor s) = Inr cc"
    and "am_trace os (am_boot enable cc) L sc st"
  shows "(\<forall>(p, n) \<in> L. p \<noteq> 0 \<and> (\<forall>(q, m) \<in> L. (q, m) \<noteq> (p, n) \<longrightarrow> q \<noteq> p \<and> bytes p n \<inter> bytes q m = {})) \<and>
    (\<forall>t n. n < 2 ^ 64 \<longrightarrow> (\<exists>res. am_malloc os t n st = Some res \<and>
       (case res of Inl e \<Rightarrow> e \<in> {NullConstruct, InCentral LockNotOwned, InCentral (InPageCache (Exn BadAlloc))}
        | Inr _ \<Rightarrow> True))) \<and>
    (\<forall>t. \<forall>(p, n) \<in> L. am_free os t p st = Some (Inl NullConstruct) \<or> (\<exists>st'. am_free os t p st = Some (Inr st')))"
proof -
  obtain B where h: "heap_ok mapped L B st" using heap_ok_trace [OF assms(4,1) heap_ok_start [OF assms(1-3)]] by blast
  have "\<exists>res. am_malloc os t n st = Some res \<and>
      (case res of Inl e \<Rightarrow> e \<in> {NullConstruct, InCentral LockNotOwned, InCentral (InPageCache (Exn BadAlloc))} | Inr _ \<Rightarrow> True)"
    if "n < 2 ^ 64" for t n
    using heap_ok_malloc [OF assms(1) h that, of t] by (auto split: sum.splits)
  moreover have "am_free os t p st = Some (Inl NullConstruct) \<or> (\<exists>st'. am_free os t p st = Some (Inr st'))"
    if p: "(p, n) \<in> L" for t p n
  proof -
    obtain res where "am_free os t p st = Some res" "case res of Inl e \<Rightarrow> e = NullConstruct | Inr st' \<Rightarrow> heap_ok mapped (L - {(p, n)}) B st'"
      using heap_ok_free [OF assms(1) h p, of t] by (elim exE conjE) (rule that)
    then show ?thesis by (cases res) simp_all
  qed
  moreover have "p \<noteq> 0 \<and> (\<forall>(q, m) \<in> L. (q, m) \<noteq> (p, n) \<longrightarrow> q \<noteq> p \<and> bytes p n \<inter> bytes q m = {})" if "(p, n) \<in> L" for p n
    using heap_ok_blocks [OF h that] by (elim conjE) (rule conjI)
  ultimately show ?thesis by blast
qed

theorem heap_integrity_witness:
  "\<exists>p. p \<noteq> 0 \<and> (\<exists>st. am_free bump_os 1 p st = Some (Inl NullConstruct) \<or> (\<exists>st'. am_free bump_os 1 p st = Some (Inr st')))"
proof -
  obtain cc st p where c: "CentralCache_ctor bump_os (PageCache_ctor boot) = Inr cc"
    and m: "am_malloc bump_os 0 524288 (am_boot False cc) = Some (Inr (Some p, st))" using malloc_demo by (elim exE conjE) (rule that)
  have t: "am_trace bump_os (am_boot False cc) {(p, 524288)} Waiting st"
    by (rule am_trace.malloc [OF am_trace.start _ m]) simp
  have b: "cache boot = HugePageCache_ctor" by (simp add: boot_def)
  note H = heap_integrity [OF kernel_ok_bump b c t]
  have "p \<noteq> 0" using H [THEN conjunct1] by simp
  moreover have "am_free bump_os 1 p st = Some (Inl NullConstruct) \<or> (\<exists>st'. am_free bump_os 1 p st = Some (Inr st'))"
    using H [THEN conjunct2, THEN conjunct2, THEN spec [of _ 1]] by simp
  ultimately show ?thesis by blast
qed



text \<open>
  C12: a scavenger pass always ends.  Run without calls in between, it visits all free lists, no
  step of it fails, and afterwards every span it detached is in a free list again and the program's
  blocks are as before.
\<close>

theorem scavenge_pass_ends:
  assumes "kernel_ok os mapped" and "heap_ok mapped L Map.empty st"
  shows "\<exists>p'. ScavengeOnePass os (pages st) = Some (Inr p') \<and> heap_ok mapped L Map.empty (set_pages p' st)"
proof -
  obtain now p where t: "GetCurrentTimeMs os (pages st) = (now, p)" by (rule prod.exhaust)
  have "spans p = spans (pages st)" using t by (auto simp: GetCurrentTimeMs_def split: prod.splits)
  then have "heap_ok mapped L Map.empty (set_pages p st)"
    by (rule heap_ok_same [OF assms(2) pc_inv_kernel(2) [OF assms(1) heap_ok_pc [OF assms(2)] t]])
  from scan_loop [OF assms(1) this le_refl] show ?thesis
    unfolding ScavengeOnePass_def by (subst scavenge_loop.simps) (simp add: scavenge_step_def t)
qed

theorem scavenge_pass_ends_witness:
  "\<exists>st p. heap_ok snd {} Map.empty (st :: bump_kernel am) \<and> ScavengeOnePass bump_os (pages st) = Some (Inr p)"
proof -
  obtain cc :: "bump_kernel cc" where c: "CentralCache_ctor bump_os (PageCache_ctor boot) = Inr cc" using malloc_demo by blast
  have b: "cache boot = HugePageCache_ctor" by (simp add: boot_def)
  have h: "heap_ok snd {} Map.empty (am_boot True cc)" by (rule heap_ok_start [OF kernel_ok_bump b c])
  from scavenge_pass_ends [OF kernel_ok_bump h] h show ?thesis by blast
qed

text \<open>
  The clock is read once per pass, and the subtraction wraps: a span freed during the pass with a
  later time stamp counts as idle.
\<close>

lemma fresh_span_counts_as_idle:
  assumes "now < last_used_time_ms sp" and "last_used_time_ms sp \<le> now + 2 ^ 63" and "last_used_time_ms sp < 2 ^ 64"
  shows "idle_time now sp \<ge> kIdleThresholdMs"
proof -
  have "idle_time now sp = 2 ^ 64 - (last_used_time_ms sp - now)"
    using assms by (simp add: idle_time_def)
  then show ?thesis using assms by (simp add: kIdleThresholdMs_def)
qed

end
