(* ===== verification/Am_Result.thy ===== *)
theory Am_Result
  imports Am_Prelude
begin

text \<open>
  \<open>status.h\<close> and \<open>overflow_check.h\<close>: the error model and the checked arithmetic of the inference
  runtime.  A \<open>StatusOr\<close> is a sum whose left side is a non-OK status code or the failure of an
  \<open>AM_CHECK\<close>, which ends the process; the texts of error messages are not modelled.
\<close>

section \<open>Status codes\<close>

datatype status_code =
  kOk | kCancelled | kUnknown | kInvalidArgument | kDeadlineExceeded | kNotFound | kAlreadyExists
| kPermissionDenied | kResourceExhausted | kFailedPrecondition | kAborted | kOutOfRange | kUnimplemented
| kInternal | kUnavailable | kDataLoss | kOverflow | kUnauthenticated

text \<open>The enumerators in the order of their numeric values.\<close>

definition status_codes :: "status_code list" where
  "status_codes =
     [kOk, kCancelled, kUnknown, kInvalidArgument, kDeadlineExceeded, kNotFound, kAlreadyExists,
      kPermissionDenied, kResourceExhausted, kFailedPrecondition, kAborted, kOutOfRange, kUnimplemented,
      kInternal, kUnavailable, kDataLoss, kOverflow, kUnauthenticated]"

fun StatusCodeName :: "status_code \<Rightarrow> string" where
  "StatusCodeName kOk = ''OK''"
| "StatusCodeName kCancelled = ''CANCELLED''"
| "StatusCodeName kUnknown = ''UNKNOWN''"
| "StatusCodeName kInvalidArgument = ''INVALID_ARGUMENT''"
| "StatusCodeName kDeadlineExceeded = ''DEADLINE_EXCEEDED''"
| "StatusCodeName kNotFound = ''NOT_FOUND''"
| "StatusCodeName kAlreadyExists = ''ALREADY_EXISTS''"
| "StatusCodeName kPermissionDenied = ''PERMISSION_DENIED''"
| "StatusCodeName kResourceExhausted = ''RESOURCE_EXHAUSTED''"
| "StatusCodeName kFailedPrecondition = ''FAILED_PRECONDITION''"
| "StatusCodeName kAborted = ''ABORTED''"
| "StatusCodeName kOutOfRange = ''OUT_OF_RANGE''"
| "StatusCodeName kUnimplemented = ''UNIMPLEMENTED''"
| "StatusCodeName kInternal = ''INTERNAL''"
| "StatusCodeName kUnavailable = ''UNAVAILABLE''"
| "StatusCodeName kDataLoss = ''DATA_LOSS''"
| "StatusCodeName kUnauthenticated = ''UNAUTHENTICATED''"
| "StatusCodeName kOverflow = ''OVERFLOW''"

definition ToAMStatusCode :: "status_code \<Rightarrow> int" where
  "ToAMStatusCode c = int (length (takeWhile (\<lambda>d. d \<noteq> c) status_codes))"

definition FromAMStatusCode :: "int \<Rightarrow> status_code" where
  "FromAMStatusCode n = (if n < 0 \<or> n > 17 then kUnknown else status_codes ! nat n)"

lemma status_code_roundtrip [simp]: "FromAMStatusCode (ToAMStatusCode c) = c"
  by (cases c) (simp_all add: FromAMStatusCode_def ToAMStatusCode_def status_codes_def)

lemma StatusCodeName_inj: "StatusCodeName c = StatusCodeName d \<longleftrightarrow> c = d"
  by (cases c; cases d; simp)

section \<open>Results\<close>

datatype fault = Error status_code | Check_Failed

type_synonym 'a result = "fault + 'a"

abbreviation InvalidArgument :: "'a result" where
  "InvalidArgument \<equiv> Inl (Error kInvalidArgument)"

text \<open>\<open>AM_ASSIGN_OR_RETURN\<close> and \<open>AM_RETURN_IF_ERROR\<close>.\<close>

definition and_then :: "'e + 'a \<Rightarrow> ('a \<Rightarrow> 'e + 'b) \<Rightarrow> 'e + 'b" where
  "and_then m f = (case m of Inl e \<Rightarrow> Inl e | Inr x \<Rightarrow> f x)"

text \<open>\<open>AM_CHECK\<close>.\<close>

definition check :: "bool \<Rightarrow> unit result" where
  "check b = (if b then Inr () else Inl Check_Failed)"

text \<open>A loop that pushes one element per iteration and returns on the first error.\<close>

primrec traverse :: "('a \<Rightarrow> 'e + 'b) \<Rightarrow> 'a list \<Rightarrow> 'e + 'b list" where
  "traverse f [] = Inr []"
| "traverse f (x # xs) = and_then (f x) (\<lambda>y. and_then (traverse f xs) (\<lambda>ys. Inr (y # ys)))"

lemma and_then_simps [simp]: "and_then (Inl e) f = Inl e" "and_then (Inr x) f = f x"
  by (simp_all add: and_then_def)

lemma and_then_eq_Inr [simp]: "and_then m f = Inr y \<longleftrightarrow> (\<exists>x. m = Inr x \<and> f x = Inr y)"
  by (simp add: and_then_def split: sum.splits)

lemma and_then_eq_Inl: "and_then m f = Inl e \<longleftrightarrow> m = Inl e \<or> (\<exists>x. m = Inr x \<and> f x = Inl e)"
  by (simp add: and_then_def split: sum.splits)

lemma check_eq [simp]: "check b = Inr u \<longleftrightarrow> b" "check b = Inl e \<longleftrightarrow> \<not> b \<and> e = Check_Failed" "check True = Inr ()"
  by (auto simp: check_def)

lemma traverse_eq_Inr: "traverse f xs = Inr ys \<longleftrightarrow> length ys = length xs \<and> (\<forall>i < length xs. f (xs ! i) = Inr (ys ! i))"
proof (induction xs arbitrary: ys)
  case (Cons x xs)
  then show ?case by (cases ys) (auto simp: All_less_Suc2)
qed auto

lemma traverse_eq_Inl: "traverse f xs = Inl e \<Longrightarrow> \<exists>x \<in> set xs. f x = Inl e"
  by (induction xs) (auto simp: and_then_eq_Inl)

lemma traverse_total: "(\<And>x. x \<in> set xs \<Longrightarrow> f x = Inr (g x)) \<Longrightarrow> traverse f xs = Inr (map g xs)"
  by (induction xs) simp_all

lemma traverse_Inr_map: "traverse (\<lambda>x. Inr (g x)) xs = Inr (map g xs)"
  by (rule traverse_total) simp

end
