(* ===== verification/Overflow_Check.thy ===== *)
theory Overflow_Check
  imports Am_Result
begin

text \<open>
  \<open>overflow_check.h\<close>: checked arithmetic on a machine integer type \<open>T\<close>.  A value of \<open>T\<close> is a word;
  the operations of a signed \<open>T\<close> read it with \<open>sint\<close>, those of an unsigned \<open>T\<close> with \<open>uint\<close>.  Each
  function gives the returned flag and the value stored in \<open>out\<close>.  The first group is the one on
  the compiler builtins, the second the portable fallback.
\<close>

section \<open>Builtins\<close>

definition CheckOverflowMul_u :: "'a::len word \<Rightarrow> 'a word \<Rightarrow> bool \<times> 'a word" where
  "CheckOverflowMul_u a b = (uint a * uint b \<noteq> uint (a * b), a * b)"

definition CheckOverflowMul_s :: "'a::len word \<Rightarrow> 'a word \<Rightarrow> bool \<times> 'a word" where
  "CheckOverflowMul_s a b = (sint a * sint b \<noteq> sint (a * b), a * b)"

definition CheckOverflowAdd_u :: "'a::len word \<Rightarrow> 'a word \<Rightarrow> bool \<times> 'a word" where
  "CheckOverflowAdd_u a b = (uint a + uint b \<noteq> uint (a + b), a + b)"

definition CheckOverflowAdd_s :: "'a::len word \<Rightarrow> 'a word \<Rightarrow> bool \<times> 'a word" where
  "CheckOverflowAdd_s a b = (sint a + sint b \<noteq> sint (a + b), a + b)"

definition CheckOverflowSub_u :: "'a::len word \<Rightarrow> 'a word \<Rightarrow> bool \<times> 'a word" where
  "CheckOverflowSub_u a b = (uint a - uint b \<noteq> uint (a - b), a - b)"

definition CheckOverflowSub_s :: "'a::len word \<Rightarrow> 'a word \<Rightarrow> bool \<times> 'a word" where
  "CheckOverflowSub_s a b = (sint a - sint b \<noteq> sint (a - b), a - b)"

section \<open>Portable fallback\<close>

text \<open>The fallback of the multiplication has the same bits for a signed and an unsigned \<open>T\<close>.\<close>

definition portable_Mul :: "'a::len word \<Rightarrow> 'a word \<Rightarrow> bool \<times> 'a word" where
  "portable_Mul a b =
     (let result = a * b
      in (if a = 0 \<or> b = 0 then False else result div a \<noteq> b, result))"

definition portable_Add_u :: "'a::len word \<Rightarrow> 'a word \<Rightarrow> bool \<times> 'a word" where
  "portable_Add_u a b = (let result = a + b in (result < a, result))"

definition portable_Add_s :: "'a::len word \<Rightarrow> 'a word \<Rightarrow> bool \<times> 'a word" where
  "portable_Add_s a b =
     (let result = a + b
      in (sint a > 0 \<and> sint b > 0 \<and> sint result < 0 \<or> sint a < 0 \<and> sint b < 0 \<and> sint result > 0, result))"

definition portable_Sub_u :: "'a::len word \<Rightarrow> 'a word \<Rightarrow> bool \<times> 'a word" where
  "portable_Sub_u a b = (let result = a - b in (result > a, result))"

definition portable_Sub_s :: "'a::len word \<Rightarrow> 'a word \<Rightarrow> bool \<times> 'a word" where
  "portable_Sub_s a b =
     (let result = a - b
      in (sint a \<ge> 0 \<and> sint b < 0 \<and> sint result < 0 \<or> sint a < 0 \<and> sint b > 0 \<and> sint result > 0, result))"

section \<open>Products of ranges\<close>

primrec multiply_loop :: "u64 list \<Rightarrow> u64 \<Rightarrow> bool \<Rightarrow> bool \<times> u64" where
  "multiply_loop [] acc overflowed = (overflowed, acc)"
| "multiply_loop (x # xs) acc overflowed =
     (case CheckOverflowMul_u acc x of (o', acc') \<Rightarrow> multiply_loop xs acc' (overflowed \<or> o'))"

definition SafeMultiplyU64 :: "u64 list \<Rightarrow> bool \<times> u64" where
  "SafeMultiplyU64 xs = multiply_loop xs 1 False"

section \<open>Exactness\<close>

lemma mod_changes: "(n :: nat) \<noteq> n mod 2 ^ k \<longleftrightarrow> 2 ^ k \<le> n"
proof (cases "n < 2 ^ k")
  case False
  moreover have "n mod 2 ^ k < 2 ^ k" by simp
  ultimately show ?thesis by linarith
qed simp

lemma mul_u_iff: "fst (CheckOverflowMul_u a b) \<longleftrightarrow> 2 ^ LENGTH('a) \<le> unat a * unat b" for a b :: "'a::len word"
proof -
  have e: "uint a * uint b = int (unat a * unat b)" by (simp only: of_nat_mult of_nat_unat)
  have m: "uint (a * b) = int (unat a * unat b mod 2 ^ LENGTH('a))" 
    by (simp only: uint_word_ariths of_nat_mod of_nat_mult of_nat_unat of_nat_power of_nat_numeral)
  show ?thesis unfolding CheckOverflowMul_u_def fst_conv e m of_nat_eq_iff mod_changes ..
qed

lemma mul_u_exact: "\<not> fst (CheckOverflowMul_u a b) \<Longrightarrow> unat (snd (CheckOverflowMul_u a b)) = unat a * unat b"
  for a b :: "'a::len word"
  unfolding mul_u_iff by (simp add: CheckOverflowMul_u_def unat_word_ariths)

text \<open>Reading the signed value of a sum or difference of two signed values.\<close>

lemma signed_wrap:
  fixes x :: int
  assumes "- (2 ^ 64) \<le> x" and "x < 2 ^ 64"
  shows "signed_take_bit 63 x = (if x < - (2 ^ 63) then x + 2 ^ 64 else if x < 2 ^ 63 then x else x - 2 ^ 64)"
proof -
  have e: "signed_take_bit 63 x = (x + 2 ^ 63) mod 2 ^ 64 - 2 ^ 63"
    by (simp add: signed_take_bit_eq_take_bit_shift take_bit_eq_mod)
  consider "x < - (2 ^ 63)" | "- (2 ^ 63) \<le> x" "x < 2 ^ 63" | "2 ^ 63 \<le> x" by linarith
  then show ?thesis
  proof cases
    case 1
    have "(x + 2 ^ 63) mod 2 ^ 64 = (x + 2 ^ 63 + 2 ^ 64) mod 2 ^ 64" by (rule mod_add_self2 [symmetric])
    also have "\<dots> = x + 2 ^ 63 + 2 ^ 64" using assms 1 by (intro mod_pos_pos_trivial) simp_all
    finally show ?thesis using e 1 by simp
  next
    case 2
    then have "(x + 2 ^ 63) mod 2 ^ 64 = x + 2 ^ 63" by (intro mod_pos_pos_trivial) simp_all
    then show ?thesis using e 2 by simp
  next
    case 3
    have "(x + 2 ^ 63) mod 2 ^ 64 = (x + 2 ^ 63 - 2 ^ 64) mod 2 ^ 64" by (rule minus_mod_self2 [symmetric])
    also have "\<dots> = x + 2 ^ 63 - 2 ^ 64" using assms 3 by (intro mod_pos_pos_trivial) simp_all
    finally show ?thesis using e 3 by simp
  qed
qed

lemma sint_range: "- (2 ^ 63) \<le> sint w \<and> sint w < 2 ^ 63" for w :: u64
  using sint_ge [of w] sint_lt [of w] by simp

lemma sint_add: "sint (a + b) = signed_take_bit 63 (sint a + sint b)" for a b :: u64
  by (simp add: sint_word_ariths)

lemma sint_sub: "sint (a - b) = signed_take_bit 63 (sint a - sint b)" for a b :: u64
  by (simp add: sint_word_ariths)

lemma sub_flag:
  fixes x y r :: int
  assumes "- (2 ^ 63) \<le> x" "x < 2 ^ 63" "- (2 ^ 63) \<le> y" "y < 2 ^ 63" and "r = signed_take_bit 63 (x - y)"
  shows "(x \<ge> 0 \<and> y < 0 \<and> r < 0 \<or> x < 0 \<and> y > 0 \<and> r > 0) = (x - y \<noteq> r)"
proof -
  have r: "r = (if x - y < - (2 ^ 63) then x - y + 2 ^ 64 else if x - y < 2 ^ 63 then x - y else x - y - 2 ^ 64)"
    using assms(1-4) unfolding assms(5) by (intro signed_wrap) simp_all
  consider "x - y < - (2 ^ 63)" | "- (2 ^ 63) \<le> x - y" "x - y < 2 ^ 63" | "2 ^ 63 \<le> x - y" by linarith
  then show ?thesis
  proof cases
    case 1
    then have "r = x - y + 2 ^ 64" using r by simp
    then show ?thesis using assms(1-4) 1 by auto
  next
    case 2
    then have "r = x - y" using r by simp
    then show ?thesis using assms(1-4) 2 by auto
  next
    case 3
    then have "r = x - y - 2 ^ 64" using r by simp
    then show ?thesis using assms(1-4) 3 by auto
  qed
qed

lemma add_flag:
  fixes x y r :: int
  assumes "- (2 ^ 63) \<le> x" "x < 2 ^ 63" "- (2 ^ 63) \<le> y" "y < 2 ^ 63" and "r = signed_take_bit 63 (x + y)"
  shows "(x > 0 \<and> y > 0 \<and> r < 0 \<or> x < 0 \<and> y < 0 \<and> r > 0) = (x + y \<noteq> r) \<longleftrightarrow> \<not> (x = - (2 ^ 63) \<and> y = - (2 ^ 63))"
proof -
  have r: "r = (if x + y < - (2 ^ 63) then x + y + 2 ^ 64 else if x + y < 2 ^ 63 then x + y else x + y - 2 ^ 64)"
    using assms(1-4) unfolding assms(5) by (intro signed_wrap) simp_all
  consider "x + y < - (2 ^ 63)" | "- (2 ^ 63) \<le> x + y" "x + y < 2 ^ 63" | "2 ^ 63 \<le> x + y" by linarith
  then show ?thesis
  proof cases
    case 1
    then have "r = x + y + 2 ^ 64" using r by simp
    then show ?thesis using assms(1-4) 1 by auto
  next
    case 2
    then have "r = x + y" using r by simp
    then show ?thesis using assms(1-4) 2 by auto
  next
    case 3
    then have "r = x + y - 2 ^ 64" using r by simp
    then show ?thesis using assms(1-4) 3 by auto
  qed
qed

lemma portable_Sub_s_builtin: "portable_Sub_s a b = CheckOverflowSub_s a b" for a b :: u64
  unfolding portable_Sub_s_def CheckOverflowSub_s_def Let_def
  using sub_flag [of "sint a" "sint b", OF _ _ _ _ sint_sub] sint_range [of a] sint_range [of b] by (simp only: prod.inject)

lemma portable_Add_s_builtin:
  "portable_Add_s a b = CheckOverflowAdd_s a b \<longleftrightarrow> \<not> (sint a = - (2 ^ 63) \<and> sint b = - (2 ^ 63))" for a b :: u64
  unfolding portable_Add_s_def CheckOverflowAdd_s_def Let_def
  using add_flag [of "sint a" "sint b", OF _ _ _ _ sint_add] sint_range [of a] sint_range [of b]
  by (simp only: prod.inject simp_thms)

lemma portable_Add_u_builtin: "portable_Add_u a b = CheckOverflowAdd_u a b" for a b :: "'a::len word"
proof -
  have "a + b < a \<longleftrightarrow> uint a + uint b \<noteq> uint (a + b)"
    using uint_plus_if' [of a b] uint_bounded [of a] uint_bounded [of b] unfolding word_less_def by (auto split: if_splits)
  then show ?thesis by (simp add: portable_Add_u_def CheckOverflowAdd_u_def Let_def)
qed

lemma portable_Sub_u_builtin: "portable_Sub_u a b = CheckOverflowSub_u a b" for a b :: "'a::len word"
proof -
  have "a < a - b \<longleftrightarrow> uint a - uint b \<noteq> uint (a - b)"
    using uint_sub_if' [of a b] uint_bounded [of a] uint_bounded [of b] unfolding word_less_def by (auto split: if_splits)
  then show ?thesis by (simp add: portable_Sub_u_def CheckOverflowSub_u_def Let_def)
qed

lemma portable_Mul_builtin: "portable_Mul a b = CheckOverflowMul_u a b" for a b :: "'a::len word"
proof -
  have "(a * b) div a = b \<longleftrightarrow> uint a * uint b = uint (a * b)" if "a \<noteq> 0"
  proof -
    let ?m = "2 ^ LENGTH('a) :: nat"
    have d: "(a * b) div a = b \<longleftrightarrow> unat a * unat b mod ?m div unat a = unat b"
      by (simp add: word_unat_eq_iff unat_div unat_word_ariths)
    have pos: "0 < unat a" using that by (simp add: unat_gt_0)
    have e: "uint a * uint b = uint (a * b) \<longleftrightarrow> unat a * unat b < ?m"
      using mul_u_iff [of a b] by (auto simp: CheckOverflowMul_u_def)
    show ?thesis
    proof (cases "unat a * unat b < ?m")
      case True
      then show ?thesis using d e pos by simp
    next
      case False
      then have "unat a * unat b mod ?m < unat b * unat a"
      proof -
        have "unat a * unat b mod ?m < ?m" by simp
        also have "\<dots> \<le> unat b * unat a" using False by (simp add: mult.commute)
        finally show ?thesis .
      qed
      then have "unat a * unat b mod ?m div unat a < unat b" by (rule less_mult_imp_div_less)
      then show ?thesis using d e False by simp
    qed
  qed
  then show ?thesis by (auto simp: portable_Mul_def CheckOverflowMul_u_def Let_def)
qed

lemma multiply_loop_spec:
  assumes "multiply_loop xs p False = (f, r)"
  shows "\<not> f \<longleftrightarrow> (\<forall>k \<le> length xs. unat p * prod_list (map unat (take k xs)) < 2 ^ 64)"
    and "\<not> f \<Longrightarrow> unat r = unat p * prod_list (map unat xs)"
proof -
  have up: "unat q < 2 ^ 64" for q :: u64 using unsigned_less [of q] by simp
  have stuck: "fst (multiply_loop ys q True)" for ys q
    by (induction ys arbitrary: q) (simp_all split: prod.splits)
  have "(\<not> f \<longleftrightarrow> (\<forall>k \<le> length xs. unat p * prod_list (map unat (take k xs)) < 2 ^ 64)) \<and>
    (\<not> f \<longrightarrow> unat r = unat p * prod_list (map unat xs))"
    using assms
  proof (induction xs arbitrary: p)
    case Nil
    then show ?case using up [of p] by auto
  next
    case (Cons x xs)
    have pre: "(\<forall>k \<le> length (x # xs). unat p * prod_list (map unat (take k (x # xs))) < 2 ^ 64) \<longleftrightarrow>
      (\<forall>k \<le> length xs. unat p * unat x * prod_list (map unat (take k xs)) < 2 ^ 64)"
    proof -
      have split: "(\<forall>k \<le> Suc n. P k) \<longleftrightarrow> P 0 \<and> (\<forall>k \<le> n. P (Suc k))" for P :: "nat \<Rightarrow> bool" and n
        unfolding less_Suc_eq_le [symmetric] by (rule All_less_Suc2)
      show ?thesis unfolding list.size add_Suc_right add_0_right split using up [of p] by (simp add: mult.assoc)
    qed
    show ?case
    proof (cases "fst (CheckOverflowMul_u p x)")
      case True
      then have "f" using Cons.prems stuck [of xs "p * x"] by (simp add: CheckOverflowMul_u_def)
      moreover have "\<not> unat p * unat x * prod_list (map unat (take 0 xs)) < 2 ^ 64" using True unfolding mul_u_iff by simp
      ultimately show ?thesis unfolding pre by blast
    next
      case False
      then have "multiply_loop xs (p * x) False = (f, r)" using Cons.prems by (simp add: CheckOverflowMul_u_def)
      moreover have "unat (p * x) = unat p * unat x" using mul_u_exact [OF False] by (simp add: CheckOverflowMul_u_def)
      ultimately show ?thesis unfolding pre using Cons.IH [of "p * x"] by (simp add: mult.assoc)
    qed
  qed
  then show "\<not> f \<longleftrightarrow> (\<forall>k \<le> length xs. unat p * prod_list (map unat (take k xs)) < 2 ^ 64)"
    and "\<not> f \<Longrightarrow> unat r = unat p * prod_list (map unat xs)" by blast+
qed

section \<open>Properties\<close>


end
