(* ===== verification/Shape_Symbol.thy ===== *)
theory Shape_Symbol
  imports Overflow_Check
begin

text \<open>
  \<open>shape_symbol.h\<close> and \<open>shape_symbol.cpp\<close>: symbolic dimensions and shapes.  A dimension is an
  \<open>int64_t\<close>: non-negative for a static one, -1 for an unknown one, below -1 for a symbol.  The
  counter \<open>next_symbol_\<close> is passed through the functions that create symbols.  The last section
  gives symbolic shapes their meaning: the concrete shapes that they describe under a valuation of
  the symbols.
\<close>

section \<open>Dimensions\<close>

datatype shape_symbol = ShapeSymbol (dim_value: int)

definition kUnknownDim :: int where "kUnknownDim = - 1"

definition Unknown :: shape_symbol where "Unknown = ShapeSymbol kUnknownDim"

definition IsStatic :: "shape_symbol \<Rightarrow> bool" where "IsStatic s \<longleftrightarrow> dim_value s \<ge> 0"

definition IsUnknown :: "shape_symbol \<Rightarrow> bool" where "IsUnknown s \<longleftrightarrow> dim_value s = kUnknownDim"

definition IsSymbolic :: "shape_symbol \<Rightarrow> bool" where "IsSymbolic s \<longleftrightarrow> dim_value s < kUnknownDim"

definition GetStaticValue :: "shape_symbol \<Rightarrow> int result" where
  "GetStaticValue s = and_then (check (IsStatic s)) (\<lambda>_. Inr (dim_value s))"

definition CreateFromValue :: "int \<Rightarrow> shape_symbol result" where
  "CreateFromValue val = and_then (check (val \<ge> 0)) (\<lambda>_. Inr (ShapeSymbol val))"

text \<open>\<open>Create\<close>: \<open>fetch_sub\<close> on the 64-bit counter.\<close>

definition Create :: "int \<Rightarrow> shape_symbol \<times> int" where
  "Create next_symbol = (ShapeSymbol next_symbol, signed_take_bit 63 (next_symbol - 1))"

definition JoinShapeSymbol :: "shape_symbol \<Rightarrow> shape_symbol \<Rightarrow> int \<Rightarrow> shape_symbol \<times> int" where
  "JoinShapeSymbol a b next_symbol = (if a = b then (a, next_symbol) else Create next_symbol)"

definition UnifyShapeSymbol :: "shape_symbol \<Rightarrow> shape_symbol \<Rightarrow> shape_symbol result" where
  "UnifyShapeSymbol a b =
     (if a = b then Inr a
      else if IsStatic a \<and> IsStatic b then InvalidArgument
      else if IsStatic a then Inr a
      else if IsStatic b then Inr b
      else if IsUnknown a then Inr b
      else if IsUnknown b then Inr a
      else Inr Unknown)"

section \<open>Shapes\<close>

text \<open>\<open>symbolic_shape_\<close>: no value for an unranked shape.\<close>

type_synonym symbolic_shape = "shape_symbol list option"

definition shape_of_rank :: "nat option \<Rightarrow> symbolic_shape" where
  "shape_of_rank rank = map_option (\<lambda>n. replicate n Unknown) rank"

definition shape_of_options :: "int option list \<Rightarrow> symbolic_shape result" where
  "shape_of_options shape =
     and_then (traverse (\<lambda>i. case i of Some v \<Rightarrow> CreateFromValue v | None \<Rightarrow> Inr Unknown) shape) (\<lambda>ds. Inr (Some ds))"

definition shape_of_ints :: "int list \<Rightarrow> symbolic_shape result" where
  "shape_of_ints shape = and_then (traverse CreateFromValue shape) (\<lambda>ds. Inr (Some ds))"

definition IsRanked :: "symbolic_shape \<Rightarrow> bool" where "IsRanked s \<longleftrightarrow> s \<noteq> None"

definition IsUnranked :: "symbolic_shape \<Rightarrow> bool" where "IsUnranked s \<longleftrightarrow> s = None"

definition IsRankZero :: "symbolic_shape \<Rightarrow> bool" where "IsRankZero s \<longleftrightarrow> s = Some []"

definition rank :: "symbolic_shape \<Rightarrow> nat option" where "rank s = map_option length s"

text \<open>\<open>operator[]\<close>, to read and to assign.\<close>

definition dim_at :: "symbolic_shape \<Rightarrow> nat \<Rightarrow> shape_symbol result" where
  "dim_at s i =
     (case s of None \<Rightarrow> Inl Check_Failed
      | Some ds \<Rightarrow> if i < length ds then Inr (ds ! i) else Inl Check_Failed)"

definition set_dim :: "symbolic_shape \<Rightarrow> nat \<Rightarrow> shape_symbol \<Rightarrow> symbolic_shape result" where
  "set_dim s i d =
     (case s of None \<Rightarrow> Inl Check_Failed
      | Some ds \<Rightarrow> if i < length ds then Inr (Some (ds[i := d])) else Inl Check_Failed)"

definition GetSymbolicDims :: "symbolic_shape \<Rightarrow> bool list option" where
  "GetSymbolicDims s = map_option (map (\<lambda>d. \<not> IsStatic d)) s"

definition IsStaticShape :: "symbolic_shape \<Rightarrow> bool" where
  "IsStaticShape s = (case s of None \<Rightarrow> False | Some ds \<Rightarrow> list_all IsStatic ds)"

primrec join_dims :: "(shape_symbol \<times> shape_symbol) list \<Rightarrow> int \<Rightarrow> shape_symbol list \<times> int" where
  "join_dims [] n = ([], n)"
| "join_dims (p # ps) n =
     (case JoinShapeSymbol (fst p) (snd p) n of (c, n1) \<Rightarrow>
        case join_dims ps n1 of (cs, n2) \<Rightarrow> (c # cs, n2))"

definition Join :: "symbolic_shape \<Rightarrow> symbolic_shape \<Rightarrow> int \<Rightarrow> symbolic_shape \<times> int" where
  "Join s t n =
     (case (s, t) of
        (Some a, Some b) \<Rightarrow>
          if length a \<noteq> length b then (None, n)
          else (case join_dims (zip a b) n of (ds, n') \<Rightarrow> (Some ds, n'))
      | _ \<Rightarrow> (None, n))"

definition Unify :: "symbolic_shape \<Rightarrow> symbolic_shape \<Rightarrow> symbolic_shape result" where
  "Unify s t =
     (case s of
        None \<Rightarrow> Inr t
      | Some a \<Rightarrow>
          (case t of
             None \<Rightarrow> Inr s
           | Some b \<Rightarrow>
               if length a \<noteq> length b then InvalidArgument
               else and_then (traverse (\<lambda>(x, y). UnifyShapeSymbol x y) (zip a b)) (\<lambda>ds. Inr (Some ds))))"

definition HasRank :: "symbolic_shape \<Rightarrow> nat \<Rightarrow> bool" where
  "HasRank s n \<longleftrightarrow> rank s = Some n"

definition IsPositiveIfStatic :: "shape_symbol \<Rightarrow> bool" where
  "IsPositiveIfStatic d \<longleftrightarrow> \<not> IsStatic d \<or> dim_value d > 0"

definition AreProvablyEqual :: "shape_symbol \<Rightarrow> shape_symbol \<Rightarrow> bool" where
  "AreProvablyEqual lhs rhs \<longleftrightarrow> \<not> IsUnknown lhs \<and> \<not> IsUnknown rhs \<and> lhs = rhs"

section \<open>Meaning\<close>

text \<open>
  \<open>denotes \<sigma> d v\<close>: the runtime size \<open>v\<close> is one that \<open>d\<close> describes when the symbols have the values
  \<open>\<sigma>\<close>.  A runtime size is never negative.
\<close>

definition denotes :: "(int \<Rightarrow> int) \<Rightarrow> shape_symbol \<Rightarrow> int \<Rightarrow> bool" where
  "denotes \<sigma> d v \<longleftrightarrow>
     v \<ge> 0 \<and> (IsStatic d \<longrightarrow> v = dim_value d) \<and> (IsSymbolic d \<longrightarrow> v = \<sigma> (dim_value d))"

definition shape_denotes :: "(int \<Rightarrow> int) \<Rightarrow> symbolic_shape \<Rightarrow> int list \<Rightarrow> bool" where
  "shape_denotes \<sigma> s vs =
     (case s of None \<Rightarrow> list_all (\<lambda>v. v \<ge> 0) vs | Some ds \<Rightarrow> list_all2 (denotes \<sigma>) ds vs)"

lemma dim_kinds [simp]:
  "IsStatic (ShapeSymbol v) \<longleftrightarrow> v \<ge> 0" "IsUnknown (ShapeSymbol v) \<longleftrightarrow> v = - 1" "IsSymbolic (ShapeSymbol v) \<longleftrightarrow> v < - 1"
  by (simp_all add: IsStatic_def IsUnknown_def IsSymbolic_def kUnknownDim_def)

lemma dim_kind_cases:
  obtains "IsStatic d" "\<not> IsUnknown d" "\<not> IsSymbolic d" | "IsUnknown d" "\<not> IsStatic d" "\<not> IsSymbolic d" "d = Unknown"
  | "IsSymbolic d" "\<not> IsStatic d" "\<not> IsUnknown d"
  by (cases d) (auto simp: Unknown_def kUnknownDim_def, linarith)

lemma unknown_kind [simp]: "IsUnknown Unknown" "\<not> IsStatic Unknown" "\<not> IsSymbolic Unknown" "dim_value Unknown = - 1"
  by (simp_all add: Unknown_def kUnknownDim_def)

lemma denotes_nonneg: "denotes \<sigma> d v \<Longrightarrow> v \<ge> 0"
  by (simp add: denotes_def)

lemma denotes_static: "IsStatic d \<Longrightarrow> denotes \<sigma> d v \<longleftrightarrow> v = dim_value d"
  by (cases d) (auto simp: denotes_def)

lemma denotes_Unknown [simp]: "denotes \<sigma> Unknown v \<longleftrightarrow> v \<ge> 0"
  by (simp add: denotes_def)

lemma provably_equal_denotes:
  "AreProvablyEqual a b \<Longrightarrow> denotes \<sigma> a v \<Longrightarrow> denotes \<sigma> b w \<Longrightarrow> v = w"
  by (cases b rule: dim_kind_cases) (auto simp: AreProvablyEqual_def denotes_def)

lemma shape_denotes_Some [simp]: "shape_denotes \<sigma> (Some ds) vs \<longleftrightarrow> list_all2 (denotes \<sigma>) ds vs"
  by (simp add: shape_denotes_def)

lemma denotes_all_nonneg: "list_all2 (denotes \<sigma>) ds vs \<Longrightarrow> list_all (\<lambda>v. v \<ge> 0) vs"
  by (induction rule: list_all2_induct) (auto simp: denotes_def)

lemma shape_denotes_nonneg: "shape_denotes \<sigma> s vs \<Longrightarrow> list_all (\<lambda>v. v \<ge> 0) vs"
  using denotes_all_nonneg by (cases s) (auto simp: shape_denotes_def)

lemma shape_denotes_rank: "shape_denotes \<sigma> s vs \<Longrightarrow> rank s = Some n \<Longrightarrow> length vs = n"
  by (cases s) (auto simp: shape_denotes_def rank_def dest: list_all2_lengthD)

lemma dim_at_denotes: "shape_denotes \<sigma> s vs \<Longrightarrow> dim_at s i = Inr d \<Longrightarrow> i < length vs \<and> denotes \<sigma> d (vs ! i)"
  by (cases s) (auto simp: dim_at_def shape_denotes_def list_all2_conv_all_nth split: if_splits)

lemma dim_at_rank: "rank s = Some n \<Longrightarrow> i < n \<Longrightarrow> dim_at s i = Inr (the s ! i)"
  by (cases s) (auto simp: dim_at_def rank_def)

section \<open>Unification\<close>

lemma UnifyShapeSymbol_ok: "UnifyShapeSymbol a b = Inr c \<Longrightarrow> denotes \<sigma> a v \<Longrightarrow> denotes \<sigma> b v \<Longrightarrow> denotes \<sigma> c v"
  by (auto simp: UnifyShapeSymbol_def denotes_nonneg split: if_splits)

lemma UnifyShapeSymbol_error:
  "UnifyShapeSymbol a b = Inl e \<Longrightarrow> e = Error kInvalidArgument \<and> \<not> (denotes \<sigma> a v \<and> denotes \<sigma> b v)"
  by (cases a; cases b) (auto simp: UnifyShapeSymbol_def denotes_def split: if_splits)

lemma Unify_total: "Unify s t = Inl e \<Longrightarrow> e = Error kInvalidArgument"
  by (auto simp: Unify_def and_then_eq_Inl split: option.splits if_splits
      dest!: traverse_eq_Inl dest: UnifyShapeSymbol_error)

lemma Unify_meet:
  assumes "shape_denotes \<sigma> s vs" and "shape_denotes \<sigma> t vs"
  shows "\<exists>u. Unify s t = Inr u \<and> shape_denotes \<sigma> u vs"
proof (cases s)
  case None
  then show ?thesis using assms by (simp add: Unify_def)
next
  case (Some a)
  show ?thesis
  proof (cases t)
    case None
    then show ?thesis using assms Some by (simp add: Unify_def)
  next
    case t: (Some b)
    have len: "length a = length vs" "length b = length vs" using assms Some t by (auto dest: list_all2_lengthD)
    have d: "denotes \<sigma> (a ! i) (vs ! i)" "denotes \<sigma> (b ! i) (vs ! i)" if "i < length vs" for i
      using assms Some t that by (auto simp: list_all2_conv_all_nth)
    let ?f = "\<lambda>(x, y). UnifyShapeSymbol x y"
    have "\<exists>c. UnifyShapeSymbol (a ! i) (b ! i) = Inr c" if "i < length vs" for i
      using UnifyShapeSymbol_error [of "a ! i" "b ! i"] d [OF that] by (cases "UnifyShapeSymbol (a ! i) (b ! i)") auto
    then obtain g where g: "\<And>i. i < length vs \<Longrightarrow> UnifyShapeSymbol (a ! i) (b ! i) = Inr (g i)" by metis
    have "traverse ?f (zip a b) = Inr (map g [0..<length vs])"
      using len g by (simp add: traverse_eq_Inr)
    moreover have "list_all2 (denotes \<sigma>) (map g [0..<length vs]) vs"
      using UnifyShapeSymbol_ok [OF g] d by (simp add: list_all2_conv_all_nth)
    ultimately show ?thesis using Some t len by (simp add: Unify_def)
  qed
qed

section \<open>Joining\<close>

definition below :: "int \<Rightarrow> shape_symbol \<Rightarrow> bool" where
  "below n d \<longleftrightarrow> n < dim_value d"

lemma denotes_cong: "(\<And>k. n < k \<Longrightarrow> \<tau> k = \<sigma> k) \<Longrightarrow> below n d \<Longrightarrow> denotes \<tau> d v = denotes \<sigma> d v"
  by (simp add: denotes_def below_def)

lemma join_dims_ok:
  assumes "join_dims ps n = (ds, n')" and "n \<le> - 2" and "- (2 ^ 63) \<le> n - int (length ps)"
    and "\<forall>p \<in> set ps. below n (fst p) \<and> below n (snd p)"
    and "list_all2 (\<lambda>p v. denotes \<sigma> (fst p) v \<or> denotes \<sigma> (snd p) v) ps vs"
  shows "n' \<le> n \<and> (\<forall>d \<in> set ds. below n' d) \<and> (\<exists>\<tau>. (\<forall>k. n < k \<longrightarrow> \<tau> k = \<sigma> k) \<and> list_all2 (denotes \<tau>) ds vs)"
  using assms
proof (induction ps arbitrary: n ds vs \<sigma>)
  case Nil
  then show ?case by auto
next
  case (Cons p ps)
  obtain v ws where vs: "vs = v # ws" and v: "denotes \<sigma> (fst p) v \<or> denotes \<sigma> (snd p) v"
    and ws: "list_all2 (\<lambda>p v. denotes \<sigma> (fst p) v \<or> denotes \<sigma> (snd p) v) ps ws"
    using Cons.prems(5) by (auto simp: list_all2_Cons1)
  obtain c n1 where c: "JoinShapeSymbol (fst p) (snd p) n = (c, n1)" by (rule prod.exhaust)
  obtain cs where cs: "join_dims ps n1 = (cs, n')" and ds: "ds = c # cs" using Cons.prems(1) c by (auto split: prod.splits)
  show ?case
  proof (cases "fst p = snd p")
    case True
    then have e: "c = fst p" "n1 = n" using c by (simp_all add: JoinShapeSymbol_def)
    obtain \<tau> where t: "n' \<le> n" "\<forall>d \<in> set cs. below n' d" "\<forall>k. n < k \<longrightarrow> \<tau> k = \<sigma> k" "list_all2 (denotes \<tau>) cs ws"
      using Cons.IH [OF cs [unfolded e] Cons.prems(2) _ _ ws] Cons.prems(3,4) ds by (simp, blast)
    have b: "below n c" using Cons.prems(4) e by simp
    then have "denotes \<tau> c v" using denotes_cong [of n \<tau> \<sigma> c v] t(3) v True e by simp
    then show ?thesis using t b ds vs by (auto simp: below_def)
  next
    case False
    have nw: "signed_take_bit 63 (n - 1) = n - 1" using Cons.prems(2,3) by (intro signed_take_bit_int_eq_self) simp_all
    then have e: "c = ShapeSymbol n" "n1 = n - 1" using c False by (simp_all add: JoinShapeSymbol_def Create_def)
    let ?s = "\<sigma>(n := v)"
    have cong: "denotes ?s d w = denotes \<sigma> d w" if "below n d" for d w by (rule denotes_cong [OF _ that]) simp
    have "list_all2 (\<lambda>p v. denotes ?s (fst p) v \<or> denotes ?s (snd p) v) ps ws"
      using ws Cons.prems(4) cong by (auto simp: list_all2_conv_all_nth)
    moreover have "\<forall>p \<in> set ps. below (n - 1) (fst p) \<and> below (n - 1) (snd p)" using Cons.prems(4) by (auto simp: below_def)
    ultimately obtain \<tau> where t: "n' \<le> n - 1" "\<forall>d \<in> set cs. below n' d" "\<forall>k. n - 1 < k \<longrightarrow> \<tau> k = ?s k" "list_all2 (denotes \<tau>) cs ws"
      using Cons.IH [of "n - 1" cs ?s ws] cs e Cons.prems(2,3) ds by (simp del: fun_upd_apply) blast
    have "v \<ge> 0" using v by (auto dest: denotes_nonneg)
    then have "denotes \<tau> c v" using t(3) e Cons.prems(2) by (simp add: denotes_def)
    moreover have "\<forall>k. n < k \<longrightarrow> \<tau> k = \<sigma> k" using t(3) by simp
    ultimately show ?thesis using t(1,2,4) e ds vs by (auto simp: below_def)
  qed
qed


section \<open>Properties\<close>


text \<open>
  C38: \<open>Join\<close>, for the merge of two control-flow branches, over-approximates both: whenever the
  counter is below every symbol in use and does not wrap, each runtime shape that either branch
  describes under a valuation is described by the result, under a valuation that differs only on
  the symbols that the call created; and the counter stays below all symbols of the result.
\<close>

theorem join_sound:
  assumes "Join s t n = (u, n')" and "n \<le> - 2" and "- (2 ^ 63) \<le> n - int (length vs)"
    and "\<forall>ds. s = Some ds \<or> t = Some ds \<longrightarrow> list_all (below n) ds"
    and "shape_denotes \<sigma> s vs \<or> shape_denotes \<sigma> t vs"
  shows "n' \<le> n \<and> (\<exists>\<tau>. (\<forall>k. n < k \<longrightarrow> \<tau> k = \<sigma> k) \<and> shape_denotes \<tau> u vs) \<and>
    (\<forall>ds. u = Some ds \<longrightarrow> list_all (below n') ds)"
proof (cases "\<exists>a b. s = Some a \<and> t = Some b \<and> length a = length b")
  case False
  then have "u = None" "n' = n" using assms(1) by (auto simp: Join_def split: option.splits if_splits)
  moreover have "shape_denotes \<sigma> None vs" using assms(5) shape_denotes_nonneg by (auto simp: shape_denotes_def)
  ultimately show ?thesis by auto
next
  case True
  then obtain a b where ab: "s = Some a" "t = Some b" "length a = length b" by blast
  obtain ds where ds: "join_dims (zip a b) n = (ds, n')" "u = Some ds"
    using assms(1) ab by (auto simp: Join_def split: prod.splits)
  have len: "length vs = length a" using assms(5) ab by (auto dest: list_all2_lengthD)
  have "list_all2 (\<lambda>p v. denotes \<sigma> (fst p) v \<or> denotes \<sigma> (snd p) v) (zip a b) vs"
    using assms(5) ab len by (auto simp: list_all2_conv_all_nth)
  moreover have "\<forall>p \<in> set (zip a b). below n (fst p) \<and> below n (snd p)"
    using assms(4) ab by (auto simp: list_all_iff dest: set_zip_leftD set_zip_rightD)
  moreover have "- (2 ^ 63) \<le> n - int (length (zip a b))" using assms(3) ab(3) len by simp
  ultimately show ?thesis using join_dims_ok [OF ds(1) assms(2)] ds(2) by (auto simp: list_all_iff)
qed

theorem join_sound_witness:
  "\<exists>\<tau>. shape_denotes \<tau> (fst (Join (Some [ShapeSymbol 16, ShapeSymbol 4]) (Some [ShapeSymbol 32, ShapeSymbol 4]) (- 2))) [16, 4]"
proof -
  have j: "Join (Some [ShapeSymbol 16, ShapeSymbol 4]) (Some [ShapeSymbol 32, ShapeSymbol 4]) (- 2) =
      (Some [ShapeSymbol (- 2), ShapeSymbol 4], - 3)"
    by (simp add: Join_def JoinShapeSymbol_def Create_def signed_take_bit_int_eq_self)
  have "shape_denotes (\<lambda>_. 0) (Some [ShapeSymbol 16, ShapeSymbol 4]) [16, 4]" by (simp add: denotes_def)
  moreover have "\<forall>ds. Some [ShapeSymbol 16, ShapeSymbol 4] = Some ds \<or> Some [ShapeSymbol 32, ShapeSymbol 4] = Some ds \<longrightarrow>
      list_all (below (- 2)) ds" by (auto simp: below_def)
  ultimately show ?thesis using join_sound [OF j, of "[16, 4]" "\<lambda>_. 0"] unfolding j fst_conv by (simp, blast)
qed

end
