(* ===== verification/Broadcast.thy ===== *)
theory Broadcast
  imports Shape_Symbol
begin

text \<open>
  \<open>broadcast.h\<close> and \<open>broadcast.cpp\<close>: NumPy-style broadcasting of concrete shapes, expansion of
  strides, and broadcasting of symbolic shapes with the axes whose check is left to run time.
\<close>

section \<open>Concrete shapes\<close>

text \<open>The size on an output axis of a right-aligned input whose leading axes are padded with 1.\<close>

definition aligned_dim :: "int list \<Rightarrow> nat \<Rightarrow> nat \<Rightarrow> int" where
  "aligned_dim shape axis_offset output_axis =
     (if output_axis < axis_offset then 1 else shape ! (output_axis - axis_offset))"

definition broadcast_dim :: "int \<Rightarrow> int \<Rightarrow> int result" where
  "broadcast_dim lhs_dim rhs_dim =
     (if lhs_dim < 0 \<or> rhs_dim < 0 then InvalidArgument
      else if lhs_dim = 1 then Inr rhs_dim
      else if rhs_dim = 1 \<or> lhs_dim = rhs_dim then Inr lhs_dim
      else InvalidArgument)"

definition BroadcastShapes :: "int list \<Rightarrow> int list \<Rightarrow> int list result" where
  "BroadcastShapes lhs_shape rhs_shape =
     (let output_rank = max (length lhs_shape) (length rhs_shape);
          lhs_axis_offset = output_rank - length lhs_shape;
          rhs_axis_offset = output_rank - length rhs_shape
      in traverse (\<lambda>output_axis.
           broadcast_dim (aligned_dim lhs_shape lhs_axis_offset output_axis)
             (aligned_dim rhs_shape rhs_axis_offset output_axis)) [0..<output_rank])"

definition effective_stride :: "int \<Rightarrow> int \<Rightarrow> int \<Rightarrow> int result" where
  "effective_stride input_dim input_stride output_dim =
     (if input_dim < 0 \<or> output_dim < 0 then InvalidArgument
      else if input_dim = output_dim then Inr input_stride
      else if input_dim = 1 then Inr 0
      else InvalidArgument)"

definition BroadcastInputStrides :: "int list \<Rightarrow> int list \<Rightarrow> int list \<Rightarrow> int list result" where
  "BroadcastInputStrides input_shape input_strides output_shape =
     (if length input_shape \<noteq> length input_strides \<or> length input_shape > length output_shape then InvalidArgument
      else
        let axis_offset = length output_shape - length input_shape
        in and_then
             (traverse (\<lambda>output_axis.
                effective_stride (input_shape ! (output_axis - axis_offset))
                  (input_strides ! (output_axis - axis_offset)) (output_shape ! output_axis))
                [axis_offset..<length output_shape])
             (\<lambda>strides. Inr (replicate axis_offset 0 @ strides)))"

section \<open>Symbolic shapes\<close>

record deferred_axis =
  lhs_axis :: nat
  rhs_axis :: nat

record symbolic_broadcast =
  output_shape :: symbolic_shape
  deferred_axes :: "deferred_axis list"

text \<open>One explicit axis: the output dimension and whether its check is deferred.\<close>

definition infer_dim :: "shape_symbol \<Rightarrow> shape_symbol \<Rightarrow> (shape_symbol \<times> bool) result" where
  "infer_dim lhs_dim rhs_dim =
     (if AreProvablyEqual lhs_dim rhs_dim then Inr (lhs_dim, False)
      else if IsStatic lhs_dim \<and> dim_value lhs_dim = 1 then Inr (rhs_dim, False)
      else if IsStatic rhs_dim \<and> dim_value rhs_dim = 1 then Inr (lhs_dim, False)
      else if IsStatic lhs_dim \<and> IsStatic rhs_dim then InvalidArgument
      else
        let lhs_unresolved = IsSymbolic lhs_dim \<or> IsUnknown lhs_dim;
            rhs_unresolved = IsSymbolic rhs_dim \<or> IsUnknown rhs_dim
        in if IsStatic lhs_dim \<and> rhs_unresolved then Inr (lhs_dim, True)
           else if IsStatic rhs_dim \<and> lhs_unresolved then Inr (rhs_dim, True)
           else Inr (Unknown, True))"

definition infer_axis :: "symbolic_shape \<Rightarrow> symbolic_shape \<Rightarrow> nat \<Rightarrow> nat \<Rightarrow> nat \<Rightarrow> (shape_symbol \<times> deferred_axis list) result" where
  "infer_axis lhs rhs lhs_axis_offset rhs_axis_offset output_axis =
     (if output_axis < lhs_axis_offset then
        and_then (dim_at rhs (output_axis - rhs_axis_offset)) (\<lambda>d. Inr (d, []))
      else if output_axis < rhs_axis_offset then
        and_then (dim_at lhs (output_axis - lhs_axis_offset)) (\<lambda>d. Inr (d, []))
      else
        and_then (dim_at lhs (output_axis - lhs_axis_offset)) (\<lambda>l.
        and_then (dim_at rhs (output_axis - rhs_axis_offset)) (\<lambda>r.
        and_then (infer_dim l r) (\<lambda>(d, deferred).
          Inr (d, if deferred then [\<lparr>lhs_axis = output_axis - lhs_axis_offset, rhs_axis = output_axis - rhs_axis_offset\<rparr>]
                  else [])))))"

definition InferBroadcastShape :: "symbolic_shape \<Rightarrow> symbolic_shape \<Rightarrow> symbolic_broadcast result" where
  "InferBroadcastShape lhs rhs =
     (case (rank lhs, rank rhs) of
        (Some lhs_rank, Some rhs_rank) \<Rightarrow>
          (let output_rank = max lhs_rank rhs_rank
           in and_then
                (traverse (infer_axis lhs rhs (output_rank - lhs_rank) (output_rank - rhs_rank)) [0..<output_rank])
                (\<lambda>axes. Inr \<lparr>output_shape = Some (map fst axes), deferred_axes = concat (map snd axes)\<rparr>))
      | _ \<Rightarrow> InvalidArgument)"

section \<open>Strided access\<close>

text \<open>
  The element offset of an index, the index of an input that a broadcast output index reads, and
  indexes within a shape.
\<close>

definition offset_of :: "int list \<Rightarrow> int list \<Rightarrow> int" where
  "offset_of strides idx = sum_list (map2 (*) strides idx)"

definition input_index :: "int list \<Rightarrow> int list \<Rightarrow> int list" where
  "input_index shape idx = map2 (\<lambda>d i. if d = 1 then 0 else i) shape (drop (length idx - length shape) idx)"

definition in_shape :: "int list \<Rightarrow> int list \<Rightarrow> bool" where
  "in_shape idx shape \<longleftrightarrow> list_all2 (\<lambda>i d. 0 \<le> i \<and> i < d) idx shape"

definition broadcastable :: "int \<Rightarrow> int \<Rightarrow> bool" where
  "broadcastable l r \<longleftrightarrow> l = r \<or> l = 1 \<or> r = 1"

lemma broadcast_dim_ok:
  "l \<ge> 0 \<Longrightarrow> r \<ge> 0 \<Longrightarrow> broadcastable l r \<Longrightarrow> broadcast_dim l r = Inr (if l = 1 then r else l)"
  "broadcast_dim l r = Inr d \<Longrightarrow> l \<ge> 0 \<and> r \<ge> 0 \<and> broadcastable l r \<and> d = (if l = 1 then r else l)"
  by (auto simp: broadcast_dim_def broadcastable_def split: if_splits)

lemma broadcast_dim_error: "broadcast_dim l r = Inl e \<Longrightarrow> e = Error kInvalidArgument"
  by (auto simp: broadcast_dim_def split: if_splits)

lemma BroadcastShapes_error: "BroadcastShapes a b = Inl e \<Longrightarrow> e = Error kInvalidArgument"
  by (auto simp: BroadcastShapes_def Let_def dest!: traverse_eq_Inl broadcast_dim_error)

lemma BroadcastShapes_Inr:
  "BroadcastShapes a b = Inr out \<longleftrightarrow> length out = max (length a) (length b) \<and>
     (\<forall>i < length out. broadcast_dim (aligned_dim a (length out - length a) i) (aligned_dim b (length out - length b) i) = Inr (out ! i))"
  by (auto simp: BroadcastShapes_def Let_def traverse_eq_Inr)

text \<open>An input fits an output shape: equal or broadcast on every axis.\<close>

definition fits :: "int list \<Rightarrow> int list \<Rightarrow> bool" where
  "fits a out \<longleftrightarrow> length a \<le> length out \<and>
     list_all2 (\<lambda>d n. 0 \<le> d \<and> 0 \<le> n \<and> (d = n \<or> d = 1)) a (drop (length out - length a) out)"

lemma fits_aligned:
  assumes "length a \<le> length out"
    and "\<And>i. i < length out \<Longrightarrow> 0 \<le> aligned_dim a (length out - length a) i \<and> 0 \<le> out ! i \<and>
      (aligned_dim a (length out - length a) i = out ! i \<or> aligned_dim a (length out - length a) i = 1)"
  shows "fits a out"
  unfolding fits_def list_all2_conv_all_nth
proof (intro conjI allI impI)
  fix i assume i: "i < length a"
  let ?k = "length out - length a + i"
  have "aligned_dim a (length out - length a) ?k = a ! i" by (simp add: aligned_dim_def)
  then have k: "0 \<le> a ! i \<and> 0 \<le> out ! ?k \<and> (a ! i = out ! ?k \<or> a ! i = 1)" using assms(2) [of ?k] i assms(1) by simp
  moreover have "drop (length out - length a) out ! i = out ! ?k" by (rule nth_drop) simp
  ultimately show "0 \<le> a ! i" "0 \<le> drop (length out - length a) out ! i"
    "a ! i = drop (length out - length a) out ! i \<or> a ! i = 1" by simp_all
qed (use assms(1) in simp_all)

lemma BroadcastShapes_fits:
  assumes "BroadcastShapes a b = Inr out"
  shows "fits a out \<and> fits b out"
proof -
  let ?n = "length out"
  have n: "?n = max (length a) (length b)"
    and d: "\<And>i. i < ?n \<Longrightarrow> broadcast_dim (aligned_dim a (?n - length a) i) (aligned_dim b (?n - length b) i) = Inr (out ! i)"
    using assms unfolding BroadcastShapes_Inr by blast+
  have f: "0 \<le> l \<and> 0 \<le> r \<and> 0 \<le> v \<and> (l = v \<or> l = 1) \<and> (r = v \<or> r = 1)" if "broadcast_dim l r = Inr v" for l r v
    using broadcast_dim_ok(2) [OF that] by (auto simp: broadcastable_def)
  have "fits a out" by (rule fits_aligned) (use n f [OF d] in auto)
  moreover have "fits b out" by (rule fits_aligned) (use n f [OF d] in auto)
  ultimately show ?thesis ..
qed

lemma offset_append: "length xs = length us \<Longrightarrow> offset_of (xs @ ys) (us @ vs) = offset_of xs us + offset_of ys vs"
  by (simp add: offset_of_def)

lemma offset_zeros: "offset_of (replicate n 0) us = 0"
  by (induction n arbitrary: us) (auto simp: offset_of_def zip_Cons1 split: list.splits)

lemma strides_ok:
  assumes f: "fits a out" and len: "length sa = length a" and idx: "in_shape idx out"
  shows "\<exists>ea. BroadcastInputStrides a sa out = Inr ea \<and> length ea = length out \<and>
    offset_of ea idx = offset_of sa (input_index a idx) \<and> in_shape (input_index a idx) a"
proof -
  let ?o = "length out - length a"
  define tail where "tail = map (\<lambda>i. if a ! i = out ! (?o + i) then sa ! i else 0) [0..<length a]"
  have le: "length a \<le> length out" using f by (simp add: fits_def)
  have fd: "0 \<le> a ! i" "0 \<le> out ! (?o + i)" "a ! i = out ! (?o + i) \<or> a ! i = 1" if "i < length a" for i
    using f that by (auto simp: fits_def list_all2_conv_all_nth)
  have li: "length idx = length out" using idx by (auto simp: in_shape_def dest: list_all2_lengthD)
  have ib: "0 \<le> idx ! i" "idx ! i < out ! i" if "i < length out" for i
    using idx that by (auto simp: in_shape_def list_all2_conv_all_nth)
  have ix: "0 \<le> idx ! (?o + i)" "idx ! (?o + i) < out ! (?o + i)" if "i < length a" for i
    using ib [of "?o + i"] that le by simp_all
  have "traverse (\<lambda>ax. effective_stride (a ! (ax - ?o)) (sa ! (ax - ?o)) (out ! ax)) [?o..<length out] = Inr tail"
    unfolding traverse_eq_Inr
  proof (intro conjI allI impI)
    fix i assume "i < length [?o..<length out]"
    then have i: "i < length a" by simp
    then show "effective_stride (a ! ([?o..<length out] ! i - ?o)) (sa ! ([?o..<length out] ! i - ?o)) (out ! ([?o..<length out] ! i)) = Inr (tail ! i)"
      using fd [OF i] le by (auto simp: tail_def effective_stride_def not_less)
  qed (use le in \<open>simp add: tail_def\<close>)
  then have run: "BroadcastInputStrides a sa out = Inr (replicate ?o 0 @ tail)"
    using le len by (simp add: BroadcastInputStrides_def)
  have "offset_of (replicate ?o 0 @ tail) idx = offset_of (replicate ?o 0 @ tail) (take ?o idx @ drop ?o idx)" by simp
  also have "\<dots> = offset_of (replicate ?o 0) (take ?o idx) + offset_of tail (drop ?o idx)"
    using li by (intro offset_append) simp
  also have "offset_of (replicate ?o 0) (take ?o idx) = 0"
    by (rule offset_zeros)
  also have "offset_of tail (drop ?o idx) = offset_of sa (input_index a idx)"
  proof -
    have "tail ! i * drop ?o idx ! i = sa ! i * input_index a idx ! i" if "i < length a" for i
      using fd(3) [OF that] ix [OF that] li le that by (auto simp: tail_def input_index_def)
    then have "map2 (*) tail (drop ?o idx) = map2 (*) sa (input_index a idx)"
      using len li le by (intro nth_equalityI) (auto simp: tail_def input_index_def)
    then show ?thesis by (simp add: offset_of_def)
  qed
  finally have "offset_of (replicate ?o 0 @ tail) idx = offset_of sa (input_index a idx)" by simp
  moreover have "in_shape (input_index a idx) a"
    unfolding in_shape_def list_all2_conv_all_nth
  proof (intro conjI allI impI)
    fix i assume "i < length (input_index a idx)"
    then have i: "i < length a" using li le by (simp add: input_index_def)
    then have "input_index a idx ! i = (if a ! i = 1 then 0 else idx ! (?o + i))" using li le by (simp add: input_index_def)
    then show "0 \<le> input_index a idx ! i" "input_index a idx ! i < a ! i" using fd(3) [OF i] ix [OF i] by auto
  qed (use li le in \<open>simp add: input_index_def\<close>)
  moreover have "length (replicate ?o 0 @ tail) = length out" using le by (simp add: tail_def)
  ultimately show ?thesis using run by blast
qed


section \<open>Soundness of symbolic broadcasting\<close>

lemma infer_dim_ok:
  assumes "denotes \<sigma> l v" and "denotes \<sigma> r w" and "infer_dim l r = Inr (d, deferred)"
  shows "broadcastable v w \<Longrightarrow> denotes \<sigma> d (if v = 1 then w else v)" and "\<not> deferred \<Longrightarrow> broadcastable v w"
proof -
  have nn: "v \<ge> 0" "w \<ge> 0" using assms(1,2) by (auto dest: denotes_nonneg)
  have eq: "AreProvablyEqual l r \<Longrightarrow> v = w" by (rule provably_equal_denotes [OF _ assms(1,2)])
  have st: "IsStatic l \<Longrightarrow> v = dim_value l" "IsStatic r \<Longrightarrow> w = dim_value r"
    using assms(1,2) by (simp_all add: denotes_static)
  show "denotes \<sigma> d (if v = 1 then w else v)" if "broadcastable v w"
    using assms nn eq st that
    by (auto simp: infer_dim_def broadcastable_def denotes_static Let_def split: if_splits)
  show "broadcastable v w" if "\<not> deferred"
    using assms(3) eq st that by (auto simp: infer_dim_def broadcastable_def Let_def split: if_splits)
qed

lemma infer_dim_error:
  assumes "denotes \<sigma> l v" and "denotes \<sigma> r w" and "infer_dim l r = Inl e"
  shows "e = Error kInvalidArgument \<and> \<not> broadcastable v w"
proof -
  have s: "IsStatic l" "IsStatic r" "\<not> AreProvablyEqual l r" "dim_value l \<noteq> 1" "dim_value r \<noteq> 1" "e = Error kInvalidArgument"
    using assms(3) by (auto simp: infer_dim_def Let_def split: if_splits)
  then have "dim_value l \<noteq> dim_value r" by (cases l; cases r) (auto simp: AreProvablyEqual_def)
  then show ?thesis using s assms(1,2) by (auto simp: denotes_static broadcastable_def)
qed

text \<open>One axis of both computations.\<close>

lemma infer_axis_ok:
  assumes s: "list_all2 (denotes \<sigma>) l a" and t: "list_all2 (denotes \<sigma>) r b"
    and n: "n = max (length a) (length b)" "i < n"
  shows "case infer_axis (Some l) (Some r) (n - length l) (n - length r) i of
      Inl e \<Rightarrow> e = Error kInvalidArgument \<and> broadcast_dim (aligned_dim a (n - length a) i) (aligned_dim b (n - length b) i) = InvalidArgument
    | Inr (d, deferred) \<Rightarrow>
        ((\<forall>x \<in> set deferred. broadcastable (a ! lhs_axis x) (b ! rhs_axis x)) \<longleftrightarrow>
          (\<exists>v. broadcast_dim (aligned_dim a (n - length a) i) (aligned_dim b (n - length b) i) = Inr v)) \<and>
        (\<forall>v. broadcast_dim (aligned_dim a (n - length a) i) (aligned_dim b (n - length b) i) = Inr v \<longrightarrow> denotes \<sigma> d v)"
proof -
  have len: "length l = length a" "length r = length b" using s t by (auto dest: list_all2_lengthD)
  have da: "denotes \<sigma> (l ! k) (a ! k)" if "k < length a" for k using s that by (simp add: list_all2_conv_all_nth)
  have db: "denotes \<sigma> (r ! k) (b ! k)" if "k < length b" for k using t that by (simp add: list_all2_conv_all_nth)
  consider "i < n - length a" | "\<not> i < n - length a" "i < n - length b" | "\<not> i < n - length a" "\<not> i < n - length b" by blast
  then show ?thesis
  proof cases
    case 1
    then have k: "i - (n - length b) < length b" "\<not> i < n - length b" using n by auto
    have "b ! (i - (n - length b)) \<ge> 0" by (rule denotes_nonneg [OF db [OF k(1)]])
    then show ?thesis using 1 k len db [OF k(1)] by (simp add: infer_axis_def dim_at_def aligned_dim_def broadcast_dim_def)
  next
    case 2
    then have k: "i - (n - length a) < length a" using n by auto
    have "a ! (i - (n - length a)) \<ge> 0" by (rule denotes_nonneg [OF da [OF k]])
    then show ?thesis using 2 k len da [OF k] by (auto simp: infer_axis_def dim_at_def aligned_dim_def broadcast_dim_def)
  next
    case 3
    let ?j = "i - (n - length a)" and ?k = "i - (n - length b)"
    have k: "?j < length a" "?k < length b" using n 3 by auto
    note da = da [OF k(1)] and db = db [OF k(2)]
    have nn: "a ! ?j \<ge> 0" "b ! ?k \<ge> 0" using da db by (auto dest: denotes_nonneg)
    have al: "aligned_dim a (n - length a) i = a ! ?j" "aligned_dim b (n - length b) i = b ! ?k"
      using 3 by (simp_all add: aligned_dim_def)
    have ax: "infer_axis (Some l) (Some r) (n - length l) (n - length r) i =
        and_then (infer_dim (l ! ?j) (r ! ?k)) (\<lambda>(d, deferred). Inr (d, if deferred then [\<lparr>lhs_axis = ?j, rhs_axis = ?k\<rparr>] else []))"
      using 3 k len by (simp add: infer_axis_def dim_at_def)
    have bd: "broadcast_dim (a ! ?j) (b ! ?k) = (if broadcastable (a ! ?j) (b ! ?k)
        then Inr (if a ! ?j = 1 then b ! ?k else a ! ?j) else InvalidArgument)"
      using nn by (auto simp: broadcast_dim_def broadcastable_def)
    show ?thesis
    proof (cases "infer_dim (l ! ?j) (r ! ?k)")
      case (Inl e)
      then show ?thesis unfolding ax al bd using infer_dim_error [OF da db Inl] by simp
    next
      case (Inr x)
      obtain d f where x: "x = (d, f)" by (rule prod.exhaust)
      note I = infer_dim_ok [OF da db Inr [unfolded x]]
      show ?thesis unfolding ax al bd Inr x using I by auto
    qed
  qed
qed

lemma InferBroadcast_axes:
  assumes "list_all2 (denotes \<sigma>) l a" and "list_all2 (denotes \<sigma>) r b" and "InferBroadcastShape (Some l) (Some r) = Inr res"
  shows "((\<forall>x \<in> set (deferred_axes res). broadcastable (a ! lhs_axis x) (b ! rhs_axis x)) \<longleftrightarrow> (\<exists>out. BroadcastShapes a b = Inr out)) \<and>
    (\<forall>out. BroadcastShapes a b = Inr out \<longrightarrow> shape_denotes \<sigma> (output_shape res) out)"
proof -
  let ?n = "max (length a) (length b)"
  let ?f = "infer_axis (Some l) (Some r) (?n - length l) (?n - length r)"
  let ?b = "\<lambda>i. broadcast_dim (aligned_dim a (?n - length a) i) (aligned_dim b (?n - length b) i)"
  have len: "length l = length a" "length r = length b" using assms(1,2) by (auto dest: list_all2_lengthD)
  obtain axes where ax: "traverse ?f [0..<?n] = Inr axes" and
    res: "res = \<lparr>output_shape = Some (map fst axes), deferred_axes = concat (map snd axes)\<rparr>"
    using assms(3) len by (auto simp: InferBroadcastShape_def rank_def Let_def)
  have la: "length axes = ?n" and f: "\<And>i. i < ?n \<Longrightarrow> ?f i = Inr (fst (axes ! i), snd (axes ! i))"
    using ax by (auto simp: traverse_eq_Inr)
  have one: "(\<forall>x \<in> set (snd (axes ! i)). broadcastable (a ! lhs_axis x) (b ! rhs_axis x)) \<longleftrightarrow> (\<exists>v. ?b i = Inr v)"
    "?b i = Inr v \<Longrightarrow> denotes \<sigma> (fst (axes ! i)) v" if "i < ?n" for i v
    using infer_axis_ok [OF assms(1,2) refl that] unfolding f [OF that] sum.case prod.case by blast+
  have all: "(\<exists>out. BroadcastShapes a b = Inr out) \<longleftrightarrow> (\<forall>i < ?n. \<exists>v. ?b i = Inr v)"
  proof
    assume "\<forall>i < ?n. \<exists>v. ?b i = Inr v"
    then obtain g where "\<And>i. i < ?n \<Longrightarrow> ?b i = Inr (g i)" by metis
    then have "BroadcastShapes a b = Inr (map g [0..<?n])" unfolding BroadcastShapes_Inr by simp
    then show "\<exists>out. BroadcastShapes a b = Inr out" by blast
  qed (auto simp: BroadcastShapes_Inr)
  have "(\<forall>x \<in> set (deferred_axes res). broadcastable (a ! lhs_axis x) (b ! rhs_axis x)) \<longleftrightarrow>
    (\<forall>i < ?n. \<forall>x \<in> set (snd (axes ! i)). broadcastable (a ! lhs_axis x) (b ! rhs_axis x))"
    unfolding res using la nth_mem [of _ axes] by (fastforce simp: in_set_conv_nth [of _ axes])
  also have "\<dots> \<longleftrightarrow> (\<exists>out. BroadcastShapes a b = Inr out)" unfolding all using one(1) by blast
  finally have iff: "(\<forall>x \<in> set (deferred_axes res). broadcastable (a ! lhs_axis x) (b ! rhs_axis x)) \<longleftrightarrow>
    (\<exists>out. BroadcastShapes a b = Inr out)" .
  have "shape_denotes \<sigma> (output_shape res) out" if "BroadcastShapes a b = Inr out" for out
  proof -
    have o: "length out = ?n" "\<And>i. i < ?n \<Longrightarrow> ?b i = Inr (out ! i)" using that unfolding BroadcastShapes_Inr by auto
    show ?thesis unfolding res using la o(1) one(2) [OF _ o(2)] by (simp add: list_all2_conv_all_nth)
  qed
  with iff show ?thesis by blast
qed

lemma InferBroadcast_error:
  assumes "list_all2 (denotes \<sigma>) l a" and "list_all2 (denotes \<sigma>) r b" and "InferBroadcastShape (Some l) (Some r) = Inl e"
  shows "e = Error kInvalidArgument \<and> BroadcastShapes a b = InvalidArgument"
proof -
  let ?n = "max (length a) (length b)"
  have len: "length l = length a" "length r = length b" using assms(1,2) by (auto dest: list_all2_lengthD)
  obtain i where i: "i < ?n" "infer_axis (Some l) (Some r) (?n - length l) (?n - length r) i = Inl e"
    using assms(3) len by (auto simp: InferBroadcastShape_def rank_def Let_def and_then_eq_Inl dest!: traverse_eq_Inl)
  have b: "e = Error kInvalidArgument" "broadcast_dim (aligned_dim a (?n - length a) i) (aligned_dim b (?n - length b) i) = InvalidArgument"
    using infer_axis_ok [OF assms(1,2) refl i(1)] i(2) by simp_all
  show ?thesis
  proof (cases "BroadcastShapes a b")
    case (Inl f)
    then show ?thesis using b(1) BroadcastShapes_error [OF Inl] by simp
  next
    case (Inr out)
    then have "broadcast_dim (aligned_dim a (?n - length a) i) (aligned_dim b (?n - length b) i) = Inr (out ! i)"
      using i(1) unfolding BroadcastShapes_Inr by auto
    then show ?thesis using b(2) by simp
  qed
qed

section \<open>Properties\<close>

text \<open>
  C35: strided broadcasting reads the right element.  When \<open>BroadcastShapes\<close> gives an output shape,
  \<open>BroadcastInputStrides\<close> succeeds for both inputs, and for every output index the expanded strides
  lead to the same element offset as the input's own strides do at the index with the padded axes
  dropped and the axes of size 1 set to 0, which lies within the input.
\<close>

theorem broadcast_reads_input:
  assumes "BroadcastShapes a b = Inr out" and "length sa = length a" and "length sb = length b" and "in_shape idx out"
  shows "\<exists>ea eb. BroadcastInputStrides a sa out = Inr ea \<and> BroadcastInputStrides b sb out = Inr eb \<and>
    offset_of ea idx = offset_of sa (input_index a idx) \<and> in_shape (input_index a idx) a \<and>
    offset_of eb idx = offset_of sb (input_index b idx) \<and> in_shape (input_index b idx) b"
  using BroadcastShapes_fits [OF assms(1)] strides_ok [OF _ assms(2,4)] strides_ok [OF _ assms(3,4)] by blast

theorem broadcast_reads_input_witness:
  "\<exists>ea eb. BroadcastInputStrides [2, 1, 3] [3, 3, 1] [2, 4, 3] = Inr ea \<and> BroadcastInputStrides [4, 1] [1, 1] [2, 4, 3] = Inr eb \<and>
     offset_of ea [1, 3, 2] = 5 \<and> offset_of eb [1, 3, 2] = 3"
proof -
  have s: "BroadcastShapes [2, 1, 3] [4, 1] = Inr [2, 4, 3]"
    by (simp add: BroadcastShapes_Inr aligned_dim_def broadcast_dim_def All_less_Suc2 numeral_eq_Suc)
  have "in_shape [1, 3, 2] [2, 4, 3]" by (simp add: in_shape_def)
  from broadcast_reads_input [OF s _ _ this, of "[3, 3, 1]" "[1, 1]"] show ?thesis
    by (auto simp: offset_of_def input_index_def numeral_eq_Suc)
qed

text \<open>
  C36: symbolic broadcasting agrees with concrete broadcasting.  For ranked symbolic shapes and any
  runtime shapes they describe: if inference fails, concrete broadcasting fails; if it succeeds, the
  runtime shapes can be broadcast exactly when every deferred axis passes its runtime check, and
  then the inferred shape describes the concrete output shape.  Unranked shapes are rejected.
\<close>

theorem infer_broadcast_sound:
  assumes "shape_denotes \<sigma> s a" and "shape_denotes \<sigma> t b"
  shows "case InferBroadcastShape s t of
      Inl e \<Rightarrow> e = Error kInvalidArgument \<and> (IsUnranked s \<or> IsUnranked t \<or> BroadcastShapes a b = InvalidArgument)
    | Inr res \<Rightarrow>
        ((\<forall>x \<in> set (deferred_axes res). broadcastable (a ! lhs_axis x) (b ! rhs_axis x)) \<longleftrightarrow> (\<exists>out. BroadcastShapes a b = Inr out)) \<and>
        (\<forall>out. BroadcastShapes a b = Inr out \<longrightarrow> shape_denotes \<sigma> (output_shape res) out)"
proof (cases "\<exists>l r. s = Some l \<and> t = Some r")
  case False
  then have "InferBroadcastShape s t = InvalidArgument" "IsUnranked s \<or> IsUnranked t"
    by (auto simp: InferBroadcastShape_def rank_def IsUnranked_def split: option.splits)
  then show ?thesis by auto
next
  case True
  then obtain l r where st: "s = Some l" "t = Some r" by blast
  then have d: "list_all2 (denotes \<sigma>) l a" "list_all2 (denotes \<sigma>) r b" using assms by simp_all
  show ?thesis
    using InferBroadcast_axes [OF d] InferBroadcast_error [OF d] unfolding st by (cases "InferBroadcastShape (Some l) (Some r)") auto
qed

theorem infer_broadcast_sound_witness:
  "InferBroadcastShape (Some [ShapeSymbol 5, ShapeSymbol (- 2)]) (Some [ShapeSymbol 3]) =
     Inr \<lparr>output_shape = Some [ShapeSymbol 5, ShapeSymbol 3], deferred_axes = [\<lparr>lhs_axis = 1, rhs_axis = 0\<rparr>]\<rparr> \<and>
   BroadcastShapes [5, 2] [3] = InvalidArgument"
proof -
  have i: "InferBroadcastShape (Some [ShapeSymbol 5, ShapeSymbol (- 2)]) (Some [ShapeSymbol 3]) =
     Inr \<lparr>output_shape = Some [ShapeSymbol 5, ShapeSymbol 3], deferred_axes = [\<lparr>lhs_axis = 1, rhs_axis = 0\<rparr>]\<rparr>"
    by (simp add: InferBroadcastShape_def rank_def infer_axis_def infer_dim_def dim_at_def AreProvablyEqual_def Let_def upt_rec)
  have "shape_denotes (\<lambda>_. 2) (Some [ShapeSymbol 5, ShapeSymbol (- 2)]) [5, 2]" "shape_denotes (\<lambda>_. 2) (Some [ShapeSymbol 3]) [3]"
    by (simp_all add: denotes_def)
  from infer_broadcast_sound [OF this] have "\<not> (\<exists>out. BroadcastShapes [5, 2] [3] = Inr out)"
    unfolding i by (simp add: broadcastable_def)
  then show ?thesis using i BroadcastShapes_error by (cases "BroadcastShapes [5, 2] [3]") auto
qed

end
