(* ===== verification/Shape_Constraint.thy ===== *)
theory Shape_Constraint
  imports Broadcast
begin

text \<open>
  \<open>shape_constraint.h\<close> and \<open>shape_constraint_evaluator.cpp\<close>: constraints on the dimensions of the
  inputs and outputs of an operator, their evaluation on symbolic shapes at compile time and on the
  shapes of tensor views at run time.  Of a tensor view only the shape is read.  The text for the
  user that a \<open>ShapeConstraint\<close> carries is not modelled.
\<close>

section \<open>Constraints\<close>

datatype port_type = kInput | kOutput

datatype evaluation = kSatisfied | kViolated | kDeferred

record tensor_port =
  direction :: port_type
  tensor_idx :: nat

record dim_locator =
  locator_port :: tensor_port
  dim_index :: nat

datatype shape_constraint =
  DimEqualConstraint dim_locator dim_locator
| DimBroadcastableConstraint dim_locator dim_locator
| VolumeEqualConstraint "dim_locator list" "dim_locator list"
| RankEqualConstraint tensor_port nat
| RankAtLeastConstraint tensor_port nat
| DimPositiveConstraint dim_locator

abbreviation decide :: "bool \<Rightarrow> evaluation" where
  "decide b \<equiv> if b then kSatisfied else kViolated"

section \<open>Resolving locators\<close>

definition ResolveShape :: "tensor_port \<Rightarrow> symbolic_shape list \<Rightarrow> symbolic_shape list \<Rightarrow> symbolic_shape result" where
  "ResolveShape port inputs outputs =
     (if direction port = kInput then
        and_then (check (tensor_idx port < length inputs)) (\<lambda>_. Inr (inputs ! tensor_idx port))
      else and_then (check (tensor_idx port < length outputs)) (\<lambda>_. Inr (outputs ! tensor_idx port)))"

definition ResolveTensor :: "tensor_port \<Rightarrow> int list list \<Rightarrow> int list result" where
  "ResolveTensor port inputs =
     and_then (check (direction port = kInput \<and> tensor_idx port < length inputs)) (\<lambda>_. Inr (inputs ! tensor_idx port))"

definition ResolveMutableTensor :: "tensor_port \<Rightarrow> int list list \<Rightarrow> int list result" where
  "ResolveMutableTensor port outputs =
     and_then (check (direction port = kOutput \<and> tensor_idx port < length outputs)) (\<lambda>_. Inr (outputs ! tensor_idx port))"

definition ResolveSymbolicDim ::
  "dim_locator \<Rightarrow> symbolic_shape list \<Rightarrow> symbolic_shape list \<Rightarrow> shape_symbol option result" where
  "ResolveSymbolicDim locator inputs outputs =
     and_then (ResolveShape (locator_port locator) inputs outputs) (\<lambda>shape.
       case rank shape of
         None \<Rightarrow> Inr None
       | Some r \<Rightarrow> and_then (check (dim_index locator < r)) (\<lambda>_.
           and_then (dim_at shape (dim_index locator)) (\<lambda>d. Inr (Some d))))"

definition ResolveRuntimeDim :: "dim_locator \<Rightarrow> int list list \<Rightarrow> int list list \<Rightarrow> int result" where
  "ResolveRuntimeDim locator inputs outputs =
     and_then
       (if direction (locator_port locator) = kInput then ResolveTensor (locator_port locator) inputs
        else ResolveMutableTensor (locator_port locator) outputs)
       (\<lambda>shape. and_then (check (dim_index locator < length shape)) (\<lambda>_. Inr (shape ! dim_index locator)))"

definition ResolveSymbolicRank :: "tensor_port \<Rightarrow> symbolic_shape list \<Rightarrow> symbolic_shape list \<Rightarrow> nat option result" where
  "ResolveSymbolicRank port inputs outputs = and_then (ResolveShape port inputs outputs) (\<lambda>s. Inr (rank s))"

definition ResolveRuntimeRank :: "tensor_port \<Rightarrow> int list list \<Rightarrow> int list list \<Rightarrow> nat result" where
  "ResolveRuntimeRank port inputs outputs =
     and_then (if direction port = kInput then ResolveTensor port inputs else ResolveMutableTensor port outputs)
       (\<lambda>s. Inr (length s))"

section \<open>Evaluation on symbolic shapes\<close>

definition EvaluateSymbolicDimEqual :: "shape_symbol \<Rightarrow> shape_symbol \<Rightarrow> evaluation" where
  "EvaluateSymbolicDimEqual lhs rhs =
     (if lhs = rhs then kSatisfied else if IsStatic lhs \<and> IsStatic rhs then kViolated else kDeferred)"

definition EvaluateSymbolicDimBroadcastable :: "shape_symbol \<Rightarrow> shape_symbol \<Rightarrow> evaluation" where
  "EvaluateSymbolicDimBroadcastable lhs rhs =
     (if lhs = rhs then kSatisfied
      else if IsStatic lhs \<and> dim_value lhs = 1 then kSatisfied
      else if IsStatic rhs \<and> dim_value rhs = 1 then kSatisfied
      else if IsStatic lhs \<and> IsStatic rhs then kViolated
      else kDeferred)"

definition EvaluateSymbolicDimPositive :: "shape_symbol \<Rightarrow> evaluation" where
  "EvaluateSymbolicDimPositive dim = (if \<not> IsStatic dim then kDeferred else decide (dim_value dim > 0))"

definition eval_symbolic_pair ::
  "(shape_symbol \<Rightarrow> shape_symbol \<Rightarrow> evaluation) \<Rightarrow> dim_locator \<Rightarrow> dim_locator \<Rightarrow>
    symbolic_shape list \<Rightarrow> symbolic_shape list \<Rightarrow> evaluation result" where
  "eval_symbolic_pair f l r inputs outputs =
     and_then (ResolveSymbolicDim l inputs outputs) (\<lambda>lhs.
     and_then (ResolveSymbolicDim r inputs outputs) (\<lambda>rhs.
       Inr (case (lhs, rhs) of (Some a, Some b) \<Rightarrow> f a b | _ \<Rightarrow> kDeferred)))"

definition EvaluateSymbolicDimPositiveConstraint ::
  "dim_locator \<Rightarrow> symbolic_shape list \<Rightarrow> symbolic_shape list \<Rightarrow> evaluation result" where
  "EvaluateSymbolicDimPositiveConstraint d inputs outputs =
     and_then (ResolveSymbolicDim d inputs outputs) (\<lambda>dim.
       Inr (case dim of None \<Rightarrow> kDeferred | Some s \<Rightarrow> EvaluateSymbolicDimPositive s))"

fun identical_dims ::
  "dim_locator list \<Rightarrow> dim_locator list \<Rightarrow> symbolic_shape list \<Rightarrow> symbolic_shape list \<Rightarrow> bool result" where
  "identical_dims (l # ls) (r # rs) inputs outputs =
     and_then (ResolveSymbolicDim l inputs outputs) (\<lambda>lhs.
     and_then (ResolveSymbolicDim r inputs outputs) (\<lambda>rhs.
       if lhs = None \<or> rhs = None \<or> lhs \<noteq> rhs then Inr False
       else identical_dims ls rs inputs outputs))"
| "identical_dims _ _ inputs outputs = Inr True"

definition HaveIdenticalSymbolicDims ::
  "dim_locator list \<Rightarrow> dim_locator list \<Rightarrow> symbolic_shape list \<Rightarrow> symbolic_shape list \<Rightarrow> bool result" where
  "HaveIdenticalSymbolicDims lhs_dims rhs_dims inputs outputs =
     (if length lhs_dims \<noteq> length rhs_dims then Inr False else identical_dims lhs_dims rhs_dims inputs outputs)"

text \<open>The lambda \<open>compute_volume\<close>: no value when the product is deferred.\<close>

primrec symbolic_volume ::
  "dim_locator list \<Rightarrow> u64 \<Rightarrow> symbolic_shape list \<Rightarrow> symbolic_shape list \<Rightarrow> u64 option result" where
  "symbolic_volume [] product inputs outputs = Inr (Some product)"
| "symbolic_volume (loc # locs) product inputs outputs =
     and_then (ResolveSymbolicDim loc inputs outputs) (\<lambda>dim.
       case dim of
         None \<Rightarrow> Inr None
       | Some d \<Rightarrow>
           if \<not> IsStatic d then Inr None
           else (case CheckOverflowMul_u product (word_of_int (dim_value d)) of
                   (overflow, product') \<Rightarrow> if overflow then Inr None else symbolic_volume locs product' inputs outputs))"

definition EvaluateSymbolicVolumeConstraint ::
  "dim_locator list \<Rightarrow> dim_locator list \<Rightarrow> symbolic_shape list \<Rightarrow> symbolic_shape list \<Rightarrow> evaluation result" where
  "EvaluateSymbolicVolumeConstraint lhs_dims rhs_dims inputs outputs =
     and_then (HaveIdenticalSymbolicDims lhs_dims rhs_dims inputs outputs) (\<lambda>identical.
       if identical then Inr kSatisfied
       else
         and_then (symbolic_volume lhs_dims 1 inputs outputs) (\<lambda>lhs.
         and_then (symbolic_volume rhs_dims 1 inputs outputs) (\<lambda>rhs.
           Inr (case (lhs, rhs) of (Some p, Some q) \<Rightarrow> decide (p = q) | _ \<Rightarrow> kDeferred))))"

definition eval_symbolic_rank ::
  "(nat \<Rightarrow> bool) \<Rightarrow> tensor_port \<Rightarrow> symbolic_shape list \<Rightarrow> symbolic_shape list \<Rightarrow> evaluation result" where
  "eval_symbolic_rank f port inputs outputs =
     and_then (ResolveSymbolicRank port inputs outputs) (\<lambda>r.
       Inr (case r of None \<Rightarrow> kDeferred | Some n \<Rightarrow> decide (f n)))"

fun EvaluateSymbolicConstraint :: "shape_constraint \<Rightarrow> symbolic_shape list \<Rightarrow> symbolic_shape list \<Rightarrow> evaluation result" where
  "EvaluateSymbolicConstraint (DimEqualConstraint l r) inputs outputs =
     eval_symbolic_pair EvaluateSymbolicDimEqual l r inputs outputs"
| "EvaluateSymbolicConstraint (DimBroadcastableConstraint l r) inputs outputs =
     eval_symbolic_pair EvaluateSymbolicDimBroadcastable l r inputs outputs"
| "EvaluateSymbolicConstraint (VolumeEqualConstraint ls rs) inputs outputs =
     EvaluateSymbolicVolumeConstraint ls rs inputs outputs"
| "EvaluateSymbolicConstraint (RankEqualConstraint port target_rank) inputs outputs =
     eval_symbolic_rank (\<lambda>n. n = target_rank) port inputs outputs"
| "EvaluateSymbolicConstraint (RankAtLeastConstraint port min_rank) inputs outputs =
     eval_symbolic_rank (\<lambda>n. n \<ge> min_rank) port inputs outputs"
| "EvaluateSymbolicConstraint (DimPositiveConstraint d) inputs outputs =
     EvaluateSymbolicDimPositiveConstraint d inputs outputs"

section \<open>Evaluation at run time\<close>

definition EvaluateRuntimeDimEqual :: "int \<Rightarrow> int \<Rightarrow> evaluation" where
  "EvaluateRuntimeDimEqual lhs rhs = decide (lhs = rhs)"

definition EvaluateRuntimeBroadcastable :: "int \<Rightarrow> int \<Rightarrow> evaluation" where
  "EvaluateRuntimeBroadcastable lhs rhs = decide (lhs = rhs \<or> lhs = 1 \<or> rhs = 1)"

definition EvaluateRuntimeDimPositive :: "int \<Rightarrow> evaluation" where
  "EvaluateRuntimeDimPositive dim = decide (dim > 0)"

definition eval_runtime_pair ::
  "(int \<Rightarrow> int \<Rightarrow> evaluation) \<Rightarrow> dim_locator \<Rightarrow> dim_locator \<Rightarrow> int list list \<Rightarrow> int list list \<Rightarrow> evaluation result" where
  "eval_runtime_pair f l r inputs outputs =
     and_then (ResolveRuntimeDim l inputs outputs) (\<lambda>lhs.
     and_then (ResolveRuntimeDim r inputs outputs) (\<lambda>rhs. Inr (f lhs rhs)))"

primrec runtime_volume :: "dim_locator list \<Rightarrow> u64 \<Rightarrow> int list list \<Rightarrow> int list list \<Rightarrow> u64 result" where
  "runtime_volume [] product inputs outputs = Inr product"
| "runtime_volume (loc # locs) product inputs outputs =
     and_then (ResolveRuntimeDim loc inputs outputs) (\<lambda>dim.
       case CheckOverflowMul_u product (word_of_int dim) of
         (overflow, product') \<Rightarrow> and_then (check (\<not> overflow)) (\<lambda>_. runtime_volume locs product' inputs outputs))"

definition EvaluateRuntimeVolumeConstraint ::
  "dim_locator list \<Rightarrow> dim_locator list \<Rightarrow> int list list \<Rightarrow> int list list \<Rightarrow> evaluation result" where
  "EvaluateRuntimeVolumeConstraint lhs_dims rhs_dims inputs outputs =
     and_then (runtime_volume lhs_dims 1 inputs outputs) (\<lambda>lhs.
     and_then (runtime_volume rhs_dims 1 inputs outputs) (\<lambda>rhs. Inr (decide (lhs = rhs))))"

definition eval_runtime_rank :: "(nat \<Rightarrow> bool) \<Rightarrow> tensor_port \<Rightarrow> int list list \<Rightarrow> int list list \<Rightarrow> evaluation result" where
  "eval_runtime_rank f port inputs outputs =
     and_then (ResolveRuntimeRank port inputs outputs) (\<lambda>n. Inr (decide (f n)))"

fun EvaluateRuntimeConstraint :: "shape_constraint \<Rightarrow> int list list \<Rightarrow> int list list \<Rightarrow> evaluation result" where
  "EvaluateRuntimeConstraint (DimEqualConstraint l r) inputs outputs =
     eval_runtime_pair EvaluateRuntimeDimEqual l r inputs outputs"
| "EvaluateRuntimeConstraint (DimBroadcastableConstraint l r) inputs outputs =
     eval_runtime_pair EvaluateRuntimeBroadcastable l r inputs outputs"
| "EvaluateRuntimeConstraint (VolumeEqualConstraint ls rs) inputs outputs =
     EvaluateRuntimeVolumeConstraint ls rs inputs outputs"
| "EvaluateRuntimeConstraint (RankEqualConstraint port target_rank) inputs outputs =
     eval_runtime_rank (\<lambda>n. n = target_rank) port inputs outputs"
| "EvaluateRuntimeConstraint (RankAtLeastConstraint port min_rank) inputs outputs =
     eval_runtime_rank (\<lambda>n. n \<ge> min_rank) port inputs outputs"
| "EvaluateRuntimeConstraint (DimPositiveConstraint d) inputs outputs =
     and_then (ResolveRuntimeDim d inputs outputs) (\<lambda>dim. Inr (EvaluateRuntimeDimPositive dim))"

primrec ValidateShapeConstraints :: "shape_constraint list \<Rightarrow> int list list \<Rightarrow> int list list \<Rightarrow> unit result" where
  "ValidateShapeConstraints [] inputs outputs = Inr ()"
| "ValidateShapeConstraints (c # cs) inputs outputs =
     and_then (EvaluateRuntimeConstraint c inputs outputs) (\<lambda>ev.
       case ev of
         kViolated \<Rightarrow> InvalidArgument
       | kDeferred \<Rightarrow> Inl (Error kInternal)
       | kSatisfied \<Rightarrow> ValidateShapeConstraints cs inputs outputs)"

section \<open>Soundness\<close>

text \<open>\<open>known s\<close>: no dimension of the shape is the unknown one.\<close>

definition known :: "symbolic_shape \<Rightarrow> bool" where
  "known s \<longleftrightarrow> (case s of None \<Rightarrow> True | Some ds \<Rightarrow> list_all (\<lambda>d. \<not> IsUnknown d) ds)"

definition describes :: "(int \<Rightarrow> int) \<Rightarrow> symbolic_shape list \<Rightarrow> int list list \<Rightarrow> bool" where
  "describes \<sigma> ss vss \<longleftrightarrow> list_all2 (shape_denotes \<sigma>) ss vss"

lemma describes_nth: "describes \<sigma> ss vss \<Longrightarrow> length vss = length ss \<and> (\<forall>i < length ss. shape_denotes \<sigma> (ss ! i) (vss ! i))"
  by (simp add: describes_def list_all2_conv_all_nth)

lemma resolve_dim:
  assumes "describes \<sigma> si vi" and "describes \<sigma> so vo" and "ResolveSymbolicDim loc si so = Inr (Some d)"
  shows "\<exists>v. ResolveRuntimeDim loc vi vo = Inr v \<and> denotes \<sigma> d v"
proof (cases "direction (locator_port loc) = kInput")
  case True
  let ?i = "tensor_idx (locator_port loc)"
  have i: "?i < length si" and d: "dim_at (si ! ?i) (dim_index loc) = Inr d"
    using assms(3) True by (auto simp: ResolveSymbolicDim_def ResolveShape_def split: option.splits)
  have s: "length vi = length si" "shape_denotes \<sigma> (si ! ?i) (vi ! ?i)" using describes_nth [OF assms(1)] i by auto
  show ?thesis using dim_at_denotes [OF s(2) d] s(1) i True by (simp add: ResolveRuntimeDim_def ResolveTensor_def)
next
  case False
  then have o: "direction (locator_port loc) = kOutput" by (cases "direction (locator_port loc)") auto
  let ?i = "tensor_idx (locator_port loc)"
  have i: "?i < length so" and d: "dim_at (so ! ?i) (dim_index loc) = Inr d"
    using assms(3) o by (auto simp: ResolveSymbolicDim_def ResolveShape_def split: option.splits)
  have s: "length vo = length so" "shape_denotes \<sigma> (so ! ?i) (vo ! ?i)" using describes_nth [OF assms(2)] i by auto
  show ?thesis using dim_at_denotes [OF s(2) d] s(1) i o by (simp add: ResolveRuntimeDim_def ResolveMutableTensor_def)
qed

lemma resolve_known:
  assumes "\<forall>s \<in> set si \<union> set so. known s" and "ResolveSymbolicDim loc si so = Inr (Some d)"
  shows "\<not> IsUnknown d"
proof -
  obtain s where s: "s \<in> set si \<union> set so" "dim_at s (dim_index loc) = Inr d"
  proof (cases "direction (locator_port loc) = kInput")
    case True
    then show ?thesis using assms(2) that [of "si ! tensor_idx (locator_port loc)"]
      by (auto simp: ResolveSymbolicDim_def ResolveShape_def split: option.splits)
  next
    case False
    then show ?thesis using assms(2) that [of "so ! tensor_idx (locator_port loc)"]
      by (auto simp: ResolveSymbolicDim_def ResolveShape_def split: option.splits)
  qed
  then show ?thesis using assms(1) by (fastforce simp: dim_at_def known_def list_all_iff split: option.splits if_splits)
qed

lemma resolve_rank:
  assumes "describes \<sigma> si vi" and "describes \<sigma> so vo" and "ResolveSymbolicRank port si so = Inr (Some n)"
  shows "ResolveRuntimeRank port vi vo = Inr n"
proof (cases "direction port")
  case kInput
  then show ?thesis using assms(3) describes_nth [OF assms(1)] shape_denotes_rank
    by (auto simp: ResolveSymbolicRank_def ResolveShape_def ResolveRuntimeRank_def ResolveTensor_def)
next
  case kOutput
  then show ?thesis using assms(3) describes_nth [OF assms(2)] shape_denotes_rank
    by (auto simp: ResolveSymbolicRank_def ResolveShape_def ResolveRuntimeRank_def ResolveMutableTensor_def)
qed

lemma symbolic_volume_runtime:
  assumes "describes \<sigma> si vi" and "describes \<sigma> so vo" and "symbolic_volume locs p si so = Inr (Some q)"
  shows "runtime_volume locs p vi vo = Inr q"
  using assms(3)
proof (induction locs arbitrary: p)
  case (Cons loc locs)
  obtain x where x: "ResolveSymbolicDim loc si so = Inr x" using Cons.prems by (cases "ResolveSymbolicDim loc si so") auto
  then obtain d where xd: "x = Some d" using Cons.prems by (cases x) auto
  have d: "ResolveSymbolicDim loc si so = Inr (Some d)" "IsStatic d"
    "\<not> fst (CheckOverflowMul_u p (word_of_int (dim_value d)))"
    "symbolic_volume locs (snd (CheckOverflowMul_u p (word_of_int (dim_value d)))) si so = Inr (Some q)"
    using Cons.prems x xd by (simp_all add: split_beta split: if_splits)
  obtain v where "ResolveRuntimeDim loc vi vo = Inr v" "denotes \<sigma> d v" using resolve_dim [OF assms(1,2) d(1)] by blast
  moreover have "v = dim_value d" using calculation(2) d(2) by (simp add: denotes_static)
  ultimately show ?case using d(3) Cons.IH [OF d(4)] by (simp add: split_beta)
qed simp

lemma known_denotes_same: "\<not> IsUnknown d \<Longrightarrow> denotes \<sigma> d v \<Longrightarrow> denotes \<sigma> d w \<Longrightarrow> v = w"
  by (cases d rule: dim_kind_cases) (auto simp: denotes_def)

lemma identical_dims_runtime:
  assumes "describes \<sigma> si vi" and "describes \<sigma> so vo" and "\<forall>s \<in> set si \<union> set so. known s"
    and "identical_dims ls rs si so = Inr True" and "length ls = length rs"
  shows "runtime_volume ls p vi vo = runtime_volume rs p vi vo"
  using assms(4,5)
proof (induction ls arbitrary: rs p)
  case (Cons l ls)
  obtain r rs' where rs: "rs = r # rs'" using Cons.prems(2) by (cases rs) auto
  obtain x where x: "ResolveSymbolicDim l si so = Inr x" "ResolveSymbolicDim r si so = Inr x" "x \<noteq> None"
    "identical_dims ls rs' si so = Inr True"
    using Cons.prems(1) unfolding rs
    by (cases "ResolveSymbolicDim l si so"; cases "ResolveSymbolicDim r si so") (auto split: if_splits)
  obtain d where d: "x = Some d" using x(3) by auto
  obtain v where v: "ResolveRuntimeDim l vi vo = Inr v" "denotes \<sigma> d v"
    using resolve_dim [OF assms(1,2) x(1) [unfolded d]] by blast
  obtain w where w: "ResolveRuntimeDim r vi vo = Inr w" "denotes \<sigma> d w"
    using resolve_dim [OF assms(1,2) x(2) [unfolded d]] by blast
  have "v = w" using known_denotes_same resolve_known [OF assms(3) x(1) [unfolded d]] v(2) w(2) by blast
  then show ?case using v(1) w(1) Cons.IH [OF x(4)] Cons.prems(2) by (simp add: rs split_beta)
qed simp

lemma runtime_volume_Inl: "runtime_volume ls p vi vo = Inl e \<Longrightarrow> e = Check_Failed"
  by (induction ls arbitrary: p)
    (auto simp: ResolveRuntimeDim_def ResolveTensor_def ResolveMutableTensor_def and_then_eq_Inl check_def split_beta
      split: if_splits)

text \<open>The verdict \<open>ev\<close> on symbolic shapes agrees with the verdict on the shapes they stand for.\<close>

definition agrees :: "bool \<Rightarrow> evaluation result \<Rightarrow> evaluation result \<Rightarrow> bool" where
  "agrees k sv rv \<longleftrightarrow> (sv = Inr kViolated \<longrightarrow> rv = Inr kViolated) \<and> (k \<and> sv = Inr kSatisfied \<longrightarrow> rv = Inr kSatisfied)"

lemma pair_agrees:
  assumes "describes \<sigma> si vi" and "describes \<sigma> so vo" and "k \<Longrightarrow> \<forall>s \<in> set si \<union> set so. known s"
    and "\<And>a b v w. denotes \<sigma> a v \<Longrightarrow> denotes \<sigma> b w \<Longrightarrow>
      (f a b = kViolated \<longrightarrow> g v w = kViolated) \<and> (\<not> IsUnknown a \<and> f a b = kSatisfied \<longrightarrow> g v w = kSatisfied)"
  shows "agrees k (eval_symbolic_pair f l r si so) (eval_runtime_pair g l r vi vo)"
proof (cases "\<exists>a b. ResolveSymbolicDim l si so = Inr (Some a) \<and> ResolveSymbolicDim r si so = Inr (Some b)")
  case True
  then obtain a b where ab: "ResolveSymbolicDim l si so = Inr (Some a)" "ResolveSymbolicDim r si so = Inr (Some b)" by blast
  obtain v w where "ResolveRuntimeDim l vi vo = Inr v" "denotes \<sigma> a v" "ResolveRuntimeDim r vi vo = Inr w" "denotes \<sigma> b w"
    using resolve_dim [OF assms(1,2) ab(1)] resolve_dim [OF assms(1,2) ab(2)] by blast
  then show ?thesis using ab assms(4) [of a v b w] resolve_known [OF assms(3) ab(1)]
    by (auto simp: agrees_def eval_symbolic_pair_def eval_runtime_pair_def)
next
  case False
  then show ?thesis by (auto simp: agrees_def eval_symbolic_pair_def split: option.splits)
qed

lemma rank_agrees:
  assumes "describes \<sigma> si vi" and "describes \<sigma> so vo"
  shows "agrees k (eval_symbolic_rank f port si so) (eval_runtime_rank f port vi vo)"
  using resolve_rank [OF assms]
  by (auto simp: agrees_def eval_symbolic_rank_def eval_runtime_rank_def split: option.splits if_splits)

lemma dim_equal_denotes:
  "denotes \<sigma> a v \<Longrightarrow> denotes \<sigma> b w \<Longrightarrow>
    (EvaluateSymbolicDimEqual a b = kViolated \<longrightarrow> EvaluateRuntimeDimEqual v w = kViolated) \<and>
    (\<not> IsUnknown a \<and> EvaluateSymbolicDimEqual a b = kSatisfied \<longrightarrow> EvaluateRuntimeDimEqual v w = kSatisfied)"
  using known_denotes_same [of a \<sigma> v w]
  by (auto simp: EvaluateSymbolicDimEqual_def EvaluateRuntimeDimEqual_def denotes_static
      shape_symbol.expand split: if_splits)

lemma dim_broadcastable_denotes:
  "denotes \<sigma> a v \<Longrightarrow> denotes \<sigma> b w \<Longrightarrow>
    (EvaluateSymbolicDimBroadcastable a b = kViolated \<longrightarrow> EvaluateRuntimeBroadcastable v w = kViolated) \<and>
    (\<not> IsUnknown a \<and> EvaluateSymbolicDimBroadcastable a b = kSatisfied \<longrightarrow> EvaluateRuntimeBroadcastable v w = kSatisfied)"
  using known_denotes_same [of a \<sigma> v w]
  by (auto simp: EvaluateSymbolicDimBroadcastable_def EvaluateRuntimeBroadcastable_def denotes_static
      shape_symbol.expand split: if_splits)

lemma positive_agrees:
  assumes "describes \<sigma> si vi" and "describes \<sigma> so vo"
  shows "agrees k (EvaluateSymbolicConstraint (DimPositiveConstraint d) si so)
    (EvaluateRuntimeConstraint (DimPositiveConstraint d) vi vo)"
proof (cases "\<exists>a. ResolveSymbolicDim d si so = Inr (Some a)")
  case True
  then obtain a where a: "ResolveSymbolicDim d si so = Inr (Some a)" by blast
  obtain v where "ResolveRuntimeDim d vi vo = Inr v" "denotes \<sigma> a v" using resolve_dim [OF assms a] by blast
  then show ?thesis using a
    by (auto simp: agrees_def EvaluateSymbolicDimPositiveConstraint_def EvaluateSymbolicDimPositive_def
        EvaluateRuntimeDimPositive_def denotes_static)
next
  case False
  then show ?thesis by (auto simp: agrees_def EvaluateSymbolicDimPositiveConstraint_def split: option.splits)
qed

lemma volume_cases:
  assumes "EvaluateSymbolicVolumeConstraint ls rs si so = Inr ev" and "ev \<noteq> kDeferred"
  obtains "ev = kSatisfied" and "identical_dims ls rs si so = Inr True" and "length ls = length rs"
  | p q where "symbolic_volume ls 1 si so = Inr (Some p)" and "symbolic_volume rs 1 si so = Inr (Some q)" and "ev = decide (p = q)"
proof (cases "HaveIdenticalSymbolicDims ls rs si so = Inr True")
  case True
  then show ?thesis using assms that(1)
    by (auto simp: EvaluateSymbolicVolumeConstraint_def HaveIdenticalSymbolicDims_def split: if_splits)
next
  case False
  then obtain x y where xy: "symbolic_volume ls 1 si so = Inr x" "symbolic_volume rs 1 si so = Inr y"
    "ev = (case (x, y) of (Some p, Some q) \<Rightarrow> decide (p = q) | _ \<Rightarrow> kDeferred)"
    using assms(1) by (auto simp: EvaluateSymbolicVolumeConstraint_def split: if_splits)
  then show ?thesis using assms(2) that(2) by (cases x; cases y) auto
qed

lemma volume_agrees:
  assumes "describes \<sigma> si vi" and "describes \<sigma> so vo" and "EvaluateSymbolicVolumeConstraint ls rs si so = Inr ev"
  shows "(ev = kViolated \<longrightarrow> EvaluateRuntimeVolumeConstraint ls rs vi vo = Inr kViolated) \<and>
    (ev = kSatisfied \<and> (\<forall>s \<in> set si \<union> set so. known s) \<longrightarrow>
      EvaluateRuntimeVolumeConstraint ls rs vi vo = Inr kSatisfied \<or>
      EvaluateRuntimeVolumeConstraint ls rs vi vo = Inl Check_Failed)"
proof (cases "ev = kDeferred")
  case False
  from volume_cases [OF assms(3) False] show ?thesis
  proof cases
    case 1
    show ?thesis
    proof (cases "runtime_volume rs 1 vi vo")
      case (Inl e)
      then show ?thesis using 1(1) identical_dims_runtime [OF assms(1,2) _ 1(2,3), of 1] runtime_volume_Inl [OF Inl]
        by (auto simp: EvaluateRuntimeVolumeConstraint_def)
    next
      case (Inr a)
      then show ?thesis using 1(1) identical_dims_runtime [OF assms(1,2) _ 1(2,3), of 1]
        by (auto simp: EvaluateRuntimeVolumeConstraint_def)
    qed
  next
    case (2 p q)
    then show ?thesis using symbolic_volume_runtime [OF assms(1,2)] by (auto simp: EvaluateRuntimeVolumeConstraint_def)
  qed
qed simp


definition example_locator :: "port_type \<Rightarrow> nat \<Rightarrow> nat \<Rightarrow> dim_locator" where
  "example_locator t i d = \<lparr>locator_port = \<lparr>direction = t, tensor_idx = i\<rparr>, dim_index = d\<rparr>"


text \<open>Two unknown dimensions are not known to be equal, but the evaluator calls an equality between
  them satisfied.\<close>

lemma unknown_dims_called_equal:
  "describes (\<lambda>_. 0) [Some [Unknown], Some [Unknown]] [[2], [3]] \<and>
   (let c = DimEqualConstraint (example_locator kInput 0 0) (example_locator kInput 1 0) in
    EvaluateSymbolicConstraint c [Some [Unknown], Some [Unknown]] [] = Inr kSatisfied \<and>
    EvaluateRuntimeConstraint c [[2], [3]] [] = Inr kViolated)"
proof -
  have d: "describes (\<lambda>_. 0) [Some [Unknown], Some [Unknown]] [[2], [3]]"
    by (simp add: describes_def shape_denotes_def denotes_def IsStatic_def IsUnknown_def Unknown_def kUnknownDim_def)
  have e: "EvaluateSymbolicConstraint (DimEqualConstraint (example_locator kInput 0 0) (example_locator kInput 1 0))
    [Some [Unknown], Some [Unknown]] [] = Inr kSatisfied"
    "EvaluateRuntimeConstraint (DimEqualConstraint (example_locator kInput 0 0) (example_locator kInput 1 0)) [[2], [3]] [] = Inr kViolated"
    by code_simp+
  show ?thesis unfolding Let_def using d e by blast
qed

end
