(* ===== verification/Symbol_Solver.thy ===== *)
theory Symbol_Solver
  imports Shape_Constraint
begin

text \<open>
  \<open>symbol_constraint_solver.h\<close> and \<open>.cpp\<close>: a union-find structure over the symbolic dimensions with
  a static value per class.  \<open>parents\<close>, \<open>ranks\<close> and \<open>static_bindings\<close> are the vectors of the class;
  index \<open>i\<close> stands for the symbol \<open>- i - 2\<close>.  The two searches for a root return no value when they do
  not end or leave the vector; on every state of the class they do return.
\<close>

section \<open>State and searches\<close>

record solver =
  parents :: "int list"
  ranks :: "8 word list"
  static_bindings :: "int option list"

definition solver_ctor :: solver where
  "solver_ctor = \<lparr>parents = [], ranks = [], static_bindings = []\<rparr>"

definition GetIndex :: "int \<Rightarrow> nat" where
  "GetIndex symbol_value = nat (- symbol_value - 2)"

abbreviation self_root :: "nat \<Rightarrow> int" where
  "self_root i \<equiv> - int i - 2"

definition CompareStaticValues :: "int \<Rightarrow> int \<Rightarrow> evaluation" where
  "CompareStaticValues lhs rhs = (if lhs = rhs then kSatisfied else kViolated)"

definition EnsureSymbol :: "int \<Rightarrow> solver \<Rightarrow> solver" where
  "EnsureSymbol symbol_value s =
     (let idx = GetIndex symbol_value; old_size = length (parents s) in
      if idx \<ge> old_size then
        s \<lparr>parents := parents s @ map self_root [old_size ..< idx + 1],
           ranks := take (idx + 1) (ranks s) @ replicate (idx + 1 - length (ranks s)) 0,
           static_bindings := take (idx + 1) (static_bindings s) @ replicate (idx + 1 - length (static_bindings s)) None\<rparr>
      else s)"

partial_function (option) FindRoot :: "int \<Rightarrow> int list \<Rightarrow> (int \<times> int list) option" where
  "FindRoot symbol_value ps =
     (let idx = GetIndex symbol_value in
      if idx \<ge> length ps then None
      else if symbol_value \<noteq> ps ! idx then
        Option.bind (FindRoot (ps ! idx) ps) (\<lambda>(r, ps'). let ps'' = ps'[idx := r] in Some (ps'' ! idx, ps''))
      else Some (ps ! idx, ps))"

partial_function (option) find_root_loop :: "int \<Rightarrow> int \<Rightarrow> int list \<Rightarrow> int option" where
  "find_root_loop cur parent ps =
     (if parent \<noteq> cur then
        (if GetIndex parent \<ge> length ps then None else find_root_loop parent (ps ! GetIndex parent) ps)
      else Some cur)"

declare FindRoot.simps [code] find_root_loop.simps [code]

text \<open>The outer option is whether the search returns, the inner one its \<open>std::optional\<close>.\<close>

definition FindRootIfPresent :: "int \<Rightarrow> solver \<Rightarrow> int option option" where
  "FindRootIfPresent symbol_value s =
     (let idx = GetIndex symbol_value in
      if idx \<ge> length (parents s) then Some None
      else map_option Some (find_root_loop symbol_value (parents s ! idx) (parents s)))"

definition StaticBindingForRoot :: "int \<Rightarrow> solver \<Rightarrow> int option" where
  "StaticBindingForRoot r s =
     (let idx = GetIndex r in if idx \<ge> length (static_bindings s) then None else static_bindings s ! idx)"

definition BindRoot :: "int \<Rightarrow> int \<Rightarrow> solver \<Rightarrow> solver \<times> unit result" where
  "BindRoot r static_value s =
     (let idx = GetIndex r in
      case static_bindings s ! idx of
        Some existing \<Rightarrow>
          if existing \<noteq> static_value then (s, InvalidArgument)
          else (s \<lparr>static_bindings := (static_bindings s)[idx := Some static_value]\<rparr>, Inr ())
      | None \<Rightarrow> (s \<lparr>static_bindings := (static_bindings s)[idx := Some static_value]\<rparr>, Inr ()))"

section \<open>Operations\<close>

definition AddEqual_static :: "shape_symbol \<Rightarrow> int \<Rightarrow> solver \<Rightarrow> (solver \<times> unit result) option" where
  "AddEqual_static symbol static_value s =
     (if static_value < 0 then Some (s, InvalidArgument)
      else if IsStatic symbol then
        Some (s, if dim_value symbol \<noteq> static_value then InvalidArgument else Inr ())
      else if IsUnknown symbol then Some (s, Inr ())
      else
        let s1 = EnsureSymbol (dim_value symbol) s in
        Option.bind (FindRoot (dim_value symbol) (parents s1)) (\<lambda>(r, ps).
          Some (BindRoot r static_value (s1 \<lparr>parents := ps\<rparr>))))"

text \<open>The end of \<open>AddEqual\<close>: \<open>attach\<close> is the code after the swap of the two roots, \<open>union_roots\<close> the
  code after the two roots are found.\<close>

definition attach :: "int \<Rightarrow> int \<Rightarrow> solver \<Rightarrow> solver" where
  "attach lhs_root rhs_root s =
     (let lhs_idx = GetIndex lhs_root; rhs_idx = GetIndex rhs_root;
          s1 = s \<lparr>parents := (parents s)[rhs_idx := lhs_root]\<rparr>;
          s2 = (if ranks s1 ! lhs_idx = ranks s1 ! rhs_idx
                then s1 \<lparr>ranks := (ranks s1)[lhs_idx := ranks s1 ! lhs_idx + 1]\<rparr> else s1);
          sb = static_bindings s2
      in if sb ! rhs_idx \<noteq> None \<and> sb ! lhs_idx = None
         then s2 \<lparr>static_bindings := (sb[lhs_idx := sb ! rhs_idx])[rhs_idx := None]\<rparr> else s2)"

definition union_roots :: "int \<Rightarrow> int \<Rightarrow> solver \<Rightarrow> solver \<times> unit result" where
  "union_roots lhs_root rhs_root s =
     (if lhs_root = rhs_root then (s, Inr ())
      else
        let lhs_static = static_bindings s ! GetIndex lhs_root; rhs_static = static_bindings s ! GetIndex rhs_root in
        if lhs_static \<noteq> None \<and> rhs_static \<noteq> None \<and> lhs_static \<noteq> rhs_static then (s, InvalidArgument)
        else if ranks s ! GetIndex lhs_root < ranks s ! GetIndex rhs_root then (attach rhs_root lhs_root s, Inr ())
        else (attach lhs_root rhs_root s, Inr ()))"

definition AddEqual :: "shape_symbol \<Rightarrow> shape_symbol \<Rightarrow> solver \<Rightarrow> (solver \<times> unit result) option" where
  "AddEqual lhs rhs s =
     (if IsStatic lhs \<and> IsStatic rhs then
        Some (s, if dim_value lhs \<noteq> dim_value rhs then InvalidArgument else Inr ())
      else if IsUnknown lhs \<or> IsUnknown rhs then Some (s, Inr ())
      else if IsStatic lhs then AddEqual_static rhs (dim_value lhs) s
      else if IsStatic rhs then AddEqual_static lhs (dim_value rhs) s
      else
        let s1 = EnsureSymbol (dim_value rhs) (EnsureSymbol (dim_value lhs) s) in
        Option.bind (FindRoot (dim_value lhs) (parents s1)) (\<lambda>(lhs_root, ps).
        Option.bind (FindRoot (dim_value rhs) ps) (\<lambda>(rhs_root, ps').
          Some (union_roots lhs_root rhs_root (s1 \<lparr>parents := ps'\<rparr>)))))"

definition GetStaticBinding :: "shape_symbol \<Rightarrow> solver \<Rightarrow> int option option" where
  "GetStaticBinding symbol s =
     (if IsStatic symbol then Some (Some (dim_value symbol))
      else if \<not> IsSymbolic symbol then Some None
      else Option.bind (FindRootIfPresent (dim_value symbol) s) (\<lambda>r.
        Some (case r of None \<Rightarrow> None | Some r' \<Rightarrow> StaticBindingForRoot r' s)))"

definition EvaluateEqual :: "shape_symbol \<Rightarrow> shape_symbol \<Rightarrow> solver \<Rightarrow> evaluation option" where
  "EvaluateEqual lhs rhs s =
     (if IsStatic lhs \<and> IsStatic rhs then Some (CompareStaticValues (dim_value lhs) (dim_value rhs))
      else if IsUnknown lhs \<or> IsUnknown rhs then Some kDeferred
      else if IsSymbolic lhs \<and> IsSymbolic rhs \<and> lhs = rhs then Some kSatisfied
      else if IsStatic lhs then
        Option.bind (GetStaticBinding rhs s) (\<lambda>b.
          Some (case b of Some v \<Rightarrow> CompareStaticValues (dim_value lhs) v | None \<Rightarrow> kDeferred))
      else if IsStatic rhs then
        Option.bind (GetStaticBinding lhs s) (\<lambda>b.
          Some (case b of Some v \<Rightarrow> CompareStaticValues v (dim_value rhs) | None \<Rightarrow> kDeferred))
      else
        Option.bind (FindRootIfPresent (dim_value lhs) s) (\<lambda>lhs_root.
        Option.bind (FindRootIfPresent (dim_value rhs) s) (\<lambda>rhs_root.
          if lhs_root \<noteq> None \<and> rhs_root \<noteq> None \<and> lhs_root = rhs_root then Some kSatisfied
          else
            Option.bind (GetStaticBinding lhs s) (\<lambda>lhs_static.
            Option.bind (GetStaticBinding rhs s) (\<lambda>rhs_static.
              Some (case (lhs_static, rhs_static) of
                      (Some v, Some w) \<Rightarrow> CompareStaticValues v w
                    | _ \<Rightarrow> kDeferred))))))"

definition AreEqual :: "shape_symbol \<Rightarrow> shape_symbol \<Rightarrow> solver \<Rightarrow> bool option" where
  "AreEqual lhs rhs s = map_option (\<lambda>ev. ev = kSatisfied) (EvaluateEqual lhs rhs s)"

text \<open>A client that records equalities and stops at the first one that is rejected.\<close>

primrec add_all :: "(shape_symbol \<times> shape_symbol) list \<Rightarrow> solver \<Rightarrow> (solver \<times> unit result) option" where
  "add_all [] s = Some (s, Inr ())"
| "add_all (e # es) s =
     Option.bind (AddEqual (fst e) (snd e) s) (\<lambda>(s', r). case r of Inl err \<Rightarrow> Some (s', Inl err) | Inr _ \<Rightarrow> add_all es s')"

section \<open>Roots\<close>

inductive root_of :: "int list \<Rightarrow> int \<Rightarrow> int \<Rightarrow> bool" for ps where
  self: "s \<le> - 2 \<Longrightarrow> GetIndex s < length ps \<Longrightarrow> ps ! GetIndex s = s \<Longrightarrow> root_of ps s s"
| step: "s \<le> - 2 \<Longrightarrow> GetIndex s < length ps \<Longrightarrow> ps ! GetIndex s \<noteq> s \<Longrightarrow> root_of ps (ps ! GetIndex s) r \<Longrightarrow> root_of ps s r"

lemma GetIndex_self_root [simp]: "GetIndex (self_root i) = i"
  by (simp add: GetIndex_def)

lemma self_root_GetIndex: "s \<le> - 2 \<Longrightarrow> self_root (GetIndex s) = s"
  by (simp add: GetIndex_def)

lemma GetIndex_eq: "s \<le> - 2 \<Longrightarrow> t \<le> - 2 \<Longrightarrow> GetIndex s = GetIndex t \<longleftrightarrow> s = t"
  by (auto simp: GetIndex_def)

lemma root_of_fixed: "root_of ps s r \<Longrightarrow> r \<le> - 2 \<and> GetIndex r < length ps \<and> ps ! GetIndex r = r"
  by (induction rule: root_of.induct) auto

lemma root_of_dom: "root_of ps s r \<Longrightarrow> s \<le> - 2 \<and> GetIndex s < length ps"
  by (induction rule: root_of.induct) auto

lemma root_of_root: "root_of ps s r \<Longrightarrow> root_of ps r r"
  using root_of_fixed root_of.self by blast

lemma root_of_unique: "root_of ps s r \<Longrightarrow> root_of ps s r' \<Longrightarrow> r = r'"
proof (induction arbitrary: r' rule: root_of.induct)
  case (self s)
  then show ?case by (auto elim: root_of.cases)
next
  case (step s r)
  from step.prems step.hyps(3) have "root_of ps (ps ! GetIndex s) r'" by (auto elim: root_of.cases)
  then show ?case by (rule step.IH)
qed

lemma root_of_append: "root_of ps s r \<Longrightarrow> root_of (ps @ qs) s r"
proof (induction rule: root_of.induct)
  case (self s)
  show ?case by (rule root_of.self) (use self in \<open>simp_all add: nth_append\<close>)
next
  case (step s r)
  show ?case by (rule root_of.step) (use step in \<open>simp_all add: nth_append\<close>)
qed

text \<open>Path compression: pointing a symbol at its root keeps every root.\<close>

lemma root_of_compress:
  assumes "root_of ps s r" and "root_of ps t q"
  shows "root_of (ps[GetIndex s := r]) t q"
  using assms(2)
proof (induction rule: root_of.induct)
  case (self t)
  have "root_of ps t t" using self by (rule root_of.self)
  then have "t = s \<Longrightarrow> r = t" using root_of_unique assms(1) by blast
  moreover have "GetIndex t = GetIndex s \<longleftrightarrow> t = s" using GetIndex_eq self(1) root_of_dom [OF assms(1)] by blast
  ultimately have "ps[GetIndex s := r] ! GetIndex t = t" using self by (cases "t = s") simp_all
  show ?case by (rule root_of.self) (use self \<open>ps[GetIndex s := r] ! GetIndex t = t\<close> in \<open>simp_all\<close>)
next
  case (step t q)
  show ?case
  proof (cases "t = s")
    case True
    have q: "q = r" using root_of_unique [OF assms(1)] root_of.step [OF step.hyps] True by blast
    have f: "r \<le> - 2" "GetIndex r < length ps" "ps ! GetIndex r = r" using root_of_fixed [OF assms(1)] by auto
    have "r \<noteq> s" using True step.hyps(3) f(3) by auto
    then have rr: "root_of (ps[GetIndex s := r]) r r" using f GetIndex_eq [of r s] step.hyps(1) True
      by (intro root_of.self) auto
    show ?thesis by (rule root_of.step) (use True step.hyps \<open>r \<noteq> s\<close> q rr in \<open>auto\<close>)
  next
    case False
    then have ne: "GetIndex t \<noteq> GetIndex s" using GetIndex_eq step.hyps(1) root_of_dom [OF assms(1)] by blast
    show ?thesis by (rule root_of.step) (use step ne in \<open>auto\<close>)
  qed
qed

text \<open>Union: linking the root \<open>b\<close> below the root \<open>a\<close>.\<close>

lemma root_of_link:
  assumes "root_of ps a a" and "root_of ps b b" and "a \<noteq> b" and "root_of ps t q"
  shows "root_of (ps[GetIndex b := a]) t (if q = b then a else q)"
  using assms(4)
proof (induction rule: root_of.induct)
  case (self t)
  have fa: "a \<le> - 2" "GetIndex a < length ps" "ps ! GetIndex a = a" using root_of_fixed [OF assms(1)] by auto
  have fb: "b \<le> - 2" "GetIndex b < length ps" using root_of_fixed [OF assms(2)] by auto
  have "root_of (ps[GetIndex b := a]) a a"
    using fa fb GetIndex_eq [of a b] assms(3) by (intro root_of.self) auto
  then show ?case
    using self fb GetIndex_eq [of t b] assms(3) root_of.step [of b "ps[GetIndex b := a]" a] root_of.self [of t "ps[GetIndex b := a]"]
    by (cases "t = b") auto
next
  case (step t q)
  have "t \<noteq> b" using step.hyps(3) root_of_fixed [OF assms(2)] by auto
  then have ne: "GetIndex t \<noteq> GetIndex b" using GetIndex_eq step.hyps(1) root_of_fixed [OF assms(2)] by blast
  show ?case by (rule root_of.step) (use step ne in \<open>auto\<close>)
qed

lemma FindRoot_root:
  "root_of ps s r \<Longrightarrow> \<exists>ps'. FindRoot s ps = Some (r, ps') \<and> length ps' = length ps \<and> (\<forall>t q. root_of ps t q \<longrightarrow> root_of ps' t q)"
proof (induction rule: root_of.induct)
  case (self s)
  then show ?case by (subst FindRoot.simps) (simp add: Let_def)
next
  case (step s r)
  then obtain ps' where p: "FindRoot (ps ! GetIndex s) ps = Some (r, ps')" "length ps' = length ps"
    "\<forall>t q. root_of ps t q \<longrightarrow> root_of ps' t q" by blast
  have "root_of ps' s r" using p(3) root_of.step [OF step.hyps] by blast
  then have "\<forall>t q. root_of ps t q \<longrightarrow> root_of (ps'[GetIndex s := r]) t q" using p(3) root_of_compress by blast
  then show ?case using step.hyps p(1,2) by (subst FindRoot.simps) (simp add: Let_def)
qed

lemma find_root_loop_root: "root_of ps s r \<Longrightarrow> find_root_loop s (ps ! GetIndex s) ps = Some r"
proof (induction rule: root_of.induct)
  case (self s)
  then show ?case by (subst find_root_loop.simps) simp
next
  case (step s r)
  then show ?case using root_of_dom [OF step.hyps(4)] by (subst find_root_loop.simps) simp
qed

section \<open>Classes of symbols\<close>

definition solver_inv :: "solver \<Rightarrow> bool" where
  "solver_inv s \<longleftrightarrow>
     length (ranks s) = length (parents s) \<and> length (static_bindings s) = length (parents s) \<and>
     (\<forall>i < length (parents s). \<exists>r. root_of (parents s) (self_root i) r) \<and>
     (\<forall>i < length (parents s). \<forall>v. static_bindings s ! i = Some v \<longrightarrow>
        v \<ge> 0 \<and> (\<forall>r. root_of (parents s) (self_root i) r \<longrightarrow> static_bindings s ! GetIndex r = Some v))"

text \<open>The specification: the representative of each symbol and the static value of its class.\<close>

definition rep :: "solver \<Rightarrow> int \<Rightarrow> int" where
  "rep s t = (if \<exists>r. root_of (parents s) t r then THE r. root_of (parents s) t r else t)"

definition bnd :: "solver \<Rightarrow> int \<Rightarrow> int option" where
  "bnd s t = (if \<exists>r. root_of (parents s) t r then static_bindings s ! GetIndex (rep s t) else None)"

lemma rep_root: "root_of (parents s) t r \<Longrightarrow> rep s t = r"
  unfolding rep_def using root_of_unique by auto

lemma bnd_root: "root_of (parents s) t r \<Longrightarrow> bnd s t = static_bindings s ! GetIndex r"
  unfolding bnd_def using rep_root by auto

lemma inv_root: "solver_inv s \<Longrightarrow> t \<le> - 2 \<Longrightarrow> GetIndex t < length (parents s) \<Longrightarrow> \<exists>r. root_of (parents s) t r"
  using self_root_GetIndex [of t] unfolding solver_inv_def by metis

lemma rep_out: "\<not> (t \<le> - 2 \<and> GetIndex t < length (parents s)) \<Longrightarrow> rep s t = t \<and> bnd s t = None"
  using root_of_dom unfolding rep_def bnd_def by auto

lemma rep_none: "\<not> (\<exists>q. root_of (parents s) t q) \<Longrightarrow> rep s t = t \<and> bnd s t = None"
  unfolding rep_def bnd_def by (simp only: if_False simp_thms)

lemma rep_rep: "rep s (rep s t) = rep s t"
  by (metis rep_def rep_root root_of_root)

lemma bnd_rep: "bnd s (rep s t) = bnd s t"
  by (metis bnd_root rep_def rep_root root_of_root)

lemma bnd_nonneg: "solver_inv s \<Longrightarrow> bnd s t = Some v \<Longrightarrow> v \<ge> 0"
proof -
  assume i: "solver_inv s" and b: "bnd s t = Some v"
  obtain r where r: "root_of (parents s) t r" using b unfolding bnd_def by (auto split: if_splits)
  have "GetIndex r < length (parents s)" "static_bindings s ! GetIndex r = Some v"
    using root_of_fixed [OF r] bnd_root [OF r] b by auto
  then show ?thesis using i unfolding solver_inv_def by blast
qed

text \<open>Two states have the same classes when the roots of the first are roots of the second and the
  second has no other bindings.\<close>

lemma same_classes:
  assumes "solver_inv s" and "\<And>t q. root_of (parents s) t q \<Longrightarrow> root_of (parents s') t q"
    and "length (parents s') = length (parents s)" and "ranks s' = ranks s" and "static_bindings s' = static_bindings s"
  shows "solver_inv s' \<and> rep s' = rep s \<and> bnd s' = bnd s"
proof -
  have "root_of (parents s') t q \<longleftrightarrow> root_of (parents s) t q" for t q
    using assms(2,3) inv_root [OF assms(1)] root_of_dom root_of_unique by metis
  then have eq: "root_of (parents s') = root_of (parents s)" by (intro ext)
  show ?thesis using assms(1) unfolding solver_inv_def rep_def [abs_def] bnd_def [abs_def] eq assms(3-5) by blast
qed

lemma EnsureSymbol_classes:
  assumes i: "solver_inv s" and "t \<le> - 2"
  shows "solver_inv (EnsureSymbol t s) \<and> rep (EnsureSymbol t s) = rep s \<and> bnd (EnsureSymbol t s) = bnd s
    \<and> GetIndex t < length (parents (EnsureSymbol t s)) \<and> length (parents s) \<le> length (parents (EnsureSymbol t s))"
proof (cases "GetIndex t \<ge> length (parents s)")
  case True
  let ?n = "length (parents s)" and ?m = "GetIndex t + 1"
  let ?s = "EnsureSymbol t s"
  have len: "length (ranks s) = ?n" "length (static_bindings s) = ?n" using i unfolding solver_inv_def by auto
  have p: "parents ?s = parents s @ map self_root [?n ..< ?m]" "length (parents ?s) = ?m"
    "length (ranks ?s) = ?m" "static_bindings ?s = static_bindings s @ replicate (?m - ?n) None"
    using True len by (auto simp: EnsureSymbol_def Let_def)
  have old: "root_of (parents s) u q \<Longrightarrow> root_of (parents ?s) u q" for u q unfolding p(1) by (rule root_of_append)
  have new: "root_of (parents ?s) (self_root j) (self_root j)" if "?n \<le> j" "j < ?m" for j
    by (rule root_of.self) (use that in \<open>auto simp: p(1) nth_append\<close>)
  have sb: "static_bindings ?s ! j = (if j < ?n then static_bindings s ! j else None)" if "j < ?m" for j
    using that len by (auto simp: p(4) nth_append)
  have rb: "rep ?s u = rep s u \<and> bnd ?s u = bnd s u" for u
  proof (cases "u \<le> - 2 \<and> GetIndex u < ?m")
    case in_new: True
    show ?thesis
    proof (cases "GetIndex u < ?n")
      case lt: True
      obtain q where q: "root_of (parents s) u q" using inv_root [OF i] in_new lt by blast
      then show ?thesis using old [OF q] rep_root bnd_root sb root_of_fixed [OF q] True by force
    next
      case False
      then have "root_of (parents ?s) u u" using new [of "GetIndex u"] in_new self_root_GetIndex [of u] by simp
      then show ?thesis using False rep_root [of ?s] bnd_root [of ?s] sb [of "GetIndex u"] in_new rep_out [of u s] by simp
    qed
  next
    case False
    then show ?thesis using rep_out [of u s] rep_out [of u ?s] True p(2) by auto
  qed
  have tot: "\<exists>r. root_of (parents ?s) (self_root j) r" if "j < ?m" for j
  proof (cases "j < ?n")
    case True
    then obtain q where "root_of (parents s) (self_root j) q" using i unfolding solver_inv_def by blast
    then show ?thesis using old by blast
  next
    case False
    then show ?thesis using new [of j] that by auto
  qed
  have "v \<ge> 0 \<and> (\<forall>r. root_of (parents ?s) (self_root j) r \<longrightarrow> static_bindings ?s ! GetIndex r = Some v)"
    if j: "j < ?m" "static_bindings ?s ! j = Some v" for j v
  proof -
    have jn: "j < ?n" "static_bindings s ! j = Some v" using sb [OF j(1)] j(2) by (auto split: if_splits)
    obtain q where q: "root_of (parents s) (self_root j) q" using i jn unfolding solver_inv_def by blast
    have "v \<ge> 0" "static_bindings s ! GetIndex q = Some v" using i jn q unfolding solver_inv_def by blast+
    then show ?thesis using root_of_unique [OF old [OF q]] sb [of "GetIndex q"] root_of_fixed [OF q] True by auto
  qed
  then have "solver_inv ?s" unfolding solver_inv_def using p(2,3) tot len p(4) True by auto
  then show ?thesis using rb p(2) True by (auto simp: fun_eq_iff)
next
  case False
  then show ?thesis using i by (simp add: EnsureSymbol_def Let_def)
qed

lemma FindRoot_classes:
  assumes "solver_inv s" and "t \<le> - 2" and "GetIndex t < length (parents s)"
  obtains ps where "FindRoot t (parents s) = Some (rep s t, ps)" and "solver_inv (s \<lparr>parents := ps\<rparr>)"
    and "rep (s \<lparr>parents := ps\<rparr>) = rep s" and "bnd (s \<lparr>parents := ps\<rparr>) = bnd s" and "length ps = length (parents s)"
    and "root_of ps (rep s t) (rep s t)"
proof -
  obtain r where r: "root_of (parents s) t r" using inv_root [OF assms] by blast
  obtain ps where ps: "FindRoot t (parents s) = Some (r, ps)" "length ps = length (parents s)"
    "\<forall>t q. root_of (parents s) t q \<longrightarrow> root_of ps t q" using FindRoot_root [OF r] by blast
  have c: "solver_inv (s \<lparr>parents := ps\<rparr>) \<and> rep (s \<lparr>parents := ps\<rparr>) = rep s \<and> bnd (s \<lparr>parents := ps\<rparr>) = bnd s"
    by (rule same_classes [OF assms(1)]) (use ps in auto)
  show ?thesis
    by (rule that [of ps]) (use ps c rep_root [OF r] root_of_root [OF r] in auto)
qed

lemma BindRoot_classes:
  assumes i: "solver_inv s" and r: "root_of (parents s) r r" and "v \<ge> 0" and "BindRoot r v s = (s', res)"
  shows "(bnd s r = None \<or> bnd s r = Some v) \<and> res = Inr () \<and> solver_inv s' \<and> rep s' = rep s \<and>
      bnd s' = (\<lambda>t. if rep s t = r then Some v else bnd s t)
    \<or> (\<exists>w. bnd s r = Some w \<and> w \<noteq> v) \<and> res = InvalidArgument \<and> s' = s"
proof (cases "bnd s r = None \<or> bnd s r = Some v")
  case True
  have b: "bnd s r = static_bindings s ! GetIndex r" by (rule bnd_root [OF r])
  have e: "s' = s \<lparr>static_bindings := (static_bindings s)[GetIndex r := Some v]\<rparr>" "res = Inr ()"
    using assms(4) True b by (auto simp: BindRoot_def Let_def)
  have f: "GetIndex r < length (static_bindings s)" using root_of_fixed [OF r] i unfolding solver_inv_def by auto
  have nth: "static_bindings s' ! j = (if j = GetIndex r then Some v else static_bindings s ! j)" for j
    using f by (simp add: e(1) nth_list_update)
  have p: "parents s' = parents s" "ranks s' = ranks s" "length (static_bindings s') = length (static_bindings s)"
    by (simp_all add: e(1))
  have rep: "rep s' = rep s" unfolding rep_def [abs_def] p(1) by simp
  have gi: "GetIndex q = GetIndex r \<longleftrightarrow> q = r" if "root_of (parents s) t q" for t q
    using GetIndex_eq root_of_fixed [OF that] root_of_fixed [OF r] by blast
  have bnd: "bnd s' t = (if rep s t = r then Some v else bnd s t)" for t
  proof (cases "\<exists>q. root_of (parents s) t q")
    case True
    then obtain q where q: "root_of (parents s) t q" by blast
    then have q': "root_of (parents s') t q" by (simp add: p)
    show ?thesis using bnd_root [OF q] bnd_root [OF q'] rep_root [OF q] gi [OF q] nth by simp
  next
    case False
    moreover have "rep s t \<noteq> r" using False r unfolding rep_def by auto
    ultimately show ?thesis using rep_none [of s t] rep_none [of s' t] p(1) by simp
  qed
  have "w \<ge> 0 \<and> (\<forall>q. root_of (parents s') (self_root j) q \<longrightarrow> static_bindings s' ! GetIndex q = Some w)"
    if j: "j < length (parents s)" "static_bindings s' ! j = Some w" for j w
  proof (cases "j = GetIndex r")
    case jr: True
    then have "self_root j = r" using self_root_GetIndex root_of_fixed [OF r] by blast
    then show ?thesis using j(2) nth [of j] jr assms(3) root_of_unique [OF r] by (auto simp: p(1) nth)
  next
    case False
    then have "static_bindings s ! j = Some w" using j(2) nth by simp
    then have w: "w \<ge> 0 \<and> (\<forall>q. root_of (parents s) (self_root j) q \<longrightarrow> static_bindings s ! GetIndex q = Some w)"
      using i j(1) unfolding solver_inv_def by blast
    then show ?thesis using True b by (auto simp: nth p(1))
  qed
  then have "solver_inv s'" using i unfolding solver_inv_def p(2,3) unfolding p(1) by blast
  then show ?thesis using True e(2) rep bnd by auto
next
  case False
  then show ?thesis using assms(4) bnd_root [OF r] by (auto simp: BindRoot_def Let_def split: option.splits if_splits)
qed

text \<open>Linking the root \<open>b\<close> below the root \<open>a\<close>, with the binding moved when only \<open>b\<close> has one.\<close>

lemma link_classes:
  assumes i: "solver_inv s" and a: "root_of (parents s) a a" and b: "root_of (parents s) b b" and "a \<noteq> b"
    and c: "bnd s a = None \<or> bnd s b = None \<or> bnd s a = bnd s b"
    and p: "parents s' = (parents s)[GetIndex b := a]" and rk: "length (ranks s') = length (ranks s)"
    and sb: "static_bindings s' = (if bnd s b \<noteq> None \<and> bnd s a = None
        then ((static_bindings s)[GetIndex a := bnd s b])[GetIndex b := None] else static_bindings s)"
  shows "solver_inv s' \<and> rep s' = (\<lambda>t. if rep s t = b then a else rep s t) \<and>
    bnd s' = (\<lambda>t. if rep s t = a \<or> rep s t = b then (if bnd s a = None then bnd s b else bnd s a) else bnd s t)"
proof -
  let ?v = "if bnd s a = None then bnd s b else bnd s a"
  have len: "length (static_bindings s) = length (parents s)" using i unfolding solver_inv_def by blast
  have fa: "a \<le> - 2" "GetIndex a < length (parents s)" and fb: "b \<le> - 2" "GetIndex b < length (parents s)"
    using root_of_fixed [OF a] root_of_fixed [OF b] by auto
  have ab: "GetIndex a \<noteq> GetIndex b" using GetIndex_eq fa fb assms(4) by blast
  have ba: "bnd s a = static_bindings s ! GetIndex a" "bnd s b = static_bindings s ! GetIndex b"
    using bnd_root [OF a] bnd_root [OF b] by auto
  have ro: "root_of (parents s) t q \<Longrightarrow> root_of (parents s') t (if q = b then a else q)" for t q
    unfolding p by (rule root_of_link [OF a b assms(4)])
  have sa: "static_bindings s' ! GetIndex a = ?v" using ab fa fb len ba by (simp add: sb)
  have so: "static_bindings s' ! j = static_bindings s ! j" if "j \<noteq> GetIndex a" "j \<noteq> GetIndex b" for j
    using that by (simp add: sb)
  have sbb: "static_bindings s' ! GetIndex b = None \<or> static_bindings s' ! GetIndex b = bnd s b \<and> ?v = bnd s b"
    using ab fa fb len ba c by (cases "bnd s b \<noteq> None \<and> bnd s a = None") (auto simp: sb)
  have out: "\<not> (\<exists>q. root_of (parents s') t q)" if "\<not> (\<exists>q. root_of (parents s) t q)" for t
    using that inv_root [OF i] root_of_dom [of "parents s'" t] by (auto simp: p)
  have rep: "rep s' t = (if rep s t = b then a else rep s t)" for t
  proof (cases "\<exists>q. root_of (parents s) t q")
    case True
    then obtain q where q: "root_of (parents s) t q" by blast
    show ?thesis using rep_root [OF q] rep_root [OF ro [OF q]] by simp
  next
    case False
    then have "t \<noteq> b" using b by blast
    then show ?thesis using rep_none [OF False] rep_none [OF out [OF False]] by simp
  qed
  have gi: "GetIndex q \<noteq> GetIndex a \<and> GetIndex q \<noteq> GetIndex b" if "root_of (parents s) t q" "q \<noteq> a" "q \<noteq> b" for t q
    using GetIndex_eq root_of_fixed [OF that(1)] fa fb that by blast
  have bnd: "bnd s' t = (if rep s t = a \<or> rep s t = b then ?v else bnd s t)" for t
  proof (cases "\<exists>q. root_of (parents s) t q")
    case True
    then obtain q where q: "root_of (parents s) t q" by blast
    show ?thesis using bnd_root [OF q] bnd_root [OF ro [OF q]] rep_root [OF q] sa so gi [OF q] by auto
  next
    case False
    then have "rep s t \<noteq> a" "rep s t \<noteq> b" using a b unfolding rep_def by auto
    then show ?thesis using rep_none [OF False] rep_none [OF out [OF False]] by simp
  qed
  have tot: "\<exists>r. root_of (parents s') (self_root j) r" if j: "j < length (parents s)" for j
    using i ro j unfolding solver_inv_def by meson
  have "w \<ge> 0 \<and> (\<forall>q. root_of (parents s') (self_root j) q \<longrightarrow> static_bindings s' ! GetIndex q = Some w)"
    if j: "j < length (parents s)" and w: "static_bindings s' ! j = Some w" for j w
  proof -
    obtain q where q: "root_of (parents s) (self_root j) q" using i j unfolding solver_inv_def by blast
    have "bnd s' (self_root j) = Some w \<and> w \<ge> 0"
    proof (cases "j = GetIndex a \<or> j = GetIndex b")
      case True
      then have "self_root j = a \<or> self_root j = b" using self_root_GetIndex fa(1) fb(1) by blast
      then have "bnd s' (self_root j) = ?v" using bnd rep_root [OF a] rep_root [OF b] by auto
      moreover have "?v = Some w" using True w sa sbb by auto
      ultimately show ?thesis using bnd_nonneg [OF i] by (metis (full_types))
    next
      case False
      then have "static_bindings s ! j = Some w" using w so by simp
      then have v: "w \<ge> 0" "bnd s (self_root j) = Some w" using i j q bnd_root [OF q] unfolding solver_inv_def by auto
      have "q = a \<or> q = b \<Longrightarrow> ?v = Some w" using v(2) c bnd_root [OF q] ba by auto
      then show ?thesis using v bnd [of "self_root j"] rep_root [OF q] by auto
    qed
    moreover have "static_bindings s' ! GetIndex q' = bnd s' (self_root j)" if "root_of (parents s') (self_root j) q'" for q'
      using bnd_root [OF that] by simp
    ultimately show ?thesis by simp
  qed
  then have "solver_inv s'" using i tot rk unfolding solver_inv_def by (simp add: p sb)
  then show ?thesis using rep bnd by auto
qed

section \<open>Correctness\<close>

text \<open>A valuation of the symbols satisfies a state when it is constant on the classes and agrees with
  their static values.\<close>

definition sat :: "(int \<Rightarrow> int) \<Rightarrow> solver \<Rightarrow> bool" where
  "sat \<sigma> s \<longleftrightarrow> (\<forall>t. \<sigma> t \<ge> 0 \<and> \<sigma> t = \<sigma> (rep s t) \<and> (\<forall>v. bnd s t = Some v \<longrightarrow> \<sigma> t = v))"

definition value_of :: "(int \<Rightarrow> int) \<Rightarrow> shape_symbol \<Rightarrow> int" where
  "value_of \<sigma> d = (if IsStatic d then dim_value d else \<sigma> (dim_value d))"

definition equal_under :: "(int \<Rightarrow> int) \<Rightarrow> shape_symbol \<times> shape_symbol \<Rightarrow> bool" where
  "equal_under \<sigma> e \<longleftrightarrow> IsUnknown (fst e) \<or> IsUnknown (snd e) \<or> value_of \<sigma> (fst e) = value_of \<sigma> (snd e)"

lemma sat_same: "rep s' = rep s \<Longrightarrow> bnd s' = bnd s \<Longrightarrow> sat \<sigma> s' = sat \<sigma> s"
  unfolding sat_def by simp

lemma satD: "sat \<sigma> s \<Longrightarrow> \<sigma> t = \<sigma> (rep s t)" "sat \<sigma> s \<Longrightarrow> bnd s t = Some v \<Longrightarrow> \<sigma> t = v"
  unfolding sat_def by blast+

lemma sat_bind:
  assumes "rep s r = r" and "bnd s r = None \<or> bnd s r = Some v" and "rep s' = rep s"
    and "bnd s' = (\<lambda>t. if rep s t = r then Some v else bnd s t)"
  shows "sat \<sigma> s' \<longleftrightarrow> sat \<sigma> s \<and> \<sigma> r = v"
proof
  assume l: "sat \<sigma> s'"
  have "\<sigma> t = w" if "bnd s t = Some w" for t w
    using satD(2) [OF l, of t] assms(2,4) that bnd_rep [of s t] by (cases "rep s t = r") auto
  then show "sat \<sigma> s \<and> \<sigma> r = v" using l assms unfolding sat_def by auto
next
  assume "sat \<sigma> s \<and> \<sigma> r = v"
  then show "sat \<sigma> s'" using assms(3,4) unfolding sat_def by (auto split: if_splits)
qed

lemma sat_link:
  assumes "rep s a = a" and "rep s b = b" and "bnd s a = None \<or> bnd s b = None \<or> bnd s a = bnd s b"
    and "rep s' = (\<lambda>t. if rep s t = b then a else rep s t)"
    and "bnd s' = (\<lambda>t. if rep s t = a \<or> rep s t = b then (if bnd s a = None then bnd s b else bnd s a) else bnd s t)"
  shows "sat \<sigma> s' \<longleftrightarrow> sat \<sigma> s \<and> \<sigma> a = \<sigma> b"
proof
  assume l: "sat \<sigma> s'"
  have ab: "\<sigma> a = \<sigma> b" using satD(1) [OF l, of b] assms(2,4) by simp
  have r: "\<sigma> t = \<sigma> (rep s t)" for t using satD(1) [OF l, of t] assms(4) ab by (auto split: if_splits)
  have "\<sigma> t = w" if "bnd s t = Some w" for t w
    using satD(2) [OF l, of t] assms(3,5) that bnd_rep [of s t] by (cases "rep s t = a \<or> rep s t = b") auto
  then show "sat \<sigma> s \<and> \<sigma> a = \<sigma> b" using l ab r unfolding sat_def by auto
next
  assume l: "sat \<sigma> s \<and> \<sigma> a = \<sigma> b"
  have r: "\<sigma> t = \<sigma> (rep s' t)" for t using l satD(1) [of \<sigma> s t] assms(4) by auto
  have "\<sigma> t = w" if "bnd s' t = Some w" for t w
  proof (cases "rep s t = a \<or> rep s t = b")
    case True
    then have "\<sigma> t = \<sigma> a" "\<sigma> t = \<sigma> b" using l satD(1) [of \<sigma> s t] by auto
    then show ?thesis using that True l satD(2) [of \<sigma> s a w] satD(2) [of \<sigma> s b w] assms(5) by (auto split: if_splits)
  next
    case False
    then show ?thesis using that l satD(2) [of \<sigma> s t w] assms(5) by auto
  qed
  then show "sat \<sigma> s'" using l r unfolding sat_def by auto
qed

text \<open>What every operation that adds a fact \<open>P\<close> does.\<close>

definition adds :: "solver \<Rightarrow> ((int \<Rightarrow> int) \<Rightarrow> bool) \<Rightarrow> solver \<times> unit result \<Rightarrow> bool" where
  "adds s P x \<longleftrightarrow> solver_inv (fst x) \<and>
     (snd x = Inr () \<and> (\<forall>\<sigma>. sat \<sigma> (fst x) \<longleftrightarrow> sat \<sigma> s \<and> P \<sigma>) \<or>
      snd x = InvalidArgument \<and> (\<forall>\<sigma>. sat \<sigma> s \<longrightarrow> \<not> P \<sigma>))"

lemma BindRoot_adds:
  assumes "solver_inv s" and r: "root_of (parents s) r r" and "v \<ge> 0"
  shows "adds s (\<lambda>\<sigma>. \<sigma> r = v) (BindRoot r v s)"
proof -
  obtain s' res where e: "BindRoot r v s = (s', res)" by (rule prod.exhaust)
  from BindRoot_classes [OF assms e] show ?thesis
  proof (elim disjE conjE exE)
    fix w
    assume "bnd s r = Some w" "w \<noteq> v" "res = InvalidArgument" "s' = s"
    then show ?thesis using assms(1) satD(2) [of _ s r w] by (auto simp: adds_def e)
  qed (use sat_bind [OF rep_root [OF r], of v s'] in \<open>simp_all add: adds_def e\<close>)
qed

lemma attach_adds:
  assumes i: "solver_inv s" and a: "root_of (parents s) a a" and b: "root_of (parents s) b b" and "a \<noteq> b"
    and c: "bnd s a = None \<or> bnd s b = None \<or> bnd s a = bnd s b"
  shows "adds s (\<lambda>\<sigma>. \<sigma> a = \<sigma> b) (attach a b s, Inr ())"
proof -
  have p: "parents (attach a b s) = (parents s)[GetIndex b := a]" "length (ranks (attach a b s)) = length (ranks s)"
    "static_bindings (attach a b s) = (if bnd s b \<noteq> None \<and> bnd s a = None
        then ((static_bindings s)[GetIndex a := bnd s b])[GetIndex b := None] else static_bindings s)"
    by (simp_all add: attach_def Let_def bnd_root [OF a] bnd_root [OF b], auto)
  have k: "solver_inv (attach a b s)" "rep (attach a b s) = (\<lambda>t. if rep s t = b then a else rep s t)"
    "bnd (attach a b s) = (\<lambda>t. if rep s t = a \<or> rep s t = b then (if bnd s a = None then bnd s b else bnd s a) else bnd s t)"
    using link_classes [OF assms p] by blast+
  show ?thesis using k(1) sat_link [OF rep_root [OF a] rep_root [OF b] c k(2,3)] by (simp add: adds_def)
qed

lemma union_roots_adds:
  assumes i: "solver_inv s" and l: "root_of (parents s) l l" and r: "root_of (parents s) r r"
  shows "adds s (\<lambda>\<sigma>. \<sigma> l = \<sigma> r) (union_roots l r s)"
proof (cases "l = r")
  case True
  then show ?thesis using i by (simp add: union_roots_def adds_def)
next
  case False
  have b: "bnd s l = static_bindings s ! GetIndex l" "bnd s r = static_bindings s ! GetIndex r"
    using bnd_root [OF l] bnd_root [OF r] by auto
  show ?thesis
  proof (cases "bnd s l \<noteq> None \<and> bnd s r \<noteq> None \<and> bnd s l \<noteq> bnd s r")
    case True
    then have "union_roots l r s = (s, InvalidArgument)" using False b by (auto simp: union_roots_def Let_def)
    then show ?thesis using i True satD(2) by (fastforce simp: adds_def)
  next
    case c: False
    have c': "bnd s l = None \<or> bnd s r = None \<or> bnd s l = bnd s r" "bnd s r = None \<or> bnd s l = None \<or> bnd s r = bnd s l"
      using c by auto
    have "union_roots l r s = (attach l r s, Inr ()) \<or> union_roots l r s = (attach r l s, Inr ())"
      using False c b by (auto simp: union_roots_def Let_def)
    then show ?thesis using attach_adds [OF i l r False c'(1)] attach_adds [OF i r l False [symmetric] c'(2)]
      by (auto simp: adds_def)
  qed
qed

lemma AddEqual_static_adds:
  assumes i: "solver_inv s" and "IsSymbolic d" and "v \<ge> 0"
  shows "\<exists>x. AddEqual_static d v s = Some x \<and> adds s (\<lambda>\<sigma>. \<sigma> (dim_value d) = v) x"
proof -
  let ?t = "dim_value d"
  let ?s1 = "EnsureSymbol ?t s"
  have t: "?t \<le> - 2" "\<not> IsStatic d" "\<not> IsUnknown d" using assms(2) by (auto simp: IsSymbolic_def IsStatic_def IsUnknown_def kUnknownDim_def)
  note e = EnsureSymbol_classes [OF i t(1)]
  obtain ps where p: "FindRoot ?t (parents ?s1) = Some (rep ?s1 ?t, ps)" "solver_inv (?s1 \<lparr>parents := ps\<rparr>)"
    "rep (?s1 \<lparr>parents := ps\<rparr>) = rep ?s1" "bnd (?s1 \<lparr>parents := ps\<rparr>) = bnd ?s1" "length ps = length (parents ?s1)"
    "root_of ps (rep ?s1 ?t) (rep ?s1 ?t)"
    using FindRoot_classes [of ?s1 ?t] e t(1) by blast
  have "adds (?s1 \<lparr>parents := ps\<rparr>) (\<lambda>\<sigma>. \<sigma> (rep ?s1 ?t) = v) (BindRoot (rep ?s1 ?t) v (?s1 \<lparr>parents := ps\<rparr>))"
    by (rule BindRoot_adds) (use p(2,6) assms(3) in simp_all)
  moreover have "sat \<sigma> (?s1 \<lparr>parents := ps\<rparr>) = sat \<sigma> s" for \<sigma> by (rule sat_same) (use e p(3,4) in auto)
  moreover have "sat \<sigma> s \<Longrightarrow> \<sigma> (rep ?s1 ?t) = \<sigma> ?t" for \<sigma> using satD(1) [of \<sigma> s ?t] e by auto
  ultimately have "adds s (\<lambda>\<sigma>. \<sigma> ?t = v) (BindRoot (rep ?s1 ?t) v (?s1 \<lparr>parents := ps\<rparr>))"
    unfolding adds_def by metis
  then show ?thesis using t assms(3) p(1) by (simp add: AddEqual_static_def Let_def)
qed

lemma AddEqual_symbols_adds:
  assumes i: "solver_inv s" and l: "IsSymbolic l" and r: "IsSymbolic r"
  shows "\<exists>x. AddEqual l r s = Some x \<and> adds s (\<lambda>\<sigma>. \<sigma> (dim_value l) = \<sigma> (dim_value r)) x"
proof -
  let ?l = "dim_value l" and ?r = "dim_value r"
  let ?s0 = "EnsureSymbol ?l s"
  let ?s1 = "EnsureSymbol ?r ?s0"
  have t: "?l \<le> - 2" "?r \<le> - 2" "\<not> IsStatic l" "\<not> IsUnknown l" "\<not> IsStatic r" "\<not> IsUnknown r"
    using l r by (auto simp: IsSymbolic_def IsStatic_def IsUnknown_def kUnknownDim_def)
  have e0: "solver_inv ?s0" "rep ?s0 = rep s" "bnd ?s0 = bnd s" "GetIndex ?l < length (parents ?s0)"
    using EnsureSymbol_classes [OF i t(1)] by auto
  have e1: "solver_inv ?s1" "rep ?s1 = rep s" "bnd ?s1 = bnd s" "GetIndex ?l < length (parents ?s1)" "GetIndex ?r < length (parents ?s1)"
    using EnsureSymbol_classes [OF e0(1) t(2)] e0 by auto
  obtain ps where p: "FindRoot ?l (parents ?s1) = Some (rep ?s1 ?l, ps)" "solver_inv (?s1 \<lparr>parents := ps\<rparr>)"
    "rep (?s1 \<lparr>parents := ps\<rparr>) = rep ?s1" "bnd (?s1 \<lparr>parents := ps\<rparr>) = bnd ?s1" "length ps = length (parents ?s1)"
    "root_of ps (rep ?s1 ?l) (rep ?s1 ?l)"
    using FindRoot_classes [OF e1(1) t(1) e1(4)] by blast
  let ?s2 = "?s1 \<lparr>parents := ps\<rparr>"
  have g: "GetIndex ?r < length (parents ?s2)" using p(5) e1(5) by simp
  obtain qs where q: "FindRoot ?r (parents ?s2) = Some (rep ?s2 ?r, qs)" "solver_inv (?s2 \<lparr>parents := qs\<rparr>)"
    "rep (?s2 \<lparr>parents := qs\<rparr>) = rep ?s2" "bnd (?s2 \<lparr>parents := qs\<rparr>) = bnd ?s2" "length qs = length (parents ?s2)"
    "root_of qs (rep ?s2 ?r) (rep ?s2 ?r)"
    using FindRoot_classes [OF p(2) t(2) g] by blast
  let ?s3 = "?s1 \<lparr>parents := qs\<rparr>" and ?a = "rep s ?l" and ?b = "rep s ?r"
  have s3: "solver_inv ?s3" "rep ?s3 = rep s" "bnd ?s3 = bnd s" using q(2-4) p(3,4) e1(2,3) by simp_all
  have lq: "GetIndex ?l < length (parents ?s3)" using q(5) p(5) e1(4) by simp
  have ra: "root_of (parents ?s3) ?a ?a" using inv_root [OF s3(1) t(1) lq] rep_root [of ?s3 ?l] root_of_root s3(2) by metis
  have rb: "root_of (parents ?s3) ?b ?b" using q(6) p(3) e1(2) by simp
  have u: "adds ?s3 (\<lambda>\<sigma>. \<sigma> ?a = \<sigma> ?b) (union_roots ?a ?b ?s3)" by (rule union_roots_adds [OF s3(1) ra rb])
  have "sat \<sigma> ?s3 = sat \<sigma> s" for \<sigma> by (rule sat_same [OF s3(2,3)])
  moreover have "sat \<sigma> s \<Longrightarrow> \<sigma> ?a = \<sigma> ?l \<and> \<sigma> ?b = \<sigma> ?r" for \<sigma> using satD(1) [of \<sigma> s ?l] satD(1) [of \<sigma> s ?r] by auto
  ultimately have "adds s (\<lambda>\<sigma>. \<sigma> ?l = \<sigma> ?r) (union_roots ?a ?b ?s3)" using u unfolding adds_def by metis
  moreover have "AddEqual l r s = Some (union_roots ?a ?b ?s3)"
    using t p(1) q(1) p(3) e1(2) by (simp add: AddEqual_def Let_def)
  ultimately show ?thesis by blast
qed

lemma AddEqual_adds:
  assumes i: "solver_inv s"
  shows "\<exists>x. AddEqual l r s = Some x \<and> adds s (\<lambda>\<sigma>. equal_under \<sigma> (l, r)) x"
proof -
  have trivial: "adds s P (s, Inr ())" if "\<And>\<sigma>. P \<sigma>" for P using i that by (simp add: adds_def)
  have conflict: "adds s P (s, InvalidArgument)" if "\<And>\<sigma>. \<not> P \<sigma>" for P using i that by (simp add: adds_def)
  have v: "IsStatic d \<Longrightarrow> dim_value d \<ge> 0" for d by (simp add: IsStatic_def)
  show ?thesis
  proof (cases l rule: dim_kind_cases; cases r rule: dim_kind_cases)
    assume k: "IsStatic l" "\<not> IsUnknown l" "IsSymbolic r" "\<not> IsStatic r" "\<not> IsUnknown r"
    then show ?thesis using AddEqual_static_adds [OF i k(3) v [OF k(1)]]
      by (simp add: AddEqual_def equal_under_def value_of_def eq_commute)
  next
    assume k: "IsStatic r" "\<not> IsUnknown r" "IsSymbolic l" "\<not> IsStatic l" "\<not> IsUnknown l"
    then show ?thesis using AddEqual_static_adds [OF i k(3) v [OF k(1)]]
      by (simp add: AddEqual_def equal_under_def value_of_def)
  next
    assume k: "IsSymbolic l" "\<not> IsStatic l" "\<not> IsUnknown l" "IsSymbolic r" "\<not> IsStatic r" "\<not> IsUnknown r"
    then show ?thesis using AddEqual_symbols_adds [OF i k(1,4)] by (simp add: equal_under_def value_of_def)
  qed (auto simp: AddEqual_def equal_under_def value_of_def intro!: trivial conflict)
qed

lemma add_all_adds:
  "solver_inv s \<Longrightarrow> \<exists>x. add_all es s = Some x \<and> adds s (\<lambda>\<sigma>. \<forall>e \<in> set es. equal_under \<sigma> e) x"
proof (induction es arbitrary: s)
  case Nil
  then show ?case by (simp add: adds_def)
next
  case (Cons e es)
  obtain s' res where a: "AddEqual (fst e) (snd e) s = Some (s', res)" "adds s (\<lambda>\<sigma>. equal_under \<sigma> e) (s', res)"
    using AddEqual_adds [OF Cons.prems, of "fst e" "snd e"] by auto
  show ?case
  proof (cases res)
    case (Inl err)
    then show ?thesis using a by (auto simp: adds_def)
  next
    case (Inr u)
    then have s': "solver_inv s'" "\<forall>\<sigma>. sat \<sigma> s' \<longleftrightarrow> sat \<sigma> s \<and> equal_under \<sigma> e" using a(2) by (auto simp: adds_def)
    obtain x where "add_all es s' = Some x" "adds s' (\<lambda>\<sigma>. \<forall>e \<in> set es. equal_under \<sigma> e) x" using Cons.IH [OF s'(1)] by blast
    then show ?thesis using a(1) Inr s'(2) by (auto simp: adds_def)
  qed
qed

lemma solver_ctor_sat: "solver_inv solver_ctor" "sat \<sigma> solver_ctor \<longleftrightarrow> (\<forall>t. \<sigma> t \<ge> 0)"
proof -
  have "rep solver_ctor t = t \<and> bnd solver_ctor t = None" for t by (rule rep_out) (simp add: solver_ctor_def)
  then show "sat \<sigma> solver_ctor \<longleftrightarrow> (\<forall>t. \<sigma> t \<ge> 0)" by (auto simp: sat_def)
qed (simp add: solver_inv_def solver_ctor_def)

text \<open>Every choice of values for the representatives without a binding is a model.\<close>

definition model :: "solver \<Rightarrow> (int \<Rightarrow> int) \<Rightarrow> int \<Rightarrow> int" where
  "model s f t = (case bnd s t of Some v \<Rightarrow> v | None \<Rightarrow> f (rep s t))"

lemma model_sat: "solver_inv s \<Longrightarrow> (\<And>t. f t \<ge> 0) \<Longrightarrow> sat (model s f) s"
  using bnd_nonneg [of s] by (auto simp: sat_def model_def bnd_rep rep_rep split: option.splits)

lemma FindRootIfPresent_rep:
  assumes "solver_inv s" and "t \<le> - 2"
  shows "FindRootIfPresent t s = Some (if GetIndex t < length (parents s) then Some (rep s t) else None)"
proof (cases "GetIndex t < length (parents s)")
  case True
  obtain r where r: "root_of (parents s) t r" using inv_root [OF assms True] by blast
  show ?thesis using True find_root_loop_root [OF r] rep_root [OF r] by (simp add: FindRootIfPresent_def Let_def)
qed (simp add: FindRootIfPresent_def Let_def)

definition static_value :: "solver \<Rightarrow> shape_symbol \<Rightarrow> int option" where
  "static_value s d = (if IsStatic d then Some (dim_value d) else bnd s (dim_value d))"

lemma GetStaticBinding_value:
  assumes "solver_inv s"
  shows "GetStaticBinding d s = Some (static_value s d)"
proof (cases d rule: dim_kind_cases)
  case 3
  then have t: "dim_value d \<le> - 2" by (simp add: IsSymbolic_def kUnknownDim_def)
  show ?thesis
  proof (cases "GetIndex (dim_value d) < length (parents s)")
    case True
    obtain r where r: "root_of (parents s) (dim_value d) r" using inv_root [OF assms t True] by blast
    have "GetIndex r < length (static_bindings s)" using root_of_fixed [OF r] assms unfolding solver_inv_def by simp
    then show ?thesis using 3 FindRootIfPresent_rep [OF assms t] True rep_root [OF r] bnd_root [OF r]
      by (simp add: GetStaticBinding_def static_value_def StaticBindingForRoot_def Let_def)
  next
    case False
    then show ?thesis using 3 FindRootIfPresent_rep [OF assms t] rep_out [of "dim_value d" s]
      by (simp add: GetStaticBinding_def static_value_def)
  qed
next
  case 2
  then show ?thesis using rep_out [of "- 1" s] by (simp add: GetStaticBinding_def static_value_def)
qed (simp add: GetStaticBinding_def static_value_def)

lemma EvaluateEqual_eq:
  assumes i: "solver_inv s" and "\<not> IsUnknown l" and "\<not> IsUnknown r"
  shows "EvaluateEqual l r s = Some (
    if IsSymbolic l \<and> IsSymbolic r \<and> rep s (dim_value l) = rep s (dim_value r) then kSatisfied
    else case (static_value s l, static_value s r) of (Some v, Some w) \<Rightarrow> CompareStaticValues v w | _ \<Rightarrow> kDeferred)"
proof (cases "IsSymbolic l \<and> IsSymbolic r")
  case True
  then have t: "dim_value l \<le> - 2" "dim_value r \<le> - 2" "\<not> IsStatic l" "\<not> IsStatic r"
    by (auto simp: IsSymbolic_def kUnknownDim_def IsStatic_def)
  have out: "rep s (dim_value d) = dim_value d" if "\<not> GetIndex (dim_value d) < length (parents s)" for d
    using rep_out [of "dim_value d" s] that by simp
  have in_dom: "GetIndex (rep s t) < length (parents s)" if "t \<le> - 2" "GetIndex t < length (parents s)" for t
    using inv_root [OF i that] root_of_fixed rep_root by metis
  have same: "rep s (dim_value l) = rep s (dim_value r) \<Longrightarrow> l = r \<or>
      GetIndex (dim_value l) < length (parents s) \<and> GetIndex (dim_value r) < length (parents s)"
    using out [of l] out [of r] in_dom [OF t(1)] in_dom [OF t(2)] shape_symbol.expand [of l r] by metis
  show ?thesis using True t same assms
    by (auto simp: EvaluateEqual_def FindRootIfPresent_rep [OF i] GetStaticBinding_value [OF i] split: if_splits)
next
  case False
  then show ?thesis using assms
    by (cases l rule: dim_kind_cases; cases r rule: dim_kind_cases)
      (auto simp: EvaluateEqual_def GetStaticBinding_value [OF i] static_value_def split: option.splits)
qed

lemma value_of_static: "sat \<sigma> s \<Longrightarrow> static_value s d = Some v \<Longrightarrow> value_of \<sigma> d = v"
  using satD(2) by (auto simp: static_value_def value_of_def split: if_splits)

text \<open>A symbol without a static value may still have any value.\<close>

lemma free_choice:
  assumes i: "solver_inv s" and "\<not> IsUnknown l" and r: "IsSymbolic r" and n: "static_value s r = None"
    and d: "\<not> (IsSymbolic l \<and> rep s (dim_value l) = rep s (dim_value r))"
  shows "(\<exists>\<sigma>. sat \<sigma> s \<and> value_of \<sigma> l = value_of \<sigma> r) \<and> (\<exists>\<sigma>. sat \<sigma> s \<and> value_of \<sigma> l \<noteq> value_of \<sigma> r)"
proof -
  define x where "x = (case static_value s l of Some v \<Rightarrow> v | None \<Rightarrow> 0)"
  have x: "x \<ge> 0" using bnd_nonneg [OF i] by (auto simp: x_def static_value_def IsStatic_def split: option.splits)
  have rs: "\<not> IsStatic r" "bnd s (dim_value r) = None"
    using r n by (auto simp: static_value_def IsSymbolic_def IsStatic_def kUnknownDim_def split: if_splits)
  define f where "f y = (\<lambda>t. if t = rep s (dim_value r) then y else 0)" for y :: int
  have sat: "sat (model s (f y)) s" if "y \<ge> 0" for y by (rule model_sat [OF i]) (simp add: f_def that)
  have "value_of (model s (f y)) r = y" for y using rs by (simp add: value_of_def model_def f_def)
  moreover have "value_of (model s (f y)) l = x" for y
    using d assms(2) by (cases l rule: dim_kind_cases)
      (auto simp: value_of_def model_def f_def x_def static_value_def split: option.splits)
  ultimately show ?thesis using sat [OF x] sat [of "x + 1"] x by (metis add.commute add_increasing less_irrefl zless_add1_eq zero_le_one)
qed

lemma EvaluateEqual_exact:
  assumes i: "solver_inv s"
  shows "\<exists>ev. EvaluateEqual l r s = Some ev \<and>
    (if IsUnknown l \<or> IsUnknown r then ev = kDeferred
     else (ev = kSatisfied \<longleftrightarrow> (\<forall>\<sigma>. sat \<sigma> s \<longrightarrow> value_of \<sigma> l = value_of \<sigma> r)) \<and>
          (ev = kViolated \<longleftrightarrow> (\<forall>\<sigma>. sat \<sigma> s \<longrightarrow> value_of \<sigma> l \<noteq> value_of \<sigma> r)))"
proof (cases "IsUnknown l \<or> IsUnknown r")
  case True
  then show ?thesis by (auto simp: EvaluateEqual_def IsUnknown_def IsStatic_def kUnknownDim_def)
next
  case False
  then have u: "\<not> IsUnknown l" "\<not> IsUnknown r" by auto
  have m: "\<exists>\<sigma>. sat \<sigma> s" using model_sat [OF i, of "\<lambda>_. 0"] by auto
  consider (same) "IsSymbolic l" "IsSymbolic r" "rep s (dim_value l) = rep s (dim_value r)"
    | (static) v w where "\<not> (IsSymbolic l \<and> IsSymbolic r \<and> rep s (dim_value l) = rep s (dim_value r))"
        "static_value s l = Some v" "static_value s r = Some w"
    | (free_r) "\<not> (IsSymbolic l \<and> rep s (dim_value l) = rep s (dim_value r))" "IsSymbolic r" "static_value s r = None"
    | (free_l) "\<not> (IsSymbolic r \<and> rep s (dim_value l) = rep s (dim_value r))" "IsSymbolic l" "static_value s l = None"
    using u by (cases l rule: dim_kind_cases; cases r rule: dim_kind_cases;
        cases "static_value s l"; cases "static_value s r") (auto simp: static_value_def)
  then show ?thesis
  proof cases
    case same
    have "value_of \<sigma> l = value_of \<sigma> r" if "sat \<sigma> s" for \<sigma>
      using same satD(1) [OF that, of "dim_value l"] satD(1) [OF that, of "dim_value r"]
      by (simp add: value_of_def IsSymbolic_def IsStatic_def kUnknownDim_def)
    then show ?thesis using EvaluateEqual_eq [OF i u] same m u by auto
  next
    case static
    have "value_of \<sigma> l = v \<and> value_of \<sigma> r = w" if "sat \<sigma> s" for \<sigma> using value_of_static [OF that] static by blast
    then show ?thesis using EvaluateEqual_eq [OF i u] static m u by (auto simp: CompareStaticValues_def)
  next
    case free_r
    have e: "EvaluateEqual l r s = Some kDeferred"
      using EvaluateEqual_eq [OF i u] free_r by (auto split: option.splits)
    show ?thesis using free_choice [OF i u(1) free_r(2,3,1)] e u by auto
  next
    case free_l
    have e: "EvaluateEqual l r s = Some kDeferred"
      using EvaluateEqual_eq [OF i u] free_l by (auto split: option.splits)
    have "\<not> (IsSymbolic r \<and> rep s (dim_value r) = rep s (dim_value l))" using free_l(1) by metis
    then show ?thesis using free_choice [OF i u(2) free_l(2,3)] e u by (auto simp: eq_commute)
  qed
qed

text \<open>C33: the solver is an exact decision procedure.  Every sequence of \<open>AddEqual\<close> calls on a new
  solver returns.  It is accepted exactly when some assignment of non-negative values to the symbols
  satisfies all the equalities (those with an unknown side say nothing).  After an accepted sequence
  \<open>EvaluateEqual\<close> returns for all symbols, and for two dimensions that are not unknown it answers
  satisfied exactly when they are equal under every such assignment, and violated exactly when they are
  different under every such assignment.\<close>

theorem solver_decides_equality:
  "\<exists>s res. add_all es solver_ctor = Some (s, res) \<and>
     (res = Inr () \<longleftrightarrow> (\<exists>\<sigma>. (\<forall>t. \<sigma> t \<ge> 0) \<and> (\<forall>e \<in> set es. equal_under \<sigma> e))) \<and>
     (res = Inr () \<longrightarrow> (\<exists>ev. EvaluateEqual l r s = Some ev \<and>
       (if IsUnknown l \<or> IsUnknown r then ev = kDeferred
        else (ev = kSatisfied \<longleftrightarrow> (\<forall>\<sigma>. (\<forall>t. \<sigma> t \<ge> 0) \<and> (\<forall>e \<in> set es. equal_under \<sigma> e) \<longrightarrow> value_of \<sigma> l = value_of \<sigma> r)) \<and>
             (ev = kViolated \<longleftrightarrow> (\<forall>\<sigma>. (\<forall>t. \<sigma> t \<ge> 0) \<and> (\<forall>e \<in> set es. equal_under \<sigma> e) \<longrightarrow> value_of \<sigma> l \<noteq> value_of \<sigma> r)))))"
proof -
  obtain s res where a: "add_all es solver_ctor = Some (s, res)"
    "adds solver_ctor (\<lambda>\<sigma>. \<forall>e \<in> set es. equal_under \<sigma> e) (s, res)"
    using add_all_adds [OF solver_ctor_sat(1)] by (metis surj_pair)
  have i: "solver_inv s" using a(2) by (simp add: adds_def)
  have m: "\<exists>\<sigma>. sat \<sigma> s" using model_sat [OF i, of "\<lambda>_. 0"] by auto
  have sat: "sat \<sigma> s \<longleftrightarrow> (\<forall>t. \<sigma> t \<ge> 0) \<and> (\<forall>e \<in> set es. equal_under \<sigma> e)" if "res = Inr ()" for \<sigma>
    using a(2) that solver_ctor_sat(2) [of \<sigma>] by (simp add: adds_def)
  have ok: "res = Inr () \<longleftrightarrow> (\<exists>\<sigma>. (\<forall>t. \<sigma> t \<ge> 0) \<and> (\<forall>e \<in> set es. equal_under \<sigma> e))"
  proof (cases "res = Inr ()")
    case True
    then show ?thesis using m sat by blast
  next
    case False
    then show ?thesis using a(2) solver_ctor_sat(2) by (auto simp: adds_def)
  qed
  show ?thesis
  proof (intro exI [of _ s] exI [of _ res] conjI impI)
    assume r: "res = Inr ()"
    show "\<exists>ev. EvaluateEqual l r s = Some ev \<and>
       (if IsUnknown l \<or> IsUnknown r then ev = kDeferred
        else (ev = kSatisfied \<longleftrightarrow> (\<forall>\<sigma>. (\<forall>t. \<sigma> t \<ge> 0) \<and> (\<forall>e \<in> set es. equal_under \<sigma> e) \<longrightarrow> value_of \<sigma> l = value_of \<sigma> r)) \<and>
             (ev = kViolated \<longleftrightarrow> (\<forall>\<sigma>. (\<forall>t. \<sigma> t \<ge> 0) \<and> (\<forall>e \<in> set es. equal_under \<sigma> e) \<longrightarrow> value_of \<sigma> l \<noteq> value_of \<sigma> r)))"
      using EvaluateEqual_exact [OF i, of l r] unfolding sat [OF r] .
  qed (use a(1) ok in auto)
qed

theorem solver_decides_equality_witness:
  "\<exists>s. add_all [(ShapeSymbol (- 2), ShapeSymbol (- 4)), (ShapeSymbol (- 4), ShapeSymbol 7)] solver_ctor = Some (s, Inr ()) \<and>
     EvaluateEqual (ShapeSymbol 7) (ShapeSymbol (- 2)) s = Some kSatisfied"
proof -
  let ?es = "[(ShapeSymbol (- 2), ShapeSymbol (- 4)), (ShapeSymbol (- 4), ShapeSymbol 7)]"
  have k: "\<And>\<sigma>. (\<forall>e \<in> set ?es. equal_under \<sigma> e) \<longleftrightarrow> \<sigma> (- 2) = 7 \<and> \<sigma> (- 4) = 7"
    "\<not> IsUnknown (ShapeSymbol 7)" "\<not> IsUnknown (ShapeSymbol (- 2))"
    "\<And>\<sigma>. value_of \<sigma> (ShapeSymbol 7) = 7" "\<And>\<sigma>. value_of \<sigma> (ShapeSymbol (- 2)) = \<sigma> (- 2)"
    by (auto simp: equal_under_def value_of_def IsUnknown_def IsStatic_def kUnknownDim_def)
  have "\<exists>\<sigma> :: int \<Rightarrow> int. (\<forall>t. \<sigma> t \<ge> 0) \<and> \<sigma> (- 2) = 7 \<and> \<sigma> (- 4) = 7" by (rule exI [of _ "\<lambda>_. 7"]) simp
  then show ?thesis using solver_decides_equality [of ?es "ShapeSymbol 7" "ShapeSymbol (- 2)"] unfolding k by (auto simp del: add_all.simps)
qed

end
