(* ===== verification/Data_Type.thy ===== *)
theory Data_Type
  imports Symbol_Solver
begin

text \<open>
  \<open>data_type.h\<close> and \<open>data_type.cpp\<close>: the element types of tensors.  A type is a code, the bits of one
  lane (\<open>uint8_t\<close>) and an encoded number of lanes (\<open>uint16_t\<close> read as \<open>int16_t\<close>: below -1 for a
  scalable vector).  The arguments of the constructors are \<open>int\<close>s, cut to the width of the fields.
\<close>

section \<open>Fields and validation\<close>

datatype dtype_code =
  kInt | kUInt | kBool | kOpaqueHandle | kBits1 | kBits2 | kBits4 | kBits8 | kBits16 | kFloat | kBFloat
| kFloat8_e3m4 | kFloat8_e4m3 | kFloat8_e4m3b11fnuz | kFloat8_e4m3fn | kFloat8_e4m3fnuz | kFloat8_e5m2
| kFloat8_e5m2fnuz | kFloat8_e8m0fnu | kFloat6_e2m3fn | kFloat6_e3m2fn | kFloat4_e2m1fn | kComplex | Undefined

record data_type =
  dt_code :: dtype_code
  dt_bits :: "8 word"
  raw_lanes :: "16 word"

definition DataType_default :: data_type where
  "DataType_default = \<lparr>dt_code = Undefined, dt_bits = 0, raw_lanes = 0\<rparr>"

definition bits :: "data_type \<Rightarrow> int" where
  "bits d = uint (dt_bits d)"

abbreviation signed_lanes :: "data_type \<Rightarrow> int" where
  "signed_lanes d \<equiv> sint (raw_lanes d)"

fun IsFloat8Code :: "dtype_code \<Rightarrow> bool" where
  "IsFloat8Code kFloat8_e3m4 = True"
| "IsFloat8Code kFloat8_e4m3 = True"
| "IsFloat8Code kFloat8_e4m3b11fnuz = True"
| "IsFloat8Code kFloat8_e4m3fn = True"
| "IsFloat8Code kFloat8_e4m3fnuz = True"
| "IsFloat8Code kFloat8_e5m2 = True"
| "IsFloat8Code kFloat8_e5m2fnuz = True"
| "IsFloat8Code kFloat8_e8m0fnu = True"
| "IsFloat8Code _ = False"

definition ValidateCodeBitsConsistency :: "dtype_code \<Rightarrow> int \<Rightarrow> unit result" where
  "ValidateCodeBitsConsistency code n =
     (if code = Undefined then check (n = 0)
      else and_then (check (n > 0 \<or> code = kOpaqueHandle)) (\<lambda>_.
        if code = kBFloat then check (n = 16)
        else if IsFloat8Code code then check (n = 8)
        else if code = kFloat6_e2m3fn \<or> code = kFloat6_e3m2fn then check (n = 6)
        else if code = kFloat4_e2m1fn then check (n = 4)
        else Inr ()))"

definition DataType_raw :: "data_type \<Rightarrow> data_type result" where
  "DataType_raw d =
     and_then (ValidateCodeBitsConsistency (dt_code d) (bits d)) (\<lambda>_.
     and_then
       (if signed_lanes d < - 1 then check (- signed_lanes d > 1)
        else if signed_lanes d = 0 then check (dt_code d = kOpaqueHandle \<or> dt_code d = Undefined)
        else check (signed_lanes d > 0))
       (\<lambda>_. Inr d))"

definition DataType_ctor :: "dtype_code \<Rightarrow> int \<Rightarrow> int \<Rightarrow> bool \<Rightarrow> data_type result" where
  "DataType_ctor code n lanes is_scalable =
     and_then
       (if is_scalable then check (lanes > 1)
        else if lanes = 0 then check (code = kOpaqueHandle \<or> code = Undefined)
        else check (lanes > 0))
       (\<lambda>_. and_then (ValidateCodeBitsConsistency code n) (\<lambda>_.
         Inr \<lparr>dt_code = code, dt_bits = word_of_int n,
              raw_lanes = (if is_scalable then word_of_int (- lanes) else word_of_int lanes)\<rparr>))"

section \<open>Accessors\<close>

definition lanes :: "data_type \<Rightarrow> int result" where
  "lanes d = and_then (check (signed_lanes d \<ge> 0)) (\<lambda>_. Inr (signed_lanes d))"

definition IsFixedLengthVector :: "data_type \<Rightarrow> bool" where "IsFixedLengthVector d \<longleftrightarrow> signed_lanes d > 1"

definition IsScalableVector :: "data_type \<Rightarrow> bool" where "IsScalableVector d \<longleftrightarrow> signed_lanes d < - 1"

definition IsScalableOrFixedLengthVector :: "data_type \<Rightarrow> bool" where
  "IsScalableOrFixedLengthVector d \<longleftrightarrow> signed_lanes d < - 1 \<or> signed_lanes d > 1"

definition nbytes :: "data_type \<Rightarrow> int result" where
  "nbytes d =
     and_then (check (\<not> IsScalableVector d)) (\<lambda>_. and_then (lanes d) (\<lambda>n. Inr ((bits d * n + 7) div 8)))"

definition GetScaleFactor :: "data_type \<Rightarrow> int result" where
  "GetScaleFactor d = and_then (check (signed_lanes d < - 1)) (\<lambda>_. Inr (- signed_lanes d))"

definition GetLanesOrScaleFactor :: "data_type \<Rightarrow> int result" where
  "GetLanesOrScaleFactor d = (if IsScalableVector d then GetScaleFactor d else lanes d)"

definition IsScalar :: "data_type \<Rightarrow> bool result" where
  "IsScalar d = (if IsScalableVector d then Inr False else and_then (lanes d) (\<lambda>n. Inr (n = 1)))"

definition IsUndefined :: "data_type \<Rightarrow> bool" where "IsUndefined d \<longleftrightarrow> dt_code d = Undefined"

definition IsInt :: "data_type \<Rightarrow> bool" where "IsInt d \<longleftrightarrow> dt_code d = kInt"

definition IsUint :: "bool \<Rightarrow> data_type \<Rightarrow> bool" where
  "IsUint include_bool d \<longleftrightarrow> dt_code d = kUInt \<and> (bits d > 1 \<or> include_bool)"

definition IsBool :: "data_type \<Rightarrow> bool" where "IsBool d \<longleftrightarrow> dt_code d = kUInt \<and> bits d = 1"

definition IsBFloat16 :: "data_type \<Rightarrow> bool" where "IsBFloat16 d \<longleftrightarrow> dt_code d = kBFloat"

definition IsFloat8 :: "data_type \<Rightarrow> bool" where "IsFloat8 d \<longleftrightarrow> IsFloat8Code (dt_code d)"

definition IsFloat6 :: "data_type \<Rightarrow> bool" where
  "IsFloat6 d \<longleftrightarrow> dt_code d = kFloat6_e2m3fn \<or> dt_code d = kFloat6_e3m2fn"

definition IsFloat4 :: "data_type \<Rightarrow> bool" where "IsFloat4 d \<longleftrightarrow> dt_code d = kFloat4_e2m1fn"

definition IsFloat :: "data_type \<Rightarrow> bool" where
  "IsFloat d \<longleftrightarrow> dt_code d = kFloat \<or> IsBFloat16 d \<or> IsFloat8 d \<or> IsFloat6 d \<or> IsFloat4 d"

definition IsDouble :: "data_type \<Rightarrow> bool" where "IsDouble d \<longleftrightarrow> dt_code d = kFloat \<and> bits d = 64"

definition IsFloat32 :: "data_type \<Rightarrow> bool" where "IsFloat32 d \<longleftrightarrow> dt_code d = kFloat \<and> bits d = 32"

definition IsFloat16 :: "data_type \<Rightarrow> bool" where "IsFloat16 d \<longleftrightarrow> dt_code d = kFloat \<and> bits d = 16"

definition IsVoid :: "data_type \<Rightarrow> bool" where
  "IsVoid d \<longleftrightarrow> dt_code d = kOpaqueHandle \<and> bits d = 0 \<and> raw_lanes d = 0"

definition IsHandle :: "data_type \<Rightarrow> bool" where "IsHandle d \<longleftrightarrow> dt_code d = kOpaqueHandle \<and> \<not> IsVoid d"

definition IsComplex :: "data_type \<Rightarrow> bool" where
  "IsComplex d \<longleftrightarrow> dt_code d = kComplex \<and> (bits d = 32 \<or> bits d = 64 \<or> bits d = 128)"

definition IsVectorBool :: "data_type \<Rightarrow> bool" where
  "IsVectorBool d \<longleftrightarrow> IsScalableOrFixedLengthVector d \<and> IsBool d"

definition WithLanes :: "int \<Rightarrow> data_type \<Rightarrow> data_type result" where
  "WithLanes n d = DataType_ctor (dt_code d) (bits d) n False"

definition WithBits :: "int \<Rightarrow> data_type \<Rightarrow> data_type result" where
  "WithBits n d =
     (if IsScalableVector d then and_then (GetScaleFactor d) (\<lambda>f. DataType_ctor (dt_code d) n f True)
      else and_then (lanes d) (\<lambda>l. DataType_ctor (dt_code d) n l False))"

definition WithScalableVscaleFactor :: "int \<Rightarrow> data_type \<Rightarrow> data_type result" where
  "WithScalableVscaleFactor f d = DataType_ctor (dt_code d) (bits d) f True"

definition ElementOf :: "data_type \<Rightarrow> data_type result" where
  "ElementOf d = WithLanes 1 d"

text \<open>\<open>operator==\<close> reads \<open>lanes()\<close> and fails on a scalable vector.\<close>

definition dtype_eq :: "data_type \<Rightarrow> data_type \<Rightarrow> bool result" where
  "dtype_eq a b =
     (if dt_code a = Undefined \<or> dt_code b = Undefined then Inr (dt_code a = dt_code b)
      else if dt_code a = dt_code b \<and> bits a = bits b
      then and_then (lanes a) (\<lambda>m. and_then (lanes b) (\<lambda>n. Inr (m = n)))
      else Inr False)"

text \<open>\<open>std::hash\<close>: \<open>code_number\<close> is the value of the enumerator.\<close>

definition dtype_codes :: "dtype_code list" where
  "dtype_codes =
     [kInt, kUInt, kBool, kOpaqueHandle, kBits1, kBits2, kBits4, kBits8, kBits16, kFloat, kBFloat,
      kFloat8_e3m4, kFloat8_e4m3, kFloat8_e4m3b11fnuz, kFloat8_e4m3fn, kFloat8_e4m3fnuz, kFloat8_e5m2,
      kFloat8_e5m2fnuz, kFloat8_e8m0fnu, kFloat6_e2m3fn, kFloat6_e3m2fn, kFloat4_e2m1fn, kComplex, Undefined]"

definition code_number :: "dtype_code \<Rightarrow> nat" where
  "code_number c = length (takeWhile (\<lambda>d. d \<noteq> c) dtype_codes)"

definition dtype_hash :: "data_type \<Rightarrow> u64" where
  "dtype_hash d =
     (if dt_code d = Undefined then 0
      else or (or (of_nat (code_number (dt_code d))) (push_bit 8 (word_of_int (bits d))))
             (push_bit 16 (ucast (raw_lanes d))))"

section \<open>Factories\<close>

definition dt_Int :: "int \<Rightarrow> int \<Rightarrow> data_type result" where "dt_Int n l = DataType_ctor kInt n l False"
definition dt_UInt :: "int \<Rightarrow> int \<Rightarrow> data_type result" where "dt_UInt n l = DataType_ctor kUInt n l False"
definition dt_ScalableInt :: "int \<Rightarrow> int \<Rightarrow> data_type result" where "dt_ScalableInt n f = DataType_ctor kInt n f True"
definition dt_ScalableUInt :: "int \<Rightarrow> int \<Rightarrow> data_type result" where "dt_ScalableUInt n f = DataType_ctor kUInt n f True"
definition dt_Float :: "int \<Rightarrow> int \<Rightarrow> data_type result" where "dt_Float n l = DataType_ctor kFloat n l False"
definition dt_ScalableFloat :: "int \<Rightarrow> int \<Rightarrow> data_type result" where "dt_ScalableFloat n f = DataType_ctor kFloat n f True"
definition dt_Double :: "data_type result" where "dt_Double = DataType_ctor kFloat 64 1 False"
definition dt_Float32 :: "data_type result" where "dt_Float32 = DataType_ctor kFloat 32 1 False"
definition dt_BFloat :: "int \<Rightarrow> int \<Rightarrow> data_type result" where "dt_BFloat n l = DataType_ctor kBFloat n l False"
definition dt_Float8E3M4 :: "int \<Rightarrow> data_type result" where "dt_Float8E3M4 l = DataType_ctor kFloat8_e3m4 8 l False"
definition dt_Float8E4M3 :: "int \<Rightarrow> data_type result" where "dt_Float8E4M3 l = DataType_ctor kFloat8_e4m3 8 l False"
definition dt_Float8E4M3B11FNUZ :: "int \<Rightarrow> data_type result" where
  "dt_Float8E4M3B11FNUZ l = DataType_ctor kFloat8_e4m3b11fnuz 8 l False"
definition dt_Float8E4M3FN :: "int \<Rightarrow> data_type result" where "dt_Float8E4M3FN l = DataType_ctor kFloat8_e4m3fn 8 l False"
definition dt_Float8E4M3FNUZ :: "int \<Rightarrow> data_type result" where
  "dt_Float8E4M3FNUZ l = DataType_ctor kFloat8_e4m3fnuz 8 l False"
definition dt_Float8E5M2 :: "int \<Rightarrow> data_type result" where "dt_Float8E5M2 l = DataType_ctor kFloat8_e5m2 8 l False"
definition dt_Float8E5M2FNUZ :: "int \<Rightarrow> data_type result" where
  "dt_Float8E5M2FNUZ l = DataType_ctor kFloat8_e5m2fnuz 8 l False"
definition dt_Float8E8M0FNU :: "int \<Rightarrow> data_type result" where "dt_Float8E8M0FNU l = DataType_ctor kFloat8_e8m0fnu 8 l False"
definition dt_Float6E3M2FN :: "int \<Rightarrow> data_type result" where "dt_Float6E3M2FN l = DataType_ctor kFloat6_e3m2fn 6 l False"
definition dt_Float6E2M3FN :: "int \<Rightarrow> data_type result" where "dt_Float6E2M3FN l = DataType_ctor kFloat6_e2m3fn 6 l False"
definition dt_Float4E2M1FN :: "int \<Rightarrow> data_type result" where "dt_Float4E2M1FN l = DataType_ctor kFloat4_e2m1fn 4 l False"
definition dt_Bool :: "int \<Rightarrow> data_type result" where "dt_Bool l = dt_UInt 1 l"
definition dt_ScalableBool :: "int \<Rightarrow> data_type result" where "dt_ScalableBool f = dt_ScalableUInt 1 f"
definition dt_Handle :: "int \<Rightarrow> int \<Rightarrow> data_type result" where "dt_Handle n l = DataType_ctor kOpaqueHandle n l False"
definition dt_Void :: "data_type result" where "dt_Void = DataType_ctor kOpaqueHandle 0 0 False"
definition dt_ComplexHalf :: "int \<Rightarrow> data_type result" where "dt_ComplexHalf l = DataType_ctor kComplex 32 l False"
definition dt_ComplexFloat :: "int \<Rightarrow> data_type result" where "dt_ComplexFloat l = DataType_ctor kComplex 64 l False"
definition dt_ComplexDouble :: "int \<Rightarrow> data_type result" where "dt_ComplexDouble l = DataType_ctor kComplex 128 l False"

text \<open>The table \<open>SCALAR_TYPE_TO_CPP_TYPE_AND_NAME\<close> and \<open>ToString\<close>.\<close>

definition scalar_types :: "(dtype_code \<times> int \<times> string) list" where
  "scalar_types =
     [(kInt, 8, ''Char''), (kInt, 16, ''Short''), (kInt, 32, ''Int''), (kInt, 64, ''Long''),
      (kUInt, 8, ''Byte''), (kUInt, 16, ''UInt16''), (kUInt, 32, ''UInt32''), (kUInt, 64, ''UInt64''),
      (kUInt, 1, ''Bool''), (kFloat, 16, ''Half''), (kFloat, 32, ''Float''), (kFloat, 64, ''Double''),
      (kBFloat, 16, ''BFloat16''), (kFloat8_e4m3fn, 8, ''Float8_e4m3fn''), (kFloat8_e5m2, 8, ''Float8_e5m2''),
      (kComplex, 32, ''ComplexHalf''), (kComplex, 64, ''ComplexFloat''), (kComplex, 128, ''ComplexDouble'')]"

fun decimal :: "nat \<Rightarrow> string" where
  "decimal n = (if n < 10 then [char_of (48 + n)] else decimal (n div 10) @ [char_of (48 + n mod 10)])"

declare decimal.simps [simp del]

definition dtype_ToString :: "data_type \<Rightarrow> string" where
  "dtype_ToString d =
     (if dt_code d = Undefined then ''undefined''
      else if dt_code d = kUInt \<and> bits d = 1 \<and> raw_lanes d = 1 then ''bool''
      else if IsVoid d then ''void''
      else
        concat (map (\<lambda>(c, n, name). if dt_code d = c \<and> bits d = n then name else []) scalar_types) @
        (if signed_lanes d > 1 then ''x'' @ decimal (nat (signed_lanes d))
         else if signed_lanes d < - 1 then ''xvscalex'' @ decimal (nat (- signed_lanes d))
         else []))"

section \<open>Properties\<close>

definition valid_dtype :: "data_type \<Rightarrow> bool" where
  "valid_dtype d \<longleftrightarrow>
     ValidateCodeBitsConsistency (dt_code d) (bits d) = Inr () \<and>
     (signed_lanes d < - 1 \<or> signed_lanes d > 0 \<or> signed_lanes d = 0 \<and> (dt_code d = kOpaqueHandle \<or> dt_code d = Undefined))"

lemma DataType_raw_iff: "DataType_raw d = Inr e \<longleftrightarrow> e = d \<and> valid_dtype d"
  by (auto simp: DataType_raw_def valid_dtype_def)

lemma sint_lanes:
  "0 \<le> n \<Longrightarrow> n < 2 ^ 15 \<Longrightarrow> sint (word_of_int n :: 16 word) = n"
  "0 \<le> n \<Longrightarrow> n \<le> 2 ^ 15 \<Longrightarrow> sint (- word_of_int n :: 16 word) = - n"
  using sint_sbintrunc' [of "- n", where 'a = 16] by (simp_all add: sint_sbintrunc' signed_take_bit_int_eq_self)

lemma uint_bits: "0 \<le> n \<Longrightarrow> n < 256 \<Longrightarrow> uint (word_of_int n :: 8 word) = n"
  by (simp add: uint_word_of_int)

lemma ctor_fields:
  assumes "DataType_ctor code n l sc = Inr d" and "0 \<le> n" and "n < 256" and "l < 2 ^ 15"
  shows "dt_code d = code \<and> bits d = n \<and> signed_lanes d = (if sc then - l else l) \<and>
    ValidateCodeBitsConsistency code n = Inr () \<and>
    (if sc then l > 1 else l > 0 \<or> l = 0 \<and> (code = kOpaqueHandle \<or> code = Undefined))"
proof -
  have "if sc then l > 1 else l > 0 \<or> l = 0 \<and> (code = kOpaqueHandle \<or> code = Undefined)"
    and d: "d = \<lparr>dt_code = code, dt_bits = word_of_int n, raw_lanes = (if sc then word_of_int (- l) else word_of_int l)\<rparr>"
    and v: "ValidateCodeBitsConsistency code n = Inr ()"
    using assms(1) by (auto simp: DataType_ctor_def split: if_splits)
  moreover have "0 \<le> l" using calculation(1) by (auto split: if_splits)
  ultimately show ?thesis using assms(2-4) sint_lanes [of l] by (auto simp: bits_def uint_bits)
qed

text \<open>C40: a type built from fields that fit their widths is a valid type and keeps them: the code, the
  bits, the number of lanes and whether they are scalable are read back, the raw constructor accepts
  it, and \<open>nbytes\<close> is the size of all lanes rounded up to bytes.  Its size and its equality with itself
  are available exactly when it is not a scalable vector; \<open>operator==\<close> ends the process on one.\<close>

theorem data_type_roundtrip:
  assumes "DataType_ctor code n l sc = Inr d" and "0 \<le> n" and "n < 256" and "l < 2 ^ 15"
  shows "valid_dtype d \<and> DataType_raw d = Inr d \<and> dt_code d = code \<and> bits d = n \<and> IsScalableVector d = sc \<and>
    GetLanesOrScaleFactor d = Inr l \<and>
    nbytes d = (if sc then Inl Check_Failed else Inr ((n * l + 7) div 8)) \<and>
    dtype_eq d d = (if sc \<and> code \<noteq> Undefined then Inl Check_Failed else Inr True)"
proof -
  note f = ctor_fields [OF assms]
  have v: "valid_dtype d" using f by (auto simp: valid_dtype_def split: if_splits)
  show ?thesis using f v DataType_raw_iff [of d d]
    by (auto simp: IsScalableVector_def GetLanesOrScaleFactor_def GetScaleFactor_def lanes_def nbytes_def dtype_eq_def check_def
        split: if_splits)
qed

theorem data_type_roundtrip_witness:
  "\<exists>d. DataType_ctor kFloat4_e2m1fn 4 3 False = Inr d \<and> nbytes d = Inr 2 \<and> DataType_raw d = Inr d"
proof -
  obtain d where d: "DataType_ctor kFloat4_e2m1fn 4 3 False = Inr d"
    by (simp add: DataType_ctor_def ValidateCodeBitsConsistency_def check_def)
  show ?thesis using data_type_roundtrip [OF d] d by simp
qed

text \<open>The constructor does not check that its arguments fit: 40000 fixed lanes become a scalable vector,
  and 256 bits become none.\<close>

lemma data_type_truncates:
  "(\<exists>d. DataType_ctor kFloat 32 40000 False = Inr d \<and> IsScalableVector d) \<and>
   (\<exists>d. DataType_ctor kInt 256 1 False = Inr d \<and> bits d = 0 \<and> DataType_raw d = Inl Check_Failed)"
  by (simp add: DataType_ctor_def ValidateCodeBitsConsistency_def check_def IsScalableVector_def bits_def DataType_raw_def)

text \<open>Types that compare equal hash equally.\<close>

lemma dtype_eq_fields:
  assumes "dtype_eq a b = Inr True"
  shows "dt_code a = dt_code b \<and> (dt_code a \<noteq> Undefined \<longrightarrow> a = b)"
proof (cases "dt_code a = Undefined")
  case True
  then show ?thesis using assms by (simp add: dtype_eq_def)
next
  case False
  then have e: "dt_code a = dt_code b" "uint (dt_bits a) = uint (dt_bits b)" "signed_lanes a = signed_lanes b"
    using assms by (auto simp: dtype_eq_def lanes_def bits_def split: if_splits)
  have "dt_bits a = dt_bits b" "raw_lanes a = raw_lanes b" using e(2,3) by (simp_all only: word_uint_eqI signed_word_eqI)
  then show ?thesis using e(1) by (simp add: data_type.equality)
qed

lemma dtype_hash_respects_eq: "dtype_eq a b = Inr True \<Longrightarrow> dtype_hash a = dtype_hash b"
  using dtype_eq_fields [of a b] unfolding dtype_hash_def by metis

end
