(* ===== verification/Operator_Schema.thy ===== *)
theory Operator_Schema
  imports Data_Type
begin

text \<open>
  The operators of the runtime: \<open>op_type.h\<close>, \<open>op_params.h\<close>, \<open>operator_schema.h\<close>/\<open>.cpp\<close>, the lists of
  supported element types in the headers of the operators, and the two helpers of
  \<open>operator_inference.cpp\<close>.  A floating-point parameter is a dyadic number, an infinity or NaN.
\<close>

section \<open>Operators and parameters\<close>

datatype float_value = Finite int int | Infinite bool | Not_a_Number

definition finite_positive :: "float_value \<Rightarrow> bool" where
  "finite_positive x = (case x of Finite mantissa _ \<Rightarrow> mantissa > 0 | _ \<Rightarrow> False)"

datatype rope_scaling = kNone | kLinear

record rope_params =
  rope_head_dim :: int
  rope_num_attention_heads :: int
  rope_num_key_value_heads :: int
  rope_max_position_embeddings :: int
  rope_theta :: float_value
  rope_scaling_factor :: "float_value option"
  rope_scaling_type :: rope_scaling

record attention_params =
  attn_num_attention_heads :: int
  attn_num_key_value_heads :: int
  attn_head_dim :: int

datatype reshape_dim = ReshapeLiteralDim int | ReshapeInputDim nat | ReshapeInferDim

datatype op_params =
  Monostate
| EmbeddingParams
| RmsNormParams float_value
| LinearParams
| RoPEParams rope_params
| MatMulParams bool
| SoftmaxParams int
| AddParams
| SiluParams
| SiluMulParams
| ElementwiseMulParams
| KVCacheUpdateParams
| AttentionParams attention_params
| ArgmaxParams int
| ReshapeParams "reshape_dim list"
| PermuteParams "nat list"
| ReorderParams

datatype op_type =
  kUnknown | kEmbedding | kRmsNorm | kLinear | kMatMul | kRoPE | kAttention | kSilu | kSiluMul
| kElementwiseMul | kKVCacheUpdate | kAdd | kSoftmax | kArgmax | kReshape | kPermute | kReorder

fun op_ToString :: "op_type \<Rightarrow> string" where
  "op_ToString op_type.kUnknown = ''Unknown''"
| "op_ToString kEmbedding = ''Embedding''"
| "op_ToString kRmsNorm = ''RmsNorm''"
| "op_ToString op_type.kLinear = ''Linear''"
| "op_ToString kMatMul = ''MatMul''"
| "op_ToString kRoPE = ''RoPE''"
| "op_ToString kAttention = ''Attention''"
| "op_ToString kSilu = ''Silu''"
| "op_ToString kSiluMul = ''SiluMul''"
| "op_ToString kElementwiseMul = ''ElementwiseMul''"
| "op_ToString kKVCacheUpdate = ''KVCacheUpdate''"
| "op_ToString kAdd = ''Add''"
| "op_ToString kSoftmax = ''Softmax''"
| "op_ToString kArgmax = ''Argmax''"
| "op_ToString kReshape = ''Reshape''"
| "op_ToString kPermute = ''Permute''"
| "op_ToString kReorder = ''Reorder''"

section \<open>Schemas\<close>

datatype port_kind = kModelInput | kActivation | kWeight | kConstant | kState

record input_port =
  in_index :: nat
  in_kind :: port_kind
  contributes_tensor_spec :: bool
  in_name :: string

record output_port =
  out_index :: nat
  out_kind :: port_kind
  out_name :: string

record operator_traits =
  has_side_effects :: bool
  deterministic :: bool
  compile_time_evaluable :: bool

record operator_schema =
  schema_op :: op_type
  input_ports :: "input_port list"
  output_ports :: "output_port list"
  traits :: operator_traits

definition Input :: "nat \<Rightarrow> string \<Rightarrow> port_kind \<Rightarrow> input_port" where
  "Input index name kind = \<lparr>in_index = index, in_kind = kind, contributes_tensor_spec = True, in_name = name\<rparr>"

definition Input_spec :: "nat \<Rightarrow> string \<Rightarrow> port_kind \<Rightarrow> bool \<Rightarrow> input_port" where
  "Input_spec index name kind contributes =
     \<lparr>in_index = index, in_kind = kind, contributes_tensor_spec = contributes, in_name = name\<rparr>"

definition Output :: "nat \<Rightarrow> string \<Rightarrow> output_port" where
  "Output index name = \<lparr>out_index = index, out_kind = kActivation, out_name = name\<rparr>"

definition Output_kind :: "nat \<Rightarrow> string \<Rightarrow> port_kind \<Rightarrow> output_port" where
  "Output_kind index name kind = \<lparr>out_index = index, out_kind = kind, out_name = name\<rparr>"

definition RuntimeOnly :: operator_traits where
  "RuntimeOnly = \<lparr>has_side_effects = False, deterministic = True, compile_time_evaluable = False\<rparr>"

definition CompileTimeEvaluable :: operator_traits where
  "CompileTimeEvaluable = \<lparr>has_side_effects = False, deterministic = True, compile_time_evaluable = True\<rparr>"

definition Stateful :: operator_traits where
  "Stateful = \<lparr>has_side_effects = True, deterministic = False, compile_time_evaluable = False\<rparr>"

definition OperatorSchema :: "op_type \<Rightarrow> input_port list \<Rightarrow> output_port list \<Rightarrow> operator_traits \<Rightarrow> operator_schema" where
  "OperatorSchema op ins outs tr = \<lparr>schema_op = op, input_ports = ins, output_ports = outs, traits = tr\<rparr>"

definition kOperatorSchemas :: "operator_schema list" where
  "kOperatorSchemas =
    [OperatorSchema kEmbedding [Input 0 ''tokens'' kModelInput, Input 1 ''weight'' kWeight] [Output 0 ''output''] RuntimeOnly,
     OperatorSchema kRmsNorm [Input 0 ''input'' kActivation, Input 1 ''weight'' kWeight] [Output 0 ''output''] RuntimeOnly,
     OperatorSchema op_type.kLinear [Input 0 ''input'' kActivation, Input 1 ''weight'' kWeight] [Output 0 ''output''] RuntimeOnly,
     OperatorSchema kRoPE
       [Input 0 ''q'' kActivation, Input 1 ''k'' kActivation, Input 2 ''position_ids'' kModelInput]
       [Output 0 ''q_rope'', Output 1 ''k_rope''] RuntimeOnly,
     OperatorSchema kMatMul [Input 0 ''lhs'' kActivation, Input 1 ''rhs'' kActivation] [Output 0 ''output''] RuntimeOnly,
     OperatorSchema kSoftmax [Input 0 ''input'' kActivation] [Output 0 ''output''] RuntimeOnly,
     OperatorSchema kAdd [Input 0 ''lhs'' kActivation, Input 1 ''rhs'' kActivation] [Output 0 ''output''] CompileTimeEvaluable,
     OperatorSchema kSiluMul [Input 0 ''gate'' kActivation, Input 1 ''up'' kActivation] [Output 0 ''output''] CompileTimeEvaluable,
     OperatorSchema kSilu [Input 0 ''input'' kActivation] [Output 0 ''output''] CompileTimeEvaluable,
     OperatorSchema kElementwiseMul [Input 0 ''lhs'' kActivation, Input 1 ''rhs'' kActivation] [Output 0 ''output'']
       CompileTimeEvaluable,
     OperatorSchema kArgmax [Input 0 ''logits'' kActivation] [Output 0 ''output''] RuntimeOnly,
     OperatorSchema kKVCacheUpdate
       [Input 0 ''k'' kActivation, Input 1 ''v'' kActivation, Input_spec 2 ''k_cache_in'' kState False,
        Input_spec 3 ''v_cache_in'' kState False]
       [Output_kind 0 ''k_cache_out'' kState, Output_kind 1 ''v_cache_out'' kState] Stateful,
     OperatorSchema kAttention
       [Input 0 ''q'' kActivation, Input_spec 1 ''k_cache'' kState False, Input_spec 2 ''v_cache'' kState False]
       [Output 0 ''output''] RuntimeOnly,
     OperatorSchema kReshape [Input 0 ''input'' kActivation] [Output 0 ''output''] RuntimeOnly,
     OperatorSchema kPermute [Input 0 ''input'' kActivation] [Output 0 ''output''] RuntimeOnly,
     OperatorSchema kReorder [Input 0 ''input'' kActivation] [Output 0 ''output''] RuntimeOnly]"

definition GetOperatorSchema :: "op_type \<Rightarrow> operator_schema result" where
  "GetOperatorSchema op =
     (case find (\<lambda>s. schema_op s = op) kOperatorSchemas of Some s \<Rightarrow> Inr s | None \<Rightarrow> Inl (Error kNotFound))"

definition FindInputPortIndex :: "operator_schema \<Rightarrow> string \<Rightarrow> nat result" where
  "FindInputPortIndex s name =
     (case find (\<lambda>p. in_name p = name) (input_ports s) of Some p \<Rightarrow> Inr (in_index p) | None \<Rightarrow> InvalidArgument)"

definition FindOutputPortIndex :: "operator_schema \<Rightarrow> string \<Rightarrow> nat result" where
  "FindOutputPortIndex s name =
     (case find (\<lambda>p. out_name p = name) (output_ports s) of Some p \<Rightarrow> Inr (out_index p) | None \<Rightarrow> InvalidArgument)"

definition HasStatefulOutput :: "operator_schema \<Rightarrow> bool" where
  "HasStatefulOutput s = list_ex (\<lambda>p. out_kind p = kState) (output_ports s)"

definition IsPureOperator :: "operator_schema \<Rightarrow> bool" where
  "IsPureOperator s \<longleftrightarrow> \<not> has_side_effects (traits s) \<and> deterministic (traits s)"

definition IsCompileTimeEvaluable :: "operator_schema \<Rightarrow> bool" where
  "IsCompileTimeEvaluable s \<longleftrightarrow> IsPureOperator s \<and> compile_time_evaluable (traits s)"

section \<open>Tensor specifications\<close>

record tensor_spec =
  spec_dtype :: data_type
  spec_shape :: symbolic_shape

record inference_result =
  outputs :: "tensor_spec list"
  runtime_checks :: "shape_constraint list"

definition ValidateInferenceInputCount :: "op_type \<Rightarrow> tensor_spec list \<Rightarrow> unit result" where
  "ValidateInferenceInputCount op inputs =
     and_then (GetOperatorSchema op) (\<lambda>schema.
       if length inputs \<noteq> length (input_ports schema) then InvalidArgument else Inr ())"

primrec compact_ports :: "input_port list \<Rightarrow> tensor_spec list \<Rightarrow> tensor_spec list result" where
  "compact_ports [] all_inputs = Inr []"
| "compact_ports (port # ports) all_inputs =
     (if in_index port \<ge> length all_inputs then InvalidArgument
      else and_then (compact_ports ports all_inputs) (\<lambda>rest.
        Inr (if contributes_tensor_spec port then all_inputs ! in_index port # rest else rest)))"

definition MakeCompactInputSpecs :: "operator_schema \<Rightarrow> tensor_spec list \<Rightarrow> tensor_spec list result" where
  "MakeCompactInputSpecs schema all_inputs =
     (if length (input_ports schema) \<noteq> length all_inputs then InvalidArgument
      else compact_ports (input_ports schema) all_inputs)"

section \<open>Supported element types\<close>

text \<open>The arrays of supported types hold the values of factories that succeed.\<close>

definition made :: "data_type result \<Rightarrow> data_type" where
  "made r = (case r of Inr d \<Rightarrow> d | Inl _ \<Rightarrow> DataType_default)"

definition kAddSupportedDTypes :: "data_type list" where
  "kAddSupportedDTypes = [made dt_Float32, made dt_Double, made (dt_BFloat 16 1), made (dt_Int 32 1), made (dt_Int 64 1)]"

definition kArgmaxSupportedDTypes :: "data_type list" where
  "kArgmaxSupportedDTypes = [made dt_Float32, made (dt_Float 16 1), made (dt_BFloat 16 1)]"

definition kAttentionSupportedDTypes :: "data_type list" where
  "kAttentionSupportedDTypes = [made dt_Float32, made (dt_Float 16 1), made (dt_BFloat 16 1)]"

definition kElementwiseMulSupportedDTypes :: "data_type list" where
  "kElementwiseMulSupportedDTypes = [made dt_Float32, made (dt_Float 16 1), made (dt_BFloat 16 1)]"

definition kEmbeddingSupportedTokenIdDTypes :: "data_type list" where
  "kEmbeddingSupportedTokenIdDTypes = [made (dt_Int 32 1), made (dt_Int 64 1), made (dt_UInt 32 1)]"

definition kEmbeddingSupportedWeightDTypes :: "data_type list" where
  "kEmbeddingSupportedWeightDTypes = [made dt_Float32, made (dt_Float 16 1), made (dt_BFloat 16 1)]"

definition kKVCacheUpdateSupportedDTypes :: "data_type list" where
  "kKVCacheUpdateSupportedDTypes = [made dt_Float32, made (dt_Float 16 1), made (dt_BFloat 16 1)]"

definition kLinearSupportedActivationDTypes :: "data_type list" where
  "kLinearSupportedActivationDTypes =
     [made dt_Float32, made (dt_Float 16 1), made (dt_BFloat 16 1), made (dt_Float8E4M3FN 1), made (dt_Float8E5M2 1)]"

definition kLinearSupportedWeightDTypes :: "data_type list" where
  "kLinearSupportedWeightDTypes =
     [made dt_Float32, made (dt_Float 16 1), made (dt_BFloat 16 1), made (dt_Float8E4M3FN 1), made (dt_Float8E5M2 1),
      made (dt_Int 8 1), made (dt_Int 4 1)]"

definition kMatMulSupportedDTypes :: "data_type list" where
  "kMatMulSupportedDTypes =
     [made dt_Float32, made (dt_Float 16 1), made (dt_BFloat 16 1), made (dt_Float8E4M3FN 1), made (dt_Float8E5M2 1),
      made (dt_Int 8 1)]"

definition kRmsNormSupportedDTypes :: "data_type list" where
  "kRmsNormSupportedDTypes =
     [made dt_Float32, made (dt_Float 16 1), made (dt_BFloat 16 1), made (dt_Float8E4M3FN 1), made (dt_Float8E5M2 1)]"

definition kRoPESupportedDTypes :: "data_type list" where
  "kRoPESupportedDTypes = [made dt_Float32, made (dt_Float 16 1), made (dt_BFloat 16 1)]"

definition kSiluMulSupportedDTypes :: "data_type list" where
  "kSiluMulSupportedDTypes =
     [made dt_Float32, made (dt_Float 16 1), made (dt_BFloat 16 1), made (dt_Float8E4M3FN 1), made (dt_Float8E5M2 1)]"

definition kSiluSupportedDTypes :: "data_type list" where
  "kSiluSupportedDTypes =
     [made dt_Float32, made (dt_Float 16 1), made (dt_BFloat 16 1), made (dt_Float8E4M3FN 1), made (dt_Float8E5M2 1)]"

definition kSoftmaxSupportedDTypes :: "data_type list" where
  "kSoftmaxSupportedDTypes = [made dt_Float32, made (dt_Float 16 1), made (dt_BFloat 16 1)]"

text \<open>\<open>std::ranges::any_of\<close> with \<open>operator==\<close>: the body of every \<open>Is...SupportedDType\<close>.\<close>

primrec any_dtype :: "data_type list \<Rightarrow> data_type \<Rightarrow> bool result" where
  "any_dtype [] d = Inr False"
| "any_dtype (supported # rest) d =
     and_then (dtype_eq d supported) (\<lambda>b. if b then Inr True else any_dtype rest d)"

definition IsAddSupportedDType :: "data_type \<Rightarrow> bool result" where "IsAddSupportedDType = any_dtype kAddSupportedDTypes"
definition IsArgmaxSupportedDType :: "data_type \<Rightarrow> bool result" where "IsArgmaxSupportedDType = any_dtype kArgmaxSupportedDTypes"
definition IsAttentionSupportedDType :: "data_type \<Rightarrow> bool result" where "IsAttentionSupportedDType = any_dtype kAttentionSupportedDTypes"
definition IsElementwiseMulSupportedDType :: "data_type \<Rightarrow> bool result" where "IsElementwiseMulSupportedDType = any_dtype kElementwiseMulSupportedDTypes"
definition IsSupportedTokenIdDType :: "data_type \<Rightarrow> bool result" where "IsSupportedTokenIdDType = any_dtype kEmbeddingSupportedTokenIdDTypes"
definition IsEmbeddingSupportedWeightDType :: "data_type \<Rightarrow> bool result" where "IsEmbeddingSupportedWeightDType = any_dtype kEmbeddingSupportedWeightDTypes"
definition IsKVCacheUpdateSupportedDType :: "data_type \<Rightarrow> bool result" where "IsKVCacheUpdateSupportedDType = any_dtype kKVCacheUpdateSupportedDTypes"
definition IsLinearSupportedActivationDType :: "data_type \<Rightarrow> bool result" where "IsLinearSupportedActivationDType = any_dtype kLinearSupportedActivationDTypes"
definition IsLinearSupportedWeightDType :: "data_type \<Rightarrow> bool result" where "IsLinearSupportedWeightDType = any_dtype kLinearSupportedWeightDTypes"
definition IsMatMulSupportedDType :: "data_type \<Rightarrow> bool result" where "IsMatMulSupportedDType = any_dtype kMatMulSupportedDTypes"
definition IsRmsNormSupportedDType :: "data_type \<Rightarrow> bool result" where "IsRmsNormSupportedDType = any_dtype kRmsNormSupportedDTypes"
definition IsRoPESupportedDType :: "data_type \<Rightarrow> bool result" where "IsRoPESupportedDType = any_dtype kRoPESupportedDTypes"
definition IsSiluMulSupportedDType :: "data_type \<Rightarrow> bool result" where "IsSiluMulSupportedDType = any_dtype kSiluMulSupportedDTypes"
definition IsSiluSupportedDType :: "data_type \<Rightarrow> bool result" where "IsSiluSupportedDType = any_dtype kSiluSupportedDTypes"
definition IsSoftmaxSupportedDType :: "data_type \<Rightarrow> bool result" where "IsSoftmaxSupportedDType = any_dtype kSoftmaxSupportedDTypes"

section \<open>Properties of the tables\<close>

definition fixed_length :: "data_type \<Rightarrow> bool" where
  "fixed_length d \<longleftrightarrow> signed_lanes d \<ge> 0"

lemmas made_defs = made_def dt_Float32_def dt_Double_def dt_BFloat_def dt_Float_def dt_Int_def dt_UInt_def
  dt_Float8E4M3FN_def dt_Float8E5M2_def DataType_ctor_def ValidateCodeBitsConsistency_def check_def

lemmas supported_defs = kAddSupportedDTypes_def kArgmaxSupportedDTypes_def kAttentionSupportedDTypes_def
  kElementwiseMulSupportedDTypes_def kEmbeddingSupportedTokenIdDTypes_def kEmbeddingSupportedWeightDTypes_def
  kKVCacheUpdateSupportedDTypes_def kLinearSupportedActivationDTypes_def kLinearSupportedWeightDTypes_def
  kMatMulSupportedDTypes_def kRmsNormSupportedDTypes_def kRoPESupportedDTypes_def kSiluMulSupportedDTypes_def
  kSiluSupportedDTypes_def kSoftmaxSupportedDTypes_def

lemma fixed_made [simp]:
  "fixed_length (made dt_Float32)" "fixed_length (made dt_Double)" "fixed_length (made (dt_BFloat 16 1))"
  "fixed_length (made (dt_Float 16 1))" "fixed_length (made (dt_Int 4 1))" "fixed_length (made (dt_Int 8 1))"
  "fixed_length (made (dt_Int 32 1))" "fixed_length (made (dt_Int 64 1))" "fixed_length (made (dt_UInt 32 1))"
  "fixed_length (made (dt_Float8E4M3FN 1))" "fixed_length (made (dt_Float8E5M2 1))"
  by (simp_all add: made_defs fixed_length_def)

lemma supported_fixed:
  "list_all fixed_length kAddSupportedDTypes" "list_all fixed_length kArgmaxSupportedDTypes"
  "list_all fixed_length kAttentionSupportedDTypes" "list_all fixed_length kElementwiseMulSupportedDTypes"
  "list_all fixed_length kEmbeddingSupportedTokenIdDTypes" "list_all fixed_length kEmbeddingSupportedWeightDTypes"
  "list_all fixed_length kKVCacheUpdateSupportedDTypes" "list_all fixed_length kLinearSupportedActivationDTypes"
  "list_all fixed_length kLinearSupportedWeightDTypes" "list_all fixed_length kMatMulSupportedDTypes"
  "list_all fixed_length kRmsNormSupportedDTypes" "list_all fixed_length kRoPESupportedDTypes"
  "list_all fixed_length kSiluMulSupportedDTypes" "list_all fixed_length kSiluSupportedDTypes"
  "list_all fixed_length kSoftmaxSupportedDTypes"
  by (simp_all add: supported_defs)

lemma dtype_eq_total: "fixed_length a \<Longrightarrow> fixed_length b \<Longrightarrow> \<exists>r. dtype_eq a b = Inr r"
  by (auto simp: dtype_eq_def lanes_def fixed_length_def)

lemma any_dtype_total: "fixed_length d \<Longrightarrow> list_all fixed_length ds \<Longrightarrow> \<exists>r. any_dtype ds d = Inr r"
proof (induction ds)
  case (Cons a ds)
  then obtain r where "dtype_eq d a = Inr r" using dtype_eq_total by fastforce
  then show ?case using Cons by (cases r) auto
qed auto

lemmas supported_preds = IsAddSupportedDType_def IsArgmaxSupportedDType_def IsAttentionSupportedDType_def IsElementwiseMulSupportedDType_def
  IsSupportedTokenIdDType_def IsEmbeddingSupportedWeightDType_def IsKVCacheUpdateSupportedDType_def IsLinearSupportedActivationDType_def
  IsLinearSupportedWeightDType_def IsMatMulSupportedDType_def IsRmsNormSupportedDType_def IsRoPESupportedDType_def
  IsSiluMulSupportedDType_def IsSiluSupportedDType_def IsSoftmaxSupportedDType_def

lemma supported_total:
  assumes "fixed_length d"
  shows "\<exists>r. IsAddSupportedDType d = Inr r" "\<exists>r. IsArgmaxSupportedDType d = Inr r" "\<exists>r. IsAttentionSupportedDType d = Inr r"
    "\<exists>r. IsElementwiseMulSupportedDType d = Inr r" "\<exists>r. IsSupportedTokenIdDType d = Inr r" "\<exists>r. IsEmbeddingSupportedWeightDType d = Inr r"
    "\<exists>r. IsKVCacheUpdateSupportedDType d = Inr r" "\<exists>r. IsLinearSupportedActivationDType d = Inr r" "\<exists>r. IsLinearSupportedWeightDType d = Inr r"
    "\<exists>r. IsMatMulSupportedDType d = Inr r" "\<exists>r. IsRmsNormSupportedDType d = Inr r" "\<exists>r. IsRoPESupportedDType d = Inr r"
    "\<exists>r. IsSiluMulSupportedDType d = Inr r" "\<exists>r. IsSiluSupportedDType d = Inr r" "\<exists>r. IsSoftmaxSupportedDType d = Inr r"
  unfolding supported_preds using any_dtype_total [OF assms] supported_fixed by blast+

text \<open>Arity of every operator.\<close>

definition arity :: "op_type \<Rightarrow> nat" where
  "arity op =
     (if op \<in> {kRoPE, kAttention} then 3 else if op = kKVCacheUpdate then 4
      else if op \<in> {kSoftmax, kSilu, kArgmax, kReshape, kPermute, kReorder} then 1 else 2)"

lemma schema_arity: "op \<noteq> op_type.kUnknown \<Longrightarrow> \<exists>s. GetOperatorSchema op = Inr s \<and> length (input_ports s) = arity op"
  by (cases op) (simp_all add: GetOperatorSchema_def kOperatorSchemas_def OperatorSchema_def arity_def)

lemma input_count:
  "op \<noteq> op_type.kUnknown \<Longrightarrow>
    ValidateInferenceInputCount op inputs = (if length inputs = arity op then Inr () else InvalidArgument)"
proof -
  assume "op \<noteq> op_type.kUnknown"
  then obtain s where "GetOperatorSchema op = Inr s" "length (input_ports s) = arity op" using schema_arity by blast
  then show ?thesis by (simp add: ValidateInferenceInputCount_def)
qed

end
