(* ===== verification/Operator_Inference.thy ===== *)
theory Operator_Inference
  imports Operator_Schema
begin

text \<open>
  Shape and type inference of the operators: the \<open>Infer...\<close> functions of \<open>src/operators/\<close> and their
  dispatch in \<open>operator_inference.cpp\<close>.  Each returns the specifications of the outputs and the
  constraints to check at run time.  An access \<open>shape[i]\<close> is \<open>dim_at\<close>, whose check may fail.
\<close>

section \<open>Common parts\<close>

definition require :: "bool \<Rightarrow> unit result" where
  "require b = (if b then Inr () else InvalidArgument)"

definition supported :: "(data_type \<Rightarrow> bool result) \<Rightarrow> data_type \<Rightarrow> unit result" where
  "supported p d = and_then (p d) require"

definition same_dtype :: "data_type \<Rightarrow> data_type \<Rightarrow> unit result" where
  "same_dtype a b = and_then (dtype_eq a b) require"

definition input_dim :: "nat \<Rightarrow> nat \<Rightarrow> dim_locator" where
  "input_dim t d = \<lparr>locator_port = \<lparr>direction = kInput, tensor_idx = t\<rparr>, dim_index = d\<rparr>"

text \<open>Two dimensions that must be equal, and one that must be positive: checked now when static,
  otherwise by a constraint at run time.\<close>

definition reconcile :: "shape_symbol \<Rightarrow> shape_symbol \<Rightarrow> dim_locator \<Rightarrow> dim_locator \<Rightarrow> shape_constraint list result" where
  "reconcile a b la lb =
     (if AreProvablyEqual a b then Inr []
      else if IsStatic a \<and> IsStatic b then InvalidArgument
      else Inr [DimEqualConstraint la lb])"

definition positive_or_check :: "shape_symbol \<Rightarrow> dim_locator \<Rightarrow> shape_constraint list result" where
  "positive_or_check d l =
     (if IsStatic d then and_then (require (dim_value d > 0)) (\<lambda>_. Inr []) else Inr [DimPositiveConstraint l])"

definition broadcast_checks :: "symbolic_broadcast \<Rightarrow> shape_constraint list" where
  "broadcast_checks b =
     map (\<lambda>x. DimBroadcastableConstraint (input_dim 0 (lhs_axis x)) (input_dim 1 (rhs_axis x))) (deferred_axes b)"

definition one_output :: "data_type \<Rightarrow> symbolic_shape \<Rightarrow> shape_constraint list \<Rightarrow> inference_result" where
  "one_output d s cs = \<lparr>outputs = [\<lparr>spec_dtype = d, spec_shape = s\<rparr>], runtime_checks = cs\<rparr>"

text \<open>\<open>!rank.has_value() || *rank < n\<close>.\<close>

definition rank_at_least :: "symbolic_shape \<Rightarrow> nat \<Rightarrow> nat result" where
  "rank_at_least s n = (case rank s of Some r \<Rightarrow> if r < n then InvalidArgument else Inr r | None \<Rightarrow> InvalidArgument)"

section \<open>Elementwise operators\<close>

definition InferAdd :: "op_params \<Rightarrow> tensor_spec list \<Rightarrow> inference_result result" where
  "InferAdd params inputs =
     (case params of
        AddParams \<Rightarrow>
          and_then (ValidateInferenceInputCount kAdd inputs) (\<lambda>_.
          let lhs_spec = inputs ! 0; rhs_spec = inputs ! 1 in
          and_then (same_dtype (spec_dtype lhs_spec) (spec_dtype rhs_spec)) (\<lambda>_.
          and_then (supported IsAddSupportedDType (spec_dtype lhs_spec)) (\<lambda>_.
          and_then (InferBroadcastShape (spec_shape lhs_spec) (spec_shape rhs_spec)) (\<lambda>b.
            Inr (one_output (spec_dtype lhs_spec) (output_shape b) (broadcast_checks b))))))
      | _ \<Rightarrow> InvalidArgument)"

definition InferSiluMul :: "op_params \<Rightarrow> tensor_spec list \<Rightarrow> inference_result result" where
  "InferSiluMul params inputs =
     (case params of
        SiluMulParams \<Rightarrow>
          and_then (ValidateInferenceInputCount kSiluMul inputs) (\<lambda>_.
          let gate = inputs ! 0; up = inputs ! 1 in
          and_then (same_dtype (spec_dtype gate) (spec_dtype up)) (\<lambda>_.
          and_then (supported IsSiluMulSupportedDType (spec_dtype gate)) (\<lambda>_.
          and_then (InferBroadcastShape (spec_shape gate) (spec_shape up)) (\<lambda>b.
            Inr (one_output (spec_dtype gate) (output_shape b) (broadcast_checks b))))))
      | _ \<Rightarrow> InvalidArgument)"

definition InferElementwiseMul :: "op_params \<Rightarrow> tensor_spec list \<Rightarrow> inference_result result" where
  "InferElementwiseMul params inputs =
     (case params of
        ElementwiseMulParams \<Rightarrow>
          and_then (ValidateInferenceInputCount kElementwiseMul inputs) (\<lambda>_.
          let lhs_spec = inputs ! 0; rhs_spec = inputs ! 1 in
          and_then (supported IsElementwiseMulSupportedDType (spec_dtype lhs_spec)) (\<lambda>_.
          and_then (supported IsElementwiseMulSupportedDType (spec_dtype rhs_spec)) (\<lambda>_.
          and_then (InferBroadcastShape (spec_shape lhs_spec) (spec_shape rhs_spec)) (\<lambda>b.
            Inr (one_output (spec_dtype lhs_spec) (output_shape b) (broadcast_checks b))))))
      | _ \<Rightarrow> InvalidArgument)"

definition InferSilu :: "op_params \<Rightarrow> tensor_spec list \<Rightarrow> inference_result result" where
  "InferSilu params inputs =
     (case params of
        SiluParams \<Rightarrow>
          and_then (ValidateInferenceInputCount kSilu inputs) (\<lambda>_.
          and_then (supported IsSiluSupportedDType (spec_dtype (inputs ! 0))) (\<lambda>_.
            Inr \<lparr>outputs = [inputs ! 0], runtime_checks = []\<rparr>))
      | _ \<Rightarrow> InvalidArgument)"

definition InferSoftmax :: "op_params \<Rightarrow> tensor_spec list \<Rightarrow> inference_result result" where
  "InferSoftmax params inputs =
     (case params of
        SoftmaxParams _ \<Rightarrow>
          and_then (ValidateInferenceInputCount kSoftmax inputs) (\<lambda>_.
          and_then (supported IsSoftmaxSupportedDType (spec_dtype (inputs ! 0))) (\<lambda>_.
            Inr \<lparr>outputs = [inputs ! 0], runtime_checks = []\<rparr>))
      | _ \<Rightarrow> InvalidArgument)"

definition InferReorder :: "op_params \<Rightarrow> tensor_spec list \<Rightarrow> inference_result result" where
  "InferReorder params inputs =
     (case params of
        ReorderParams \<Rightarrow>
          and_then (ValidateInferenceInputCount kReorder inputs) (\<lambda>_.
            Inr \<lparr>outputs = [inputs ! 0], runtime_checks = []\<rparr>)
      | _ \<Rightarrow> InvalidArgument)"

section \<open>Normalisation, embedding and matrix products\<close>

definition InferRmsNorm :: "op_params \<Rightarrow> tensor_spec list \<Rightarrow> inference_result result" where
  "InferRmsNorm params inputs =
     (case params of
        RmsNormParams eps \<Rightarrow>
          and_then (require (finite_positive eps)) (\<lambda>_.
          and_then (ValidateInferenceInputCount kRmsNorm inputs) (\<lambda>_.
          let input_spec = inputs ! 0; weight_spec = inputs ! 1 in
          and_then (supported IsRmsNormSupportedDType (spec_dtype input_spec)) (\<lambda>_.
          and_then (supported IsRmsNormSupportedDType (spec_dtype weight_spec)) (\<lambda>_.
          and_then (rank_at_least (spec_shape input_spec) 1) (\<lambda>r.
          and_then (dim_at (spec_shape input_spec) (r - 1)) (\<lambda>hidden_size.
          and_then (positive_or_check hidden_size (input_dim 0 (r - 1))) (\<lambda>positive.
          and_then (require (HasRank (spec_shape weight_spec) 1)) (\<lambda>_.
          and_then (dim_at (spec_shape weight_spec) 0) (\<lambda>weight_len.
          and_then (reconcile hidden_size weight_len (input_dim 0 (r - 1)) (input_dim 1 0)) (\<lambda>equal.
            Inr \<lparr>outputs = [input_spec], runtime_checks = positive @ equal\<rparr>))))))))))
      | _ \<Rightarrow> InvalidArgument)"

definition InferEmbedding :: "op_params \<Rightarrow> tensor_spec list \<Rightarrow> inference_result result" where
  "InferEmbedding params inputs =
     (case params of
        EmbeddingParams \<Rightarrow>
          and_then (ValidateInferenceInputCount kEmbedding inputs) (\<lambda>_.
          let input_ids_spec = inputs ! 0; weight_spec = inputs ! 1;
              input_ids_shape = spec_shape input_ids_spec; weight_shape = spec_shape weight_spec in
          and_then (supported IsSupportedTokenIdDType (spec_dtype input_ids_spec)) (\<lambda>_.
          and_then (supported IsEmbeddingSupportedWeightDType (spec_dtype weight_spec)) (\<lambda>_.
          and_then (rank_at_least input_ids_shape 1) (\<lambda>input_rank.
          and_then (require (HasRank weight_shape 2)) (\<lambda>_.
          and_then (traverse (\<lambda>i. and_then (dim_at weight_shape i) (\<lambda>dim. positive_or_check dim (input_dim 1 i))) [0..<2]) (\<lambda>checks.
          and_then (traverse (dim_at input_ids_shape) [0..<input_rank]) (\<lambda>dims.
          and_then (dim_at weight_shape 1) (\<lambda>hidden.
            Inr (one_output (spec_dtype weight_spec) (Some (dims @ [hidden])) (concat checks))))))))))
      | _ \<Rightarrow> InvalidArgument)"

definition InferLinear :: "op_params \<Rightarrow> tensor_spec list \<Rightarrow> inference_result result" where
  "InferLinear params inputs =
     (case params of
        LinearParams \<Rightarrow>
          and_then (ValidateInferenceInputCount op_type.kLinear inputs) (\<lambda>_.
          let input_spec = inputs ! 0; weight_spec = inputs ! 1;
              input_shape = spec_shape input_spec; weight_shape = spec_shape weight_spec in
          and_then (rank_at_least input_shape 1) (\<lambda>input_rank.
          and_then (require (HasRank weight_shape 2)) (\<lambda>_.
          and_then (supported IsLinearSupportedActivationDType (spec_dtype input_spec)) (\<lambda>_.
          and_then (supported IsLinearSupportedWeightDType (spec_dtype weight_spec)) (\<lambda>_.
          and_then (dim_at input_shape (input_rank - 1)) (\<lambda>in_features.
          and_then (dim_at weight_shape 0) (\<lambda>out_features.
          and_then (dim_at weight_shape 1) (\<lambda>weight_in.
          and_then (reconcile in_features weight_in (input_dim 0 (input_rank - 1)) (input_dim 1 1)) (\<lambda>checks.
          and_then (traverse (dim_at input_shape) [0..<input_rank - 1]) (\<lambda>dims.
            Inr (one_output (spec_dtype input_spec) (Some (dims @ [out_features])) checks)))))))))))
      | _ \<Rightarrow> InvalidArgument)"

text \<open>\<open>RhsAxes\<close> is the pair of the inner and the outer axis.\<close>

definition ResolveRhsAxes :: "bool \<Rightarrow> nat \<Rightarrow> nat \<times> nat" where
  "ResolveRhsAxes transpose_rhs rhs_rank =
     (if transpose_rhs then (rhs_rank - 1, rhs_rank - 2) else (rhs_rank - 2, rhs_rank - 1))"

definition MakeBatchShape :: "symbolic_shape \<Rightarrow> nat \<Rightarrow> symbolic_shape result" where
  "MakeBatchShape shape r = and_then (traverse (dim_at shape) [0..<r - 2]) (\<lambda>ds. Inr (Some ds))"

definition InferMatMul :: "op_params \<Rightarrow> tensor_spec list \<Rightarrow> inference_result result" where
  "InferMatMul params inputs =
     (case params of
        MatMulParams transpose_rhs \<Rightarrow>
          and_then (ValidateInferenceInputCount kMatMul inputs) (\<lambda>_.
          let lhs_spec = inputs ! 0; rhs_spec = inputs ! 1;
              lhs_shape = spec_shape lhs_spec; rhs_shape = spec_shape rhs_spec in
          and_then (supported IsMatMulSupportedDType (spec_dtype lhs_spec)) (\<lambda>_.
          and_then (supported IsMatMulSupportedDType (spec_dtype rhs_spec)) (\<lambda>_.
          and_then (rank_at_least lhs_shape 2) (\<lambda>lhs_rank.
          and_then (rank_at_least rhs_shape 2) (\<lambda>rhs_rank.
          let (inner, outer) = ResolveRhsAxes transpose_rhs rhs_rank in
          and_then (dim_at lhs_shape (lhs_rank - 1)) (\<lambda>lhs_inner_dim.
          and_then (dim_at rhs_shape inner) (\<lambda>rhs_inner_dim.
          and_then (dim_at lhs_shape (lhs_rank - 2)) (\<lambda>lhs_outer.
          and_then (dim_at rhs_shape outer) (\<lambda>rhs_outer.
          and_then (MakeBatchShape lhs_shape lhs_rank) (\<lambda>lhs_batch.
          and_then (MakeBatchShape rhs_shape rhs_rank) (\<lambda>rhs_batch.
          and_then (InferBroadcastShape lhs_batch rhs_batch) (\<lambda>b.
          and_then (case output_shape b of Some ds \<Rightarrow> Inr ds | None \<Rightarrow> Inl Check_Failed) (\<lambda>ds.
          and_then (reconcile lhs_inner_dim rhs_inner_dim (input_dim 0 (lhs_rank - 1)) (input_dim 1 inner)) (\<lambda>checks.
            Inr (one_output (spec_dtype lhs_spec) (Some (ds @ [lhs_outer, rhs_outer])) (checks @ broadcast_checks b))))))))))))))))
      | _ \<Rightarrow> InvalidArgument)"

section \<open>Attention\<close>

definition ValidateRoPEParams :: "rope_params \<Rightarrow> unit result" where
  "ValidateRoPEParams p =
     and_then (require (rope_head_dim p > 0)) (\<lambda>_.
     and_then (require (rope_num_attention_heads p > 0)) (\<lambda>_.
     and_then (require (rope_num_key_value_heads p > 0)) (\<lambda>_.
     and_then (require (rope_max_position_embeddings p > 0)) (\<lambda>_.
     and_then (require (rope_head_dim p mod 2 = 0)) (\<lambda>_.
     and_then (require (finite_positive (rope_theta p))) (\<lambda>_.
     and_then (require (\<not> fst (CheckOverflowMul_s (word_of_int (rope_num_attention_heads p) :: u64) (word_of_int (rope_head_dim p))))) (\<lambda>_.
       require (\<not> fst (CheckOverflowMul_s (word_of_int (rope_num_key_value_heads p) :: u64) (word_of_int (rope_head_dim p)))))))))))"

definition ValidateRoPEScaling :: "rope_params \<Rightarrow> unit result" where
  "ValidateRoPEScaling p =
     (case rope_scaling_type p of
        kNone \<Rightarrow> require (rope_scaling_factor p = None)
      | rope_scaling.kLinear \<Rightarrow> require (case rope_scaling_factor p of None \<Rightarrow> False | Some f \<Rightarrow> finite_positive f))"

definition ValidateRoPEDTypes :: "tensor_spec list \<Rightarrow> unit result" where
  "ValidateRoPEDTypes inputs =
     and_then (supported IsRoPESupportedDType (spec_dtype (inputs ! 0))) (\<lambda>_.
     and_then (same_dtype (spec_dtype (inputs ! 1)) (spec_dtype (inputs ! 0))) (\<lambda>_.
     and_then (dt_Int 64 1) (\<lambda>int64. same_dtype (spec_dtype (inputs ! 2)) int64)))"

text \<open>A static width must be the product of heads and head size, in \<open>int64_t\<close>.\<close>

definition width_ok :: "shape_symbol \<Rightarrow> int \<Rightarrow> int \<Rightarrow> bool" where
  "width_ok d heads head_dim \<longleftrightarrow> \<not> IsStatic d \<or> dim_value d = signed_take_bit 63 (heads * head_dim)"

definition ValidateRoPEShapes :: "rope_params \<Rightarrow> tensor_spec list \<Rightarrow> shape_constraint list result" where
  "ValidateRoPEShapes params inputs =
     (let q_shape = spec_shape (inputs ! 0); k_shape = spec_shape (inputs ! 1); pos_shape = spec_shape (inputs ! 2) in
      and_then (require (HasRank q_shape 2)) (\<lambda>_.
      and_then (require (HasRank k_shape 2)) (\<lambda>_.
      and_then (require (HasRank pos_shape 1)) (\<lambda>_.
      and_then (dim_at q_shape 0) (\<lambda>q_seq_len.
      and_then (dim_at q_shape 1) (\<lambda>q_hidden.
      and_then (dim_at k_shape 0) (\<lambda>k_seq_len.
      and_then (dim_at k_shape 1) (\<lambda>kv_hidden.
      and_then (dim_at pos_shape 0) (\<lambda>pos_seq_len.
      and_then (require (width_ok q_hidden (rope_num_attention_heads params) (rope_head_dim params))) (\<lambda>_.
      and_then (require (width_ok kv_hidden (rope_num_key_value_heads params) (rope_head_dim params))) (\<lambda>_.
      and_then (positive_or_check q_seq_len (input_dim 0 0)) (\<lambda>positive.
      and_then (reconcile q_seq_len k_seq_len (input_dim 0 0) (input_dim 1 0)) (\<lambda>equal_k.
      and_then (reconcile q_seq_len pos_seq_len (input_dim 0 0) (input_dim 2 0)) (\<lambda>equal_pos.
        Inr (positive @ equal_k @ equal_pos)))))))))))))))"

definition InferRoPE :: "op_params \<Rightarrow> tensor_spec list \<Rightarrow> inference_result result" where
  "InferRoPE params inputs =
     (case params of
        RoPEParams p \<Rightarrow>
          and_then (ValidateRoPEParams p) (\<lambda>_.
          and_then (ValidateRoPEScaling p) (\<lambda>_.
          and_then (ValidateInferenceInputCount kRoPE inputs) (\<lambda>_.
          and_then (ValidateRoPEDTypes inputs) (\<lambda>_.
          and_then (ValidateRoPEShapes p inputs) (\<lambda>checks.
            Inr \<lparr>outputs = [inputs ! 0, inputs ! 1], runtime_checks = checks\<rparr>)))))
      | _ \<Rightarrow> InvalidArgument)"

definition ValidateAttentionParams :: "attention_params \<Rightarrow> unit result" where
  "ValidateAttentionParams p =
     and_then (require (attn_num_attention_heads p > 0)) (\<lambda>_.
     and_then (require (attn_num_key_value_heads p > 0)) (\<lambda>_.
     and_then (require (attn_head_dim p > 0)) (\<lambda>_.
     and_then (require (attn_num_attention_heads p mod attn_num_key_value_heads p = 0)) (\<lambda>_.
       require (\<not> fst (CheckOverflowMul_s (word_of_int (attn_num_attention_heads p) :: u64) (word_of_int (attn_head_dim p))))))))"

definition ValidateAttentionDTypes :: "tensor_spec list \<Rightarrow> unit result" where
  "ValidateAttentionDTypes inputs =
     and_then (supported IsAttentionSupportedDType (spec_dtype (inputs ! 0))) (\<lambda>_.
     and_then (same_dtype (spec_dtype (inputs ! 1)) (spec_dtype (inputs ! 0))) (\<lambda>_.
       same_dtype (spec_dtype (inputs ! 2)) (spec_dtype (inputs ! 0))))"

text \<open>The loop that compares the shapes of the two caches.\<close>

definition caches_equal :: "symbolic_shape \<Rightarrow> symbolic_shape \<Rightarrow> unit result" where
  "caches_equal k_cache_shape v_cache_shape =
     and_then (traverse (\<lambda>i.
       and_then (dim_at k_cache_shape i) (\<lambda>k. and_then (dim_at v_cache_shape i) (\<lambda>v. require (AreProvablyEqual k v)))) [0..<3])
     (\<lambda>_. Inr ())"

definition ValidateAttentionShapes :: "attention_params \<Rightarrow> tensor_spec list \<Rightarrow> shape_constraint list result" where
  "ValidateAttentionShapes params inputs =
     (let q_shape = spec_shape (inputs ! 0); k_cache_shape = spec_shape (inputs ! 1); v_cache_shape = spec_shape (inputs ! 2) in
      and_then (require (HasRank q_shape 2)) (\<lambda>_.
      and_then (require (HasRank k_cache_shape 3)) (\<lambda>_.
      and_then (require (HasRank v_cache_shape 3)) (\<lambda>_.
      and_then (dim_at q_shape 0) (\<lambda>q_seq_len.
      and_then (dim_at q_shape 1) (\<lambda>q_hidden.
      and_then (dim_at k_cache_shape 0) (\<lambda>kv_heads.
      and_then (dim_at k_cache_shape 1) (\<lambda>cache_len.
      and_then (dim_at k_cache_shape 2) (\<lambda>head_dim.
      and_then (require (width_ok q_hidden (attn_num_attention_heads params) (attn_head_dim params))) (\<lambda>_.
      and_then (require (\<not> IsStatic kv_heads \<or> dim_value kv_heads = attn_num_key_value_heads params)) (\<lambda>_.
      and_then (require (\<not> IsStatic head_dim \<or> dim_value head_dim = attn_head_dim params)) (\<lambda>_.
      and_then (caches_equal k_cache_shape v_cache_shape) (\<lambda>_.
      and_then (require (\<not> IsStatic q_seq_len \<or> dim_value q_seq_len > 0)) (\<lambda>_.
      and_then (require (\<not> IsStatic cache_len \<or> dim_value cache_len \<noteq> 0)) (\<lambda>_.
        Inr (if IsStatic q_seq_len then [] else [DimPositiveConstraint (input_dim 0 0)]))))))))))))))))"

definition InferAttention :: "op_params \<Rightarrow> tensor_spec list \<Rightarrow> inference_result result" where
  "InferAttention params inputs =
     (case params of
        AttentionParams p \<Rightarrow>
          and_then (ValidateAttentionParams p) (\<lambda>_.
          and_then (ValidateInferenceInputCount kAttention inputs) (\<lambda>_.
          and_then (ValidateAttentionDTypes inputs) (\<lambda>_.
          and_then (ValidateAttentionShapes p inputs) (\<lambda>checks.
            Inr \<lparr>outputs = [inputs ! 0], runtime_checks = checks\<rparr>))))
      | _ \<Rightarrow> InvalidArgument)"

definition ValidateKVCacheUpdateDTypes :: "tensor_spec list \<Rightarrow> unit result" where
  "ValidateKVCacheUpdateDTypes inputs =
     (let k = spec_dtype (inputs ! 0) in
      and_then (supported IsKVCacheUpdateSupportedDType k) (\<lambda>_.
      and_then (same_dtype (spec_dtype (inputs ! 1)) k) (\<lambda>_.
      and_then (same_dtype (spec_dtype (inputs ! 2)) k) (\<lambda>_.
        same_dtype (spec_dtype (inputs ! 3)) k))))"

definition ValidateKVCacheUpdateShapes :: "tensor_spec list \<Rightarrow> unit result" where
  "ValidateKVCacheUpdateShapes inputs =
     (let k_shape = spec_shape (inputs ! 0); v_shape = spec_shape (inputs ! 1);
          k_cache_shape = spec_shape (inputs ! 2); v_cache_shape = spec_shape (inputs ! 3) in
      and_then (require (HasRank k_shape 2)) (\<lambda>_.
      and_then (require (HasRank v_shape 2)) (\<lambda>_.
      and_then (require (HasRank k_cache_shape 3)) (\<lambda>_.
      and_then (require (HasRank v_cache_shape 3)) (\<lambda>_.
      and_then (dim_at k_shape 0) (\<lambda>k_t.
      and_then (dim_at k_shape 1) (\<lambda>k_last.
      and_then (dim_at v_shape 0) (\<lambda>v_t.
      and_then (dim_at v_shape 1) (\<lambda>v_last.
      and_then (require (AreProvablyEqual k_t v_t \<and> AreProvablyEqual k_last v_last)) (\<lambda>_.
      and_then (require (IsPositiveIfStatic k_t)) (\<lambda>_.
      and_then (require (IsPositiveIfStatic k_last)) (\<lambda>_.
      and_then (dim_at k_cache_shape 0) (\<lambda>kv_heads.
      and_then (dim_at k_cache_shape 1) (\<lambda>cache_len.
      and_then (dim_at k_cache_shape 2) (\<lambda>head_dim.
      and_then (caches_equal k_cache_shape v_cache_shape) (\<lambda>_.
      and_then (require (IsPositiveIfStatic kv_heads)) (\<lambda>_.
      and_then (require (IsPositiveIfStatic head_dim)) (\<lambda>_.
      and_then (require (IsPositiveIfStatic cache_len)) (\<lambda>_.
      and_then (require (\<not> (IsStatic k_t \<and> IsStatic cache_len \<and> dim_value k_t > dim_value cache_len))) (\<lambda>_.
        require (\<not> (IsStatic kv_heads \<and> IsStatic head_dim \<and> IsStatic k_last \<and>
          dim_value k_last \<noteq> signed_take_bit 63 (dim_value kv_heads * dim_value head_dim)))))))))))))))))))))))"

definition InferKVCacheUpdate :: "op_params \<Rightarrow> tensor_spec list \<Rightarrow> inference_result result" where
  "InferKVCacheUpdate params inputs =
     (case params of
        KVCacheUpdateParams \<Rightarrow>
          and_then (ValidateInferenceInputCount kKVCacheUpdate inputs) (\<lambda>_.
          and_then (ValidateKVCacheUpdateDTypes inputs) (\<lambda>_.
          and_then (ValidateKVCacheUpdateShapes inputs) (\<lambda>_.
            Inr \<lparr>outputs = [inputs ! 2, inputs ! 3], runtime_checks = []\<rparr>)))
      | _ \<Rightarrow> InvalidArgument)"

section \<open>Axes\<close>

definition InferArgmax :: "op_params \<Rightarrow> tensor_spec list \<Rightarrow> inference_result result" where
  "InferArgmax params inputs =
     (case params of
        ArgmaxParams param_axis \<Rightarrow>
          and_then (ValidateInferenceInputCount kArgmax inputs) (\<lambda>_.
          let input_spec = inputs ! 0 in
          and_then (supported IsArgmaxSupportedDType (spec_dtype input_spec)) (\<lambda>_.
          and_then (dt_Int 64 1) (\<lambda>int64.
            case rank (spec_shape input_spec) of
              None \<Rightarrow> Inr (one_output int64 None [])
            | Some r \<Rightarrow>
                let axis = (if param_axis < 0 then param_axis + int r else param_axis) in
                if axis < 0 \<or> nat axis \<ge> r then InvalidArgument
                else and_then (traverse (dim_at (spec_shape input_spec)) (filter (\<lambda>i. int i \<noteq> axis) [0..<r])) (\<lambda>dims.
                  Inr (one_output int64 (Some dims) [])))))
      | _ \<Rightarrow> InvalidArgument)"

text \<open>\<open>std::ranges::adjacent_find\<close> on the sorted permutation.\<close>

fun adjacent_equal :: "nat list \<Rightarrow> bool" where
  "adjacent_equal (x # y # zs) \<longleftrightarrow> x = y \<or> adjacent_equal (y # zs)"
| "adjacent_equal _ \<longleftrightarrow> False"

definition InferPermute :: "op_params \<Rightarrow> tensor_spec list \<Rightarrow> inference_result result" where
  "InferPermute params inputs =
     (case params of
        PermuteParams permutation \<Rightarrow>
          and_then (require (\<not> adjacent_equal (sort permutation))) (\<lambda>_.
          and_then (ValidateInferenceInputCount kPermute inputs) (\<lambda>_.
          let input = inputs ! 0 in
          and_then (rank_at_least (spec_shape input) 0) (\<lambda>input_rank.
          and_then (require (length permutation = input_rank)) (\<lambda>_.
          and_then (require (list_all (\<lambda>axis. axis < input_rank) permutation)) (\<lambda>_.
          and_then (traverse (dim_at (spec_shape input)) permutation) (\<lambda>dims.
            Inr (one_output (spec_dtype input) (Some dims) [])))))))
      | _ \<Rightarrow> InvalidArgument)"

section \<open>Shapes of the operators\<close>

text \<open>The specification: the output shapes of an operator on concrete input shapes, none when the
  shapes do not fit the operator.\<close>

definition broadcast_result :: "int list \<Rightarrow> int list \<Rightarrow> int list list option" where
  "broadcast_result a b = (case BroadcastShapes a b of Inr out \<Rightarrow> Some [out] | Inl _ \<Rightarrow> None)"

definition matmul_result :: "bool \<Rightarrow> int list \<Rightarrow> int list \<Rightarrow> int list list option" where
  "matmul_result t a b =
     (let n = length a; m = length b; k = (if t then b ! (m - 1) else b ! (m - 2)); c = (if t then b ! (m - 2) else b ! (m - 1)) in
      if n \<ge> 2 \<and> m \<ge> 2 \<and> a ! (n - 1) = k
      then case BroadcastShapes (take (n - 2) a) (take (m - 2) b) of
             Inr batch \<Rightarrow> Some [batch @ [a ! (n - 2), c]] | Inl _ \<Rightarrow> None
      else None)"

definition argmax_result :: "int \<Rightarrow> int list \<Rightarrow> int list list option" where
  "argmax_result axis x =
     (let k = (if axis < 0 then axis + int (length x) else axis) in
      if 0 \<le> k \<and> k < int (length x) then Some [take (nat k) x @ drop (nat k + 1) x] else None)"

definition permute_result :: "nat list \<Rightarrow> int list \<Rightarrow> int list list option" where
  "permute_result p x = (if distinct p \<and> set p = {..<length x} then Some [map ((!) x) p] else None)"

definition rmsnorm_result :: "int list \<Rightarrow> int list \<Rightarrow> int list list option" where
  "rmsnorm_result x w = (if x \<noteq> [] \<and> length w = 1 \<and> last x > 0 \<and> last x = w ! 0 then Some [x] else None)"

definition embedding_result :: "int list \<Rightarrow> int list \<Rightarrow> int list list option" where
  "embedding_result ids w = (if ids \<noteq> [] \<and> length w = 2 \<and> w ! 0 > 0 \<and> w ! 1 > 0 then Some [ids @ [w ! 1]] else None)"

definition linear_result :: "int list \<Rightarrow> int list \<Rightarrow> int list list option" where
  "linear_result x w = (if x \<noteq> [] \<and> length w = 2 \<and> last x = w ! 1 then Some [butlast x @ [w ! 0]] else None)"

definition rope_result :: "int list \<Rightarrow> int list \<Rightarrow> int list \<Rightarrow> int list list option" where
  "rope_result q k p =
     (if length q = 2 \<and> length k = 2 \<and> length p = 1 \<and> q ! 0 > 0 \<and> q ! 0 = k ! 0 \<and> q ! 0 = p ! 0 then Some [q, k] else None)"

definition attention_result :: "int list \<Rightarrow> int list \<Rightarrow> int list \<Rightarrow> int list list option" where
  "attention_result q kc vc = (if length q = 2 \<and> length kc = 3 \<and> kc = vc \<and> q ! 0 > 0 then Some [q] else None)"

definition kvcache_result :: "int list \<Rightarrow> int list \<Rightarrow> int list \<Rightarrow> int list \<Rightarrow> int list list option" where
  "kvcache_result k v kc vc = (if length k = 2 \<and> k = v \<and> length kc = 3 \<and> kc = vc then Some [kc, vc] else None)"

definition op_result :: "op_type \<Rightarrow> op_params \<Rightarrow> int list list \<Rightarrow> int list list option" where
  "op_result op params ins =
     (if length ins \<noteq> arity op then None
      else case op of
        kAdd \<Rightarrow> broadcast_result (ins ! 0) (ins ! 1)
      | kSiluMul \<Rightarrow> broadcast_result (ins ! 0) (ins ! 1)
      | kElementwiseMul \<Rightarrow> broadcast_result (ins ! 0) (ins ! 1)
      | kSilu \<Rightarrow> Some [ins ! 0]
      | kSoftmax \<Rightarrow> Some [ins ! 0]
      | kReorder \<Rightarrow> Some [ins ! 0]
      | kRmsNorm \<Rightarrow> rmsnorm_result (ins ! 0) (ins ! 1)
      | kEmbedding \<Rightarrow> embedding_result (ins ! 0) (ins ! 1)
      | op_type.kLinear \<Rightarrow> linear_result (ins ! 0) (ins ! 1)
      | kMatMul \<Rightarrow> (case params of MatMulParams t \<Rightarrow> matmul_result t (ins ! 0) (ins ! 1) | _ \<Rightarrow> None)
      | kRoPE \<Rightarrow> rope_result (ins ! 0) (ins ! 1) (ins ! 2)
      | kAttention \<Rightarrow> attention_result (ins ! 0) (ins ! 1) (ins ! 2)
      | kKVCacheUpdate \<Rightarrow> kvcache_result (ins ! 0) (ins ! 1) (ins ! 2) (ins ! 3)
      | kArgmax \<Rightarrow> (case params of ArgmaxParams axis \<Rightarrow> argmax_result axis (ins ! 0) | _ \<Rightarrow> None)
      | kPermute \<Rightarrow> (case params of PermuteParams p \<Rightarrow> permute_result p (ins ! 0) | _ \<Rightarrow> None)
      | _ \<Rightarrow> None)"

text \<open>An inference is exact for an operator: on every shape that the inputs describe, the run-time
  checks pass exactly when the operator is defined, and then the inferred shapes describe its outputs.\<close>

definition exact :: "op_type \<Rightarrow> op_params \<Rightarrow> tensor_spec list \<Rightarrow> inference_result \<Rightarrow> bool" where
  "exact op params inputs res \<longleftrightarrow>
     (\<forall>\<sigma> ins outs. describes \<sigma> (map spec_shape inputs) ins \<longrightarrow>
        (ValidateShapeConstraints (runtime_checks res) ins outs = Inr () \<longleftrightarrow> op_result op params ins \<noteq> None) \<and>
        (\<forall>r. op_result op params ins = Some r \<longrightarrow> describes \<sigma> (map spec_shape (outputs res)) r))"

lemma exactI:
  assumes "\<And>\<sigma> ins outs. describes \<sigma> (map spec_shape inputs) ins \<Longrightarrow>
        (ValidateShapeConstraints (runtime_checks res) ins outs = Inr () \<longleftrightarrow> op_result op params ins \<noteq> None) \<and>
        (\<forall>r. op_result op params ins = Some r \<longrightarrow> describes \<sigma> (map spec_shape (outputs res)) r)"
  shows "exact op params inputs res"
  using assms unfolding exact_def by blast

section \<open>Run-time checks\<close>

lemma require_eq [simp]: "require b = Inr u \<longleftrightarrow> b"
  by (simp add: require_def)

lemma describes_simps [simp]:
  "describes \<sigma> [] vs \<longleftrightarrow> vs = []"
  "describes \<sigma> (s # ss) vs \<longleftrightarrow> (\<exists>v ws. vs = v # ws \<and> shape_denotes \<sigma> s v \<and> describes \<sigma> ss ws)"
  by (auto simp: describes_def list_all2_Cons1)

lemma validate_iff:
  "ValidateShapeConstraints cs ins outs = Inr () \<longleftrightarrow> (\<forall>c \<in> set cs. EvaluateRuntimeConstraint c ins outs = Inr kSatisfied)"
proof (induction cs)
  case (Cons c cs)
  show ?case
  proof (cases "EvaluateRuntimeConstraint c ins outs")
    case (Inr ev)
    then show ?thesis using Cons by (cases ev) auto
  qed simp
qed simp

lemma validate_append:
  "ValidateShapeConstraints (cs @ ds) ins outs = Inr () \<longleftrightarrow>
     ValidateShapeConstraints cs ins outs = Inr () \<and> ValidateShapeConstraints ds ins outs = Inr ()"
  by (auto simp: validate_iff)

lemma resolve_input [simp]:
  "t < length ins \<Longrightarrow> d < length (ins ! t) \<Longrightarrow> ResolveRuntimeDim (input_dim t d) ins outs = Inr (ins ! t ! d)"
  by (simp add: ResolveRuntimeDim_def ResolveTensor_def input_dim_def)

lemma reconcile_checks:
  assumes "reconcile a b (input_dim t i) (input_dim u j) = Inr cs"
    and "denotes \<sigma> a (ins ! t ! i)" and "denotes \<sigma> b (ins ! u ! j)"
    and "t < length ins" and "u < length ins" and "i < length (ins ! t)" and "j < length (ins ! u)"
  shows "ValidateShapeConstraints cs ins outs = Inr () \<longleftrightarrow> ins ! t ! i = ins ! u ! j"
proof (cases "AreProvablyEqual a b")
  case True
  then show ?thesis using assms provably_equal_denotes by (auto simp: reconcile_def)
next
  case False
  then have "cs = [DimEqualConstraint (input_dim t i) (input_dim u j)]" using assms(1) by (auto simp: reconcile_def split: if_splits)
  then show ?thesis using assms(4-7) by (simp add: validate_iff eval_runtime_pair_def EvaluateRuntimeDimEqual_def)
qed

lemma positive_checks:
  assumes "positive_or_check d (input_dim t i) = Inr cs" and "denotes \<sigma> d (ins ! t ! i)"
    and "t < length ins" and "i < length (ins ! t)"
  shows "ValidateShapeConstraints cs ins outs = Inr () \<longleftrightarrow> ins ! t ! i > 0"
  using assms by (auto simp: positive_or_check_def validate_iff EvaluateRuntimeDimPositive_def denotes_static split: if_splits)

lemma deferred_in_range:
  assumes "InferBroadcastShape (Some l) (Some r) = Inr b" and "x \<in> set (deferred_axes b)"
  shows "lhs_axis x < length l \<and> rhs_axis x < length r"
proof -
  let ?n = "max (length l) (length r)"
  let ?f = "infer_axis (Some l) (Some r) (?n - length l) (?n - length r)"
  obtain axes where ax: "traverse ?f [0..<?n] = Inr axes" and b: "b = \<lparr>output_shape = Some (map fst axes), deferred_axes = concat (map snd axes)\<rparr>"
    using assms(1) by (auto simp: InferBroadcastShape_def rank_def Let_def)
  obtain y where y: "y \<in> set axes" "x \<in> set (snd y)" using assms(2) by (auto simp: b)
  then obtain i where i: "i < length axes" "x \<in> set (snd (axes ! i))" by (metis in_set_conv_nth)
  have "?f i = Inr (axes ! i)" using ax i(1) by (auto simp: traverse_eq_Inr)
  then show ?thesis using i(2)
    by (cases "axes ! i") (auto simp: infer_axis_def dim_at_def split: if_splits prod.splits)
qed

lemma broadcast_checks_iff:
  assumes "\<And>x. x \<in> set (deferred_axes b) \<Longrightarrow> lhs_axis x < length p \<and> rhs_axis x < length q"
  shows "ValidateShapeConstraints (broadcast_checks b) [p, q] outs = Inr () \<longleftrightarrow>
    (\<forall>x \<in> set (deferred_axes b). broadcastable (p ! lhs_axis x) (q ! rhs_axis x))"
proof -
  have "EvaluateRuntimeConstraint (DimBroadcastableConstraint (input_dim 0 (lhs_axis x)) (input_dim 1 (rhs_axis x))) [p, q] outs =
      Inr (if broadcastable (p ! lhs_axis x) (q ! rhs_axis x) then kSatisfied else kViolated)" if "x \<in> set (deferred_axes b)" for x
    using assms [OF that] by (auto simp: eval_runtime_pair_def EvaluateRuntimeBroadcastable_def broadcastable_def)
  then show ?thesis by (auto simp: validate_iff broadcast_checks_def split: if_splits)
qed

lemma broadcast_ranked: "InferBroadcastShape s t = Inr b \<Longrightarrow> \<exists>l r ds. s = Some l \<and> t = Some r \<and> output_shape b = Some ds"
  by (auto simp: InferBroadcastShape_def rank_def Let_def split: option.splits)

text \<open>Reading a list of dimensions.\<close>

lemma traverse_dims: "list_all (\<lambda>i. i < length ds) is \<Longrightarrow> traverse (dim_at (Some ds)) is = Inr (map ((!) ds) is)"
  by (induction "is") (auto simp: dim_at_def)

lemma traverse_dims_eq:
  assumes "shape_denotes \<sigma> s v" and "traverse (dim_at s) is = Inr ds"
  shows "list_all2 (denotes \<sigma>) ds (map ((!) v) is)"
  using assms(2)
proof (induction "is" arbitrary: ds)
  case (Cons i "is")
  then show ?case using dim_at_denotes [OF assms(1)] by auto
qed simp

lemma map_nth_upt: "n \<le> length xs \<Longrightarrow> map ((!) xs) [0..<n] = take n xs"
  by (rule nth_equalityI) auto

lemma rank_at_leastD:
  "rank_at_least s n = Inr r \<Longrightarrow> rank s = Some r \<and> n \<le> r"
  by (auto simp: rank_at_least_def split: option.splits if_splits)

section \<open>Exactness of each inference\<close>

lemma two_inputs: "length xs = 2 \<Longrightarrow> \<exists>a b. xs = [a, b]"
  by (cases xs; cases "tl xs") auto

lemma one_input: "length xs = Suc 0 \<Longrightarrow> \<exists>a. xs = [a]"
  by (cases xs) auto

lemma broadcast_exact:
  assumes "InferBroadcastShape (spec_shape a) (spec_shape c) = Inr b"
    and "describes \<sigma> (map spec_shape [a, c]) ins"
  shows "(ValidateShapeConstraints (broadcast_checks b) ins outs = Inr () \<longleftrightarrow> broadcast_result (ins ! 0) (ins ! 1) \<noteq> None) \<and>
    (\<forall>r. broadcast_result (ins ! 0) (ins ! 1) = Some r \<longrightarrow> describes \<sigma> [output_shape b] r) \<and> length ins = 2"
proof -
  obtain p q where i: "ins = [p, q]" "shape_denotes \<sigma> (spec_shape a) p" "shape_denotes \<sigma> (spec_shape c) q" using assms(2) by auto
  obtain l r where s: "spec_shape a = Some l" "spec_shape c = Some r" using broadcast_ranked [OF assms(1)] by blast
  have d: "list_all2 (denotes \<sigma>) l p" "list_all2 (denotes \<sigma>) r q" using i s by auto
  note I = InferBroadcast_axes [OF d assms(1) [unfolded s]]
  have r: "lhs_axis x < length p \<and> rhs_axis x < length q" if "x \<in> set (deferred_axes b)" for x
    using deferred_in_range [OF assms(1) [unfolded s] that] d by (auto dest: list_all2_lengthD)
  show ?thesis unfolding i(1) using broadcast_checks_iff [OF r, where outs = outs] I
    by (auto simp: broadcast_result_def split: sum.splits)
qed

lemma arity_simps [simp]:
  "arity kAdd = 2" "arity kSiluMul = 2" "arity kElementwiseMul = 2" "arity kSilu = 1" "arity kSoftmax = 1" "arity kReorder = 1"
  "arity kRmsNorm = 2" "arity kEmbedding = 2" "arity op_type.kLinear = 2" "arity kMatMul = 2" "arity kRoPE = 3"
  "arity kAttention = 3" "arity kKVCacheUpdate = 4" "arity kArgmax = 1" "arity kPermute = 1" "arity kReshape = 1"
  by (simp_all add: arity_def)

lemma count_ok: "op \<noteq> op_type.kUnknown \<Longrightarrow> ValidateInferenceInputCount op inputs = Inr u \<longleftrightarrow> length inputs = arity op"
  by (simp add: input_count)

lemma inputs_of_length:
  "length xs = Suc 0 \<longleftrightarrow> (\<exists>a. xs = [a])" "length xs = 1 \<longleftrightarrow> (\<exists>a. xs = [a])" "length xs = 2 \<longleftrightarrow> (\<exists>a b. xs = [a, b])"
  "length xs = 3 \<longleftrightarrow> (\<exists>a b c. xs = [a, b, c])" "length xs = 4 \<longleftrightarrow> (\<exists>a b c d. xs = [a, b, c, d])"
  by (auto simp: numeral_eq_Suc length_Suc_conv)

text \<open>The operators that broadcast two inputs, and those that keep their input.\<close>

lemma broadcast_op_exact:
  assumes "InferBroadcastShape (spec_shape a) (spec_shape c) = Inr b" and "op \<in> {kAdd, kSiluMul, kElementwiseMul}"
  shows "exact op params [a, c] (one_output dt (output_shape b) (broadcast_checks b))"
proof (rule exactI)
  fix \<sigma> ins outs
  assume "describes \<sigma> (map spec_shape [a, c]) ins"
  from broadcast_exact [OF assms(1) this, of outs] assms(2)
  show "(ValidateShapeConstraints (runtime_checks (one_output dt (output_shape b) (broadcast_checks b))) ins outs = Inr () \<longleftrightarrow>
        op_result op params ins \<noteq> None) \<and>
      (\<forall>r. op_result op params ins = Some r \<longrightarrow>
        describes \<sigma> (map spec_shape (outputs (one_output dt (output_shape b) (broadcast_checks b)))) r)"
    by (auto simp: one_output_def op_result_def)
qed

lemma same_shape_exact:
  "op \<in> {kSilu, kSoftmax, kReorder} \<Longrightarrow> exact op params [a] \<lparr>outputs = [a], runtime_checks = []\<rparr>"
  by (rule exactI) (auto simp: op_result_def)

lemma InferAdd_exact: "InferAdd params inputs = Inr res \<Longrightarrow> exact kAdd params inputs res"
  by (auto simp: InferAdd_def count_ok inputs_of_length Let_def intro!: broadcast_op_exact split: op_params.splits)

lemma InferSiluMul_exact: "InferSiluMul params inputs = Inr res \<Longrightarrow> exact kSiluMul params inputs res"
  by (auto simp: InferSiluMul_def count_ok inputs_of_length Let_def intro!: broadcast_op_exact split: op_params.splits)

lemma InferElementwiseMul_exact: "InferElementwiseMul params inputs = Inr res \<Longrightarrow> exact kElementwiseMul params inputs res"
  by (auto simp: InferElementwiseMul_def count_ok inputs_of_length Let_def intro!: broadcast_op_exact split: op_params.splits)

lemma InferSilu_exact: "InferSilu params inputs = Inr res \<Longrightarrow> exact kSilu params inputs res"
  by (auto simp: InferSilu_def count_ok inputs_of_length intro!: same_shape_exact split: op_params.splits)

lemma InferSoftmax_exact: "InferSoftmax params inputs = Inr res \<Longrightarrow> exact kSoftmax params inputs res"
  by (auto simp: InferSoftmax_def count_ok inputs_of_length intro!: same_shape_exact split: op_params.splits)

lemma InferReorder_exact: "InferReorder params inputs = Inr res \<Longrightarrow> exact kReorder params inputs res"
  by (auto simp: InferReorder_def count_ok inputs_of_length intro!: same_shape_exact split: op_params.splits)

lemma InferRmsNorm_exact:
  assumes "InferRmsNorm params inputs = Inr res"
  shows "exact kRmsNorm params inputs res"
proof (rule exactI)
  fix \<sigma> ins outs
  assume d: "describes \<sigma> (map spec_shape inputs) ins"
  obtain a c r h pc w ec where i: "inputs = [a, c]" "rank_at_least (spec_shape a) 1 = Inr r" "dim_at (spec_shape a) (r - 1) = Inr h"
    "positive_or_check h (input_dim 0 (r - 1)) = Inr pc" "HasRank (spec_shape c) 1" "dim_at (spec_shape c) 0 = Inr w"
    "reconcile h w (input_dim 0 (r - 1)) (input_dim 1 0) = Inr ec" "res = \<lparr>outputs = [a], runtime_checks = pc @ ec\<rparr>"
    using assms by (auto simp: InferRmsNorm_def count_ok inputs_of_length Let_def split: op_params.splits)
  obtain x y where v: "ins = [x, y]" "shape_denotes \<sigma> (spec_shape a) x" "shape_denotes \<sigma> (spec_shape c) y" using d i(1) by auto
  have l: "length x = r" "1 \<le> r" "length y = 1"
    using rank_at_leastD [OF i(2)] i(5) shape_denotes_rank v(2,3) by (auto simp: HasRank_def)
  have h: "denotes \<sigma> h (x ! (r - 1))" "denotes \<sigma> w (y ! 0)" using dim_at_denotes v(2,3) i(3,6) by blast+
  have "ValidateShapeConstraints (runtime_checks res) ins outs = Inr () \<longleftrightarrow> x ! (r - 1) > 0 \<and> x ! (r - 1) = y ! 0"
    using positive_checks [OF i(4), of \<sigma> ins outs] reconcile_checks [OF i(7), of \<sigma> ins outs] h l
    by (simp add: i(8) validate_append v(1))
  moreover have ne: "x \<noteq> []" using l by auto
  moreover have "last x = x ! (r - 1)" using last_conv_nth [OF ne] l(1) by simp
  ultimately show "(ValidateShapeConstraints (runtime_checks res) ins outs = Inr () \<longleftrightarrow> op_result kRmsNorm params ins \<noteq> None) \<and>
      (\<forall>r. op_result kRmsNorm params ins = Some r \<longrightarrow> describes \<sigma> (map spec_shape (outputs res)) r)"
    using l v by (auto simp: op_result_def rmsnorm_result_def i(8))
qed

lemma InferLinear_exact:
  assumes "InferLinear params inputs = Inr res"
  shows "exact op_type.kLinear params inputs res"
proof (rule exactI)
  fix \<sigma> ins outs
  assume d: "describes \<sigma> (map spec_shape inputs) ins"
  obtain a c r f out_f w_in cs dims where i: "inputs = [a, c]" "rank_at_least (spec_shape a) 1 = Inr r" "HasRank (spec_shape c) 2"
    "dim_at (spec_shape a) (r - 1) = Inr f" "dim_at (spec_shape c) 0 = Inr out_f" "dim_at (spec_shape c) 1 = Inr w_in"
    "reconcile f w_in (input_dim 0 (r - 1)) (input_dim 1 1) = Inr cs" "traverse (dim_at (spec_shape a)) [0..<r - 1] = Inr dims"
    "res = one_output (spec_dtype a) (Some (dims @ [out_f])) cs"
    using assms by (auto simp: InferLinear_def count_ok inputs_of_length Let_def split: op_params.splits)
  obtain x y where v: "ins = [x, y]" "shape_denotes \<sigma> (spec_shape a) x" "shape_denotes \<sigma> (spec_shape c) y" using d i(1) by auto
  have l: "length x = r" "1 \<le> r" "length y = 2"
    using rank_at_leastD [OF i(2)] i(3) shape_denotes_rank v(2,3) by (auto simp: HasRank_def)
  have h: "denotes \<sigma> f (x ! (r - 1))" "denotes \<sigma> w_in (y ! 1)" "denotes \<sigma> out_f (y ! 0)" using dim_at_denotes v(2,3) i(4-6) by blast+
  have "ValidateShapeConstraints (runtime_checks res) ins outs = Inr () \<longleftrightarrow> x ! (r - 1) = y ! 1"
    using reconcile_checks [OF i(7), of \<sigma> ins outs] h l by (simp add: i(9) one_output_def v(1))
  moreover have ne: "x \<noteq> []" using l by auto
  moreover have "last x = x ! (r - 1)" using last_conv_nth [OF ne] l(1) by simp
  moreover have "list_all2 (denotes \<sigma>) (dims @ [out_f]) (butlast x @ [y ! 0])"
    using traverse_dims_eq [OF v(2) i(8)] h(3) l map_nth_upt [of "r - 1" x] by (simp add: butlast_conv_take list_all2_appendI)
  ultimately show "(ValidateShapeConstraints (runtime_checks res) ins outs = Inr () \<longleftrightarrow> op_result op_type.kLinear params ins \<noteq> None) \<and>
      (\<forall>r. op_result op_type.kLinear params ins = Some r \<longrightarrow> describes \<sigma> (map spec_shape (outputs res)) r)"
    using l v by (auto simp: op_result_def linear_result_def i(9) one_output_def)
qed

lemma InferEmbedding_exact:
  assumes "InferEmbedding params inputs = Inr res"
  shows "exact kEmbedding params inputs res"
proof (rule exactI)
  fix \<sigma> ins outs
  assume d: "describes \<sigma> (map spec_shape inputs) ins"
  obtain a c r d0 d1 c0 c1 dims where i: "inputs = [a, c]" "rank_at_least (spec_shape a) 1 = Inr r" "HasRank (spec_shape c) 2"
    "dim_at (spec_shape c) 0 = Inr d0" "dim_at (spec_shape c) 1 = Inr d1"
    "positive_or_check d0 (input_dim 1 0) = Inr c0" "positive_or_check d1 (input_dim 1 1) = Inr c1"
    "traverse (dim_at (spec_shape a)) [0..<r] = Inr dims"
    "res = one_output (spec_dtype c) (Some (dims @ [d1])) (c0 @ c1)"
    using assms by (auto simp: InferEmbedding_def count_ok inputs_of_length Let_def upt_rec [of _ 2] split: op_params.splits)
  obtain x y where v: "ins = [x, y]" "shape_denotes \<sigma> (spec_shape a) x" "shape_denotes \<sigma> (spec_shape c) y" using d i(1) by auto
  have l: "length x = r" "1 \<le> r" "length y = 2"
    using rank_at_leastD [OF i(2)] i(3) shape_denotes_rank v(2,3) by (auto simp: HasRank_def)
  have h: "denotes \<sigma> d0 (y ! 0)" "denotes \<sigma> d1 (y ! 1)" using dim_at_denotes v(3) i(4,5) by blast+
  have "ValidateShapeConstraints (runtime_checks res) ins outs = Inr () \<longleftrightarrow> y ! 0 > 0 \<and> y ! 1 > 0"
    using positive_checks [OF i(6), of \<sigma> ins outs] positive_checks [OF i(7), of \<sigma> ins outs] h l
    by (simp add: i(9) one_output_def validate_append v(1))
  moreover have "x \<noteq> []" using l by auto
  moreover have "list_all2 (denotes \<sigma>) (dims @ [d1]) (x @ [y ! 1])"
    using traverse_dims_eq [OF v(2) i(8)] h(2) l map_nth_upt [of r x] by (simp add: list_all2_appendI)
  ultimately show "(ValidateShapeConstraints (runtime_checks res) ins outs = Inr () \<longleftrightarrow> op_result kEmbedding params ins \<noteq> None) \<and>
      (\<forall>r. op_result kEmbedding params ins = Some r \<longrightarrow> describes \<sigma> (map spec_shape (outputs res)) r)"
    using l v by (auto simp: op_result_def embedding_result_def i(9) one_output_def)
qed

lemma batch_denotes:
  assumes "MakeBatchShape s r = Inr b" and "shape_denotes \<sigma> s x" and "length x = r"
  obtains ds where "b = Some ds" and "list_all2 (denotes \<sigma>) ds (take (r - 2) x)"
proof -
  obtain ds where "traverse (dim_at s) [0..<r - 2] = Inr ds" "b = Some ds" using assms(1) by (auto simp: MakeBatchShape_def)
  then show thesis using that traverse_dims_eq [OF assms(2)] map_nth_upt [of "r - 2" x] assms(3) by fastforce
qed

lemma matmul_batch:
  assumes "InferBroadcastShape (Some l) (Some r) = Inr b" and "output_shape b = Some ds"
    and "list_all2 (denotes \<sigma>) l (take n x)" and "list_all2 (denotes \<sigma>) r (take m y)"
  shows "(ValidateShapeConstraints (broadcast_checks b) [x, y] outs = Inr () \<longleftrightarrow> (\<exists>out. BroadcastShapes (take n x) (take m y) = Inr out)) \<and>
    (\<forall>out. BroadcastShapes (take n x) (take m y) = Inr out \<longrightarrow> list_all2 (denotes \<sigma>) ds out)"
proof -
  have len: "length l = length (take n x)" "length r = length (take m y)" using assms(3,4) by (auto dest: list_all2_lengthD)
  have r: "lhs_axis k < length (take n x) \<and> rhs_axis k < length (take m y)" if "k \<in> set (deferred_axes b)" for k
    using deferred_in_range [OF assms(1) that] len by simp
  have e: "x ! lhs_axis k = take n x ! lhs_axis k \<and> y ! rhs_axis k = take m y ! rhs_axis k" if "k \<in> set (deferred_axes b)" for k
    using r [OF that] by simp
  have r': "lhs_axis k < length x \<and> rhs_axis k < length y" if "k \<in> set (deferred_axes b)" for k using r [OF that] by simp
  show ?thesis using InferBroadcast_axes [OF assms(3,4,1)] broadcast_checks_iff [OF r', where outs = outs] e
    by (auto simp: assms(2))
qed

lemma InferMatMul_exact:
  assumes "InferMatMul params inputs = Inr res"
  shows "exact kMatMul params inputs res"
proof (rule exactI)
  fix \<sigma> ins outs
  assume d: "describes \<sigma> (map spec_shape inputs) ins"
  obtain t a c n m li ri lo ro lb rb b ds cs where i: "params = MatMulParams t" "inputs = [a, c]"
    "rank_at_least (spec_shape a) 2 = Inr n" "rank_at_least (spec_shape c) 2 = Inr m"
    "dim_at (spec_shape a) (n - 1) = Inr li" "dim_at (spec_shape c) (fst (ResolveRhsAxes t m)) = Inr ri"
    "dim_at (spec_shape a) (n - 2) = Inr lo" "dim_at (spec_shape c) (snd (ResolveRhsAxes t m)) = Inr ro"
    "MakeBatchShape (spec_shape a) n = Inr lb" "MakeBatchShape (spec_shape c) m = Inr rb"
    "InferBroadcastShape lb rb = Inr b" "output_shape b = Some ds"
    "reconcile li ri (input_dim 0 (n - 1)) (input_dim 1 (fst (ResolveRhsAxes t m))) = Inr cs"
    "res = one_output (spec_dtype a) (Some (ds @ [lo, ro])) (cs @ broadcast_checks b)"
    using assms
    by (auto simp: InferMatMul_def count_ok inputs_of_length Let_def split_beta split: op_params.splits option.splits)
  obtain x y where v: "ins = [x, y]" "shape_denotes \<sigma> (spec_shape a) x" "shape_denotes \<sigma> (spec_shape c) y" using d i(2) by auto
  have l: "length x = n" "2 \<le> n" "length y = m" "2 \<le> m"
    using rank_at_leastD [OF i(3)] rank_at_leastD [OF i(4)] shape_denotes_rank v(2,3) by auto
  let ?k = "fst (ResolveRhsAxes t m)" and ?o = "snd (ResolveRhsAxes t m)"
  have ax: "?k < m" "?o < m" "y ! ?k = (if t then y ! (m - 1) else y ! (m - 2))" "y ! ?o = (if t then y ! (m - 2) else y ! (m - 1))"
    using l(4) by (auto simp: ResolveRhsAxes_def)
  have h: "denotes \<sigma> li (x ! (n - 1))" "denotes \<sigma> ri (y ! ?k)" "denotes \<sigma> lo (x ! (n - 2))" "denotes \<sigma> ro (y ! ?o)"
    using dim_at_denotes v(2,3) i(5-8) by blast+
  obtain ls rs where bs: "lb = Some ls" "list_all2 (denotes \<sigma>) ls (take (n - 2) x)" "rb = Some rs" "list_all2 (denotes \<sigma>) rs (take (m - 2) y)"
    using batch_denotes [OF i(9) v(2) l(1)] batch_denotes [OF i(10) v(3) l(3)] by metis
  note M = matmul_batch [OF i(11) [unfolded bs(1,3)] i(12) bs(2,4), where outs = outs]
  have "ValidateShapeConstraints (runtime_checks res) ins outs = Inr () \<longleftrightarrow>
      x ! (n - 1) = y ! ?k \<and> (\<exists>out. BroadcastShapes (take (n - 2) x) (take (m - 2) y) = Inr out)"
    using reconcile_checks [OF i(13), of \<sigma> ins outs] M h l ax by (simp add: i(14) one_output_def validate_append v(1))
  moreover have "list_all2 (denotes \<sigma>) (ds @ [lo, ro]) (out @ [x ! (n - 2), y ! ?o])"
    if "BroadcastShapes (take (n - 2) x) (take (m - 2) y) = Inr out" for out
    using M that h by (simp add: list_all2_appendI)
  ultimately show "(ValidateShapeConstraints (runtime_checks res) ins outs = Inr () \<longleftrightarrow> op_result kMatMul params ins \<noteq> None) \<and>
      (\<forall>r. op_result kMatMul params ins = Some r \<longrightarrow> describes \<sigma> (map spec_shape (outputs res)) r)"
    using l v unfolding i(1) i(14) op_result_def matmul_result_def Let_def one_output_def
    by (auto simp: ax split: sum.splits)
qed

lemma InferRoPE_exact:
  assumes "InferRoPE params inputs = Inr res"
  shows "exact kRoPE params inputs res"
proof (rule exactI)
  fix \<sigma> ins outs
  assume d: "describes \<sigma> (map spec_shape inputs) ins"
  obtain a b c q k p c1 c2 c3 where i: "inputs = [a, b, c]" "HasRank (spec_shape a) 2" "HasRank (spec_shape b) 2" "HasRank (spec_shape c) 1"
    "dim_at (spec_shape a) 0 = Inr q" "dim_at (spec_shape b) 0 = Inr k" "dim_at (spec_shape c) 0 = Inr p"
    "positive_or_check q (input_dim 0 0) = Inr c1" "reconcile q k (input_dim 0 0) (input_dim 1 0) = Inr c2"
    "reconcile q p (input_dim 0 0) (input_dim 2 0) = Inr c3" "res = \<lparr>outputs = [a, b], runtime_checks = c1 @ c2 @ c3\<rparr>"
    using assms
    by (auto simp: InferRoPE_def ValidateRoPEShapes_def count_ok inputs_of_length Let_def split: op_params.splits)
  obtain x y z where v: "ins = [x, y, z]" "shape_denotes \<sigma> (spec_shape a) x" "shape_denotes \<sigma> (spec_shape b) y"
    "shape_denotes \<sigma> (spec_shape c) z" using d i(1) by auto
  have l: "length x = 2" "length y = 2" "length z = 1" using i(2-4) shape_denotes_rank v(2-4) by (auto simp: HasRank_def)
  have h: "denotes \<sigma> q (x ! 0)" "denotes \<sigma> k (y ! 0)" "denotes \<sigma> p (z ! 0)" using dim_at_denotes v(2-4) i(5-7) by blast+
  have "ValidateShapeConstraints (runtime_checks res) ins outs = Inr () \<longleftrightarrow> x ! 0 > 0 \<and> x ! 0 = y ! 0 \<and> x ! 0 = z ! 0"
    using positive_checks [OF i(8), of \<sigma> ins outs] reconcile_checks [OF i(9), of \<sigma> ins outs] reconcile_checks [OF i(10), of \<sigma> ins outs] h l
    by (simp add: i(11) validate_append v(1))
  then show "(ValidateShapeConstraints (runtime_checks res) ins outs = Inr () \<longleftrightarrow> op_result kRoPE params ins \<noteq> None) \<and>
      (\<forall>r. op_result kRoPE params ins = Some r \<longrightarrow> describes \<sigma> (map spec_shape (outputs res)) r)"
    using l v by (auto simp: op_result_def rope_result_def i(11))
qed

lemma caches_equal_denotes:
  assumes "caches_equal s t = Inr u" and "shape_denotes \<sigma> s x" and "shape_denotes \<sigma> t y" and "length x = 3" and "length y = 3"
  shows "x = y"
proof (rule nth_equalityI)
  fix j assume "j < length x"
  then obtain k v where "dim_at s j = Inr k" "dim_at t j = Inr v" "AreProvablyEqual k v"
    using assms(1,4) by (auto simp: caches_equal_def traverse_eq_Inr)
  then show "x ! j = y ! j" using provably_equal_denotes dim_at_denotes assms(2,3) by blast
qed (use assms in simp)

lemma InferAttention_exact:
  assumes "InferAttention params inputs = Inr res"
  shows "exact kAttention params inputs res"
proof (rule exactI)
  fix \<sigma> ins outs
  assume d: "describes \<sigma> (map spec_shape inputs) ins"
  obtain a b c q where i: "inputs = [a, b, c]" "HasRank (spec_shape a) 2" "HasRank (spec_shape b) 3" "HasRank (spec_shape c) 3"
    "dim_at (spec_shape a) 0 = Inr q" "caches_equal (spec_shape b) (spec_shape c) = Inr ()" "\<not> IsStatic q \<or> dim_value q > 0"
    "res = \<lparr>outputs = [a], runtime_checks = (if IsStatic q then [] else [DimPositiveConstraint (input_dim 0 0)])\<rparr>"
    using assms
    by (auto simp: InferAttention_def ValidateAttentionShapes_def count_ok inputs_of_length Let_def split: op_params.splits)
  have pc: "positive_or_check q (input_dim 0 0) = Inr (runtime_checks res)" using i(7,8) by (auto simp: positive_or_check_def)
  obtain x y z where v: "ins = [x, y, z]" "shape_denotes \<sigma> (spec_shape a) x" "shape_denotes \<sigma> (spec_shape b) y"
    "shape_denotes \<sigma> (spec_shape c) z" using d i(1) by auto
  have l: "length x = 2" "length y = 3" "length z = 3" using i(2-4) shape_denotes_rank v(2-4) by (auto simp: HasRank_def)
  have "denotes \<sigma> q (x ! 0)" using dim_at_denotes v(2) i(5) by blast
  then have "ValidateShapeConstraints (runtime_checks res) ins outs = Inr () \<longleftrightarrow> x ! 0 > 0"
    using positive_checks [OF pc, of \<sigma> ins outs] l by (simp add: v(1))
  moreover have "y = z" using caches_equal_denotes [OF i(6) v(3,4) l(2,3)] .
  ultimately show "(ValidateShapeConstraints (runtime_checks res) ins outs = Inr () \<longleftrightarrow> op_result kAttention params ins \<noteq> None) \<and>
      (\<forall>r. op_result kAttention params ins = Some r \<longrightarrow> describes \<sigma> (map spec_shape (outputs res)) r)"
    using l v by (auto simp: op_result_def attention_result_def i(8))
qed

lemma InferKVCacheUpdate_exact:
  assumes "InferKVCacheUpdate params inputs = Inr res"
  shows "exact kKVCacheUpdate params inputs res"
proof (rule exactI)
  fix \<sigma> ins outs
  assume d: "describes \<sigma> (map spec_shape inputs) ins"
  obtain a b e f k0 k1 v0 v1 where i: "inputs = [a, b, e, f]" "HasRank (spec_shape a) 2" "HasRank (spec_shape b) 2"
    "HasRank (spec_shape e) 3" "HasRank (spec_shape f) 3"
    "dim_at (spec_shape a) 0 = Inr k0" "dim_at (spec_shape a) 1 = Inr k1" "dim_at (spec_shape b) 0 = Inr v0" "dim_at (spec_shape b) 1 = Inr v1"
    "AreProvablyEqual k0 v0" "AreProvablyEqual k1 v1" "caches_equal (spec_shape e) (spec_shape f) = Inr ()"
    "res = \<lparr>outputs = [e, f], runtime_checks = []\<rparr>"
    using assms
    by (auto simp: InferKVCacheUpdate_def ValidateKVCacheUpdateShapes_def count_ok inputs_of_length Let_def split: op_params.splits)
  obtain x y z w where v: "ins = [x, y, z, w]" "shape_denotes \<sigma> (spec_shape a) x" "shape_denotes \<sigma> (spec_shape b) y"
    "shape_denotes \<sigma> (spec_shape e) z" "shape_denotes \<sigma> (spec_shape f) w" using d i(1) by auto
  have l: "length x = 2" "length y = 2" "length z = 3" "length w = 3"
    using i(2-5) shape_denotes_rank v(2-5) by (auto simp: HasRank_def)
  have "x ! 0 = y ! 0" "x ! 1 = y ! 1" using dim_at_denotes v(2,3) i(6-9) provably_equal_denotes i(10,11) by metis+
  then have "x = y" using l(1,2) by (auto simp: inputs_of_length)
  moreover have "z = w" using caches_equal_denotes [OF i(12) v(4,5) l(3,4)] .
  ultimately show "(ValidateShapeConstraints (runtime_checks res) ins outs = Inr () \<longleftrightarrow> op_result kKVCacheUpdate params ins \<noteq> None) \<and>
      (\<forall>r. op_result kKVCacheUpdate params ins = Some r \<longrightarrow> describes \<sigma> (map spec_shape (outputs res)) r)"
    using l v by (auto simp: op_result_def kvcache_result_def i(13))
qed

lemma map_nth_without:
  assumes "k < length x"
  shows "map ((!) x) (filter (\<lambda>i. i \<noteq> k) [0..<length x]) = take k x @ drop (Suc k) x"
proof -
  have "[0..<length x] = [0..<k] @ k # [Suc k..<length x]"
    using assms upt_add_eq_append [of 0 k "length x - k"] by (simp add: upt_rec)
  then have "filter (\<lambda>i. i \<noteq> k) [0..<length x] = [0..<k] @ [Suc k..<length x]" by (simp add: filter_id_conv)
  moreover have "map ((!) x) [Suc k..<length x] = drop (Suc k) x" by (rule nth_equalityI) auto
  ultimately show ?thesis using assms map_nth_upt [of k x] by simp
qed

lemma InferArgmax_exact:
  assumes "InferArgmax params inputs = Inr res" and "IsRanked (spec_shape (inputs ! 0))"
  shows "exact kArgmax params inputs res"
proof (rule exactI)
  fix \<sigma> ins outs
  assume d: "describes \<sigma> (map spec_shape inputs) ins"
  obtain p a r ax it dims where i: "params = ArgmaxParams p" "inputs = [a]" "rank (spec_shape a) = Some r"
    "ax = (if p < 0 then p + int r else p)" "0 \<le> ax" "ax < int r"
    "traverse (dim_at (spec_shape a)) (filter (\<lambda>i. int i \<noteq> ax) [0..<r]) = Inr dims" "res = one_output it (Some dims) []"
    using assms
    by (auto simp: InferArgmax_def count_ok inputs_of_length Let_def IsRanked_def rank_def not_le not_less nat_less_iff
        split: op_params.splits option.splits if_splits)
  obtain x where v: "ins = [x]" "shape_denotes \<sigma> (spec_shape a) x" using d i(2) by auto
  have l: "length x = r" using shape_denotes_rank [OF v(2) i(3)] .
  have "(\<lambda>i. int i \<noteq> ax) = (\<lambda>i. i \<noteq> nat ax)" using i(5) by auto
  then have "list_all2 (denotes \<sigma>) dims (take (nat ax) x @ drop (Suc (nat ax)) x)"
    using traverse_dims_eq [OF v(2) i(7)] map_nth_without [of "nat ax" x] i(5,6) l by simp
  then show "(ValidateShapeConstraints (runtime_checks res) ins outs = Inr () \<longleftrightarrow> op_result kArgmax params ins \<noteq> None) \<and>
      (\<forall>r. op_result kArgmax params ins = Some r \<longrightarrow> describes \<sigma> (map spec_shape (outputs res)) r)"
    using i(4-6) l by (auto simp: op_result_def argmax_result_def i(1,8) v(1) one_output_def Let_def)
qed

lemma adjacent_equal_distinct: "sorted xs \<Longrightarrow> adjacent_equal xs \<longleftrightarrow> \<not> distinct xs"
proof (induction xs rule: adjacent_equal.induct)
  case (1 x y zs)
  then show ?case by fastforce
qed auto

lemma InferPermute_exact:
  assumes "InferPermute params inputs = Inr res"
  shows "exact kPermute params inputs res"
proof (rule exactI)
  fix \<sigma> ins outs
  assume d: "describes \<sigma> (map spec_shape inputs) ins"
  obtain p a r dims where i: "params = PermuteParams p" "\<not> adjacent_equal (sort p)" "inputs = [a]" "rank_at_least (spec_shape a) 0 = Inr r"
    "length p = r" "list_all (\<lambda>x. x < r) p" "traverse (dim_at (spec_shape a)) p = Inr dims" "res = one_output (spec_dtype a) (Some dims) []"
    using assms by (auto simp: InferPermute_def count_ok inputs_of_length Let_def split: op_params.splits)
  obtain x where v: "ins = [x]" "shape_denotes \<sigma> (spec_shape a) x" using d i(3) by auto
  have l: "length x = r" using rank_at_leastD [OF i(4)] shape_denotes_rank [OF v(2)] by auto
  have dp: "distinct p" using i(2) adjacent_equal_distinct [of "sort p"] by simp
  have "set p = {..<r}" using card_subset_eq [of "{..<r}" "set p"] distinct_card [OF dp] i(5,6) by (auto simp: list_all_iff)
  then show "(ValidateShapeConstraints (runtime_checks res) ins outs = Inr () \<longleftrightarrow> op_result kPermute params ins \<noteq> None) \<and>
      (\<forall>r. op_result kPermute params ins = Some r \<longrightarrow> describes \<sigma> (map spec_shape (outputs res)) r)"
    using l dp traverse_dims_eq [OF v(2) i(7)] by (auto simp: op_result_def permute_result_def i(1,8) v(1) one_output_def)
qed

section \<open>Failures\<close>

text \<open>The only failure is an invalid-argument status: no \<open>AM_CHECK\<close> fails.\<close>

definition rejects :: "'a result \<Rightarrow> bool" where
  "rejects r \<longleftrightarrow> (\<forall>e. r = Inl e \<longrightarrow> e = Error kInvalidArgument)"

lemma rejects_simps [simp]:
  "rejects (Inr x)" "rejects InvalidArgument" "rejects (require b)"
  "rejects (and_then m f) \<longleftrightarrow> rejects m \<and> (\<forall>x. m = Inr x \<longrightarrow> rejects (f x))"
  by (auto simp: rejects_def require_def and_then_eq_Inl)

lemma rejects_traverse [simp]: "(\<And>x. x \<in> set xs \<Longrightarrow> rejects (f x)) \<Longrightarrow> rejects (traverse f xs)"
  by (auto simp: rejects_def dest!: traverse_eq_Inl)

lemma rejects_dim_at [simp]: "rejects (dim_at s i) \<longleftrightarrow> (\<exists>n. rank s = Some n \<and> i < n)"
  by (cases s) (auto simp: rejects_def dim_at_def rank_def)

lemma rejects_count [simp]: "op \<noteq> op_type.kUnknown \<Longrightarrow> rejects (ValidateInferenceInputCount op inputs)"
  by (simp add: input_count)

lemma rejects_rank [simp]: "rejects (rank_at_least s n)"
  by (auto simp: rank_at_least_def split: option.splits)

lemma rejects_reconcile [simp]: "rejects (reconcile a b la lb)" "rejects (positive_or_check a la)"
  by (simp_all add: reconcile_def positive_or_check_def)

lemma rejects_same_dtype [simp]: "fixed_length a \<Longrightarrow> fixed_length b \<Longrightarrow> rejects (same_dtype a b)"
  using dtype_eq_total [of a b] by (auto simp: same_dtype_def)

lemma rejects_supported [simp]:
  assumes "fixed_length d"
  shows "rejects (supported IsAddSupportedDType d)"
    "rejects (supported IsSiluMulSupportedDType d)"
    "rejects (supported IsElementwiseMulSupportedDType d)"
    "rejects (supported IsSiluSupportedDType d)"
    "rejects (supported IsSoftmaxSupportedDType d)"
    "rejects (supported IsRmsNormSupportedDType d)"
    "rejects (supported IsSupportedTokenIdDType d)"
    "rejects (supported IsEmbeddingSupportedWeightDType d)"
    "rejects (supported IsLinearSupportedActivationDType d)"
    "rejects (supported IsLinearSupportedWeightDType d)"
    "rejects (supported IsMatMulSupportedDType d)"
    "rejects (supported IsRoPESupportedDType d)"
    "rejects (supported IsAttentionSupportedDType d)"
    "rejects (supported IsKVCacheUpdateSupportedDType d)"
    "rejects (supported IsArgmaxSupportedDType d)"
  using supported_total [OF assms] by (auto simp: supported_def)

lemma rejects_broadcast [simp]: "rejects (InferBroadcastShape s t)"
proof -
  have "rejects (infer_axis s t (max n m - n) (max n m - m) i)" if "rank s = Some n" "rank t = Some m" "i < max n m" for n m i
    using that by (auto simp: infer_axis_def infer_dim_def Let_def split_beta)
  then show ?thesis by (auto simp: InferBroadcastShape_def Let_def intro!: rejects_traverse split: option.splits)
qed

lemma int64_type:
  "dt_Int 64 1 = Inr \<lparr>dt_code = kInt, dt_bits = 64, raw_lanes = 1\<rparr>"
  "fixed_length \<lparr>dt_code = kInt, dt_bits = 64, raw_lanes = 1\<rparr>"
  by (simp_all add: made_defs fixed_length_def)

lemma fixed_input:
  "list_all (\<lambda>x. fixed_length (spec_dtype x)) inputs \<Longrightarrow> i < length inputs \<Longrightarrow> fixed_length (spec_dtype (inputs ! i))"
  by (simp add: list_all_length)

lemma rejects_elementwise:
  assumes "list_all (\<lambda>x. fixed_length (spec_dtype x)) inputs"
  shows "rejects (InferAdd params inputs)" "rejects (InferSiluMul params inputs)" "rejects (InferElementwiseMul params inputs)"
    "rejects (InferSilu params inputs)" "rejects (InferSoftmax params inputs)" "rejects (InferReorder params inputs)"
  using fixed_input [OF assms]
  by (simp_all add: InferAdd_def InferSiluMul_def InferElementwiseMul_def InferSilu_def InferSoftmax_def InferReorder_def
      count_ok Let_def split: op_params.splits)

lemma rejects_weights:
  assumes "list_all (\<lambda>x. fixed_length (spec_dtype x)) inputs"
  shows "rejects (InferRmsNorm params inputs)" "rejects (InferEmbedding params inputs)" "rejects (InferLinear params inputs)"
  using fixed_input [OF assms]
  by (auto simp: InferRmsNorm_def InferEmbedding_def InferLinear_def HasRank_def count_ok Let_def
      dest!: rank_at_leastD intro!: rejects_traverse split: op_params.splits)

lemma rejects_MatMul:
  assumes "list_all (\<lambda>x. fixed_length (spec_dtype x)) inputs"
  shows "rejects (InferMatMul params inputs)"
  using fixed_input [OF assms]
  by (auto simp: InferMatMul_def MakeBatchShape_def ResolveRhsAxes_def count_ok Let_def split_beta
      dest!: rank_at_leastD broadcast_ranked intro!: rejects_traverse split: op_params.splits)

lemma rejects_params [simp]:
  "rejects (ValidateRoPEParams p)" "rejects (ValidateRoPEScaling p)" "rejects (ValidateAttentionParams q)"
  by (simp_all add: ValidateRoPEParams_def ValidateRoPEScaling_def ValidateAttentionParams_def split: rope_scaling.splits)

lemma rejects_caches_equal [simp]: "rank s = Some 3 \<Longrightarrow> rank t = Some 3 \<Longrightarrow> rejects (caches_equal s t)"
  by (auto simp: caches_equal_def intro!: rejects_traverse)

lemma rejects_shapes [simp]:
  "rejects (ValidateRoPEShapes p inputs)" "rejects (ValidateAttentionShapes q inputs)" "rejects (ValidateKVCacheUpdateShapes inputs)"
  by (simp_all add: ValidateRoPEShapes_def ValidateAttentionShapes_def ValidateKVCacheUpdateShapes_def HasRank_def Let_def)

lemma rejects_attention:
  assumes "list_all (\<lambda>x. fixed_length (spec_dtype x)) inputs"
  shows "rejects (InferRoPE params inputs)" "rejects (InferAttention params inputs)" "rejects (InferKVCacheUpdate params inputs)"
  using fixed_input [OF assms]
  by (simp_all add: InferRoPE_def InferAttention_def InferKVCacheUpdate_def ValidateRoPEDTypes_def ValidateAttentionDTypes_def
      ValidateKVCacheUpdateDTypes_def count_ok Let_def int64_type split: op_params.splits)

lemma rejects_Argmax:
  assumes "list_all (\<lambda>x. fixed_length (spec_dtype x)) inputs"
  shows "rejects (InferArgmax params inputs)"
  using fixed_input [OF assms]
  by (simp add: InferArgmax_def count_ok Let_def int64_type split: op_params.splits option.splits)
    (auto intro!: rejects_traverse)

lemma rejects_Permute: "rejects (InferPermute params inputs)"
proof -
  have "rejects (traverse (dim_at s) p)" if "rank_at_least s 0 = Inr r" "list_all (\<lambda>a. a < r) p" for s p r
    by (rule rejects_traverse) (use that rank_at_leastD [OF that(1)] in \<open>simp add: list_all_iff\<close>)
  then show ?thesis by (simp add: InferPermute_def count_ok Let_def split: op_params.splits)
qed

end
