(* ===== verification/Reshape_Inference.thy ===== *)
theory Reshape_Inference
  imports Operator_Inference
begin

text \<open>
  \<open>reshape_op.cpp\<close> and the dispatch \<open>InferOperator\<close>.  The helpers are only called on ranked shapes.
\<close>

section \<open>Reshape\<close>

definition rank_value :: "symbolic_shape \<Rightarrow> nat" where
  "rank_value s = (case rank s of Some r \<Rightarrow> r | None \<Rightarrow> 0)"

definition output_dim :: "nat \<Rightarrow> nat \<Rightarrow> dim_locator" where
  "output_dim t d = \<lparr>locator_port = \<lparr>direction = kOutput, tensor_idx = t\<rparr>, dim_index = d\<rparr>"

definition MakeVolumeEqualConstraint :: "symbolic_shape \<Rightarrow> symbolic_shape \<Rightarrow> shape_constraint" where
  "MakeVolumeEqualConstraint input_shape out_shape =
     VolumeEqualConstraint (map (input_dim 0) [0..<rank_value input_shape]) (map (output_dim 0) [0..<rank_value out_shape])"

text \<open>The product of the static dimensions at the given axes.\<close>

primrec multiply_axes :: "symbolic_shape \<Rightarrow> nat list \<Rightarrow> u64 \<Rightarrow> u64 result" where
  "multiply_axes shape [] product = Inr product"
| "multiply_axes shape (i # axes) product =
     and_then (dim_at shape i) (\<lambda>dim. and_then (GetStaticValue dim) (\<lambda>v.
       case CheckOverflowMul_u product (word_of_int v) of
         (overflow, product') \<Rightarrow> if overflow then Inl (Error kOverflow) else multiply_axes shape axes product'))"

definition MultiplyStaticDims :: "symbolic_shape \<Rightarrow> u64 \<Rightarrow> u64 result" where
  "MultiplyStaticDims shape product = multiply_axes shape [0..<rank_value shape] product"

definition AllDimsStaticExcept :: "symbolic_shape \<Rightarrow> nat \<Rightarrow> bool result" where
  "AllDimsStaticExcept shape skip_index =
     and_then (traverse (\<lambda>i. if i = skip_index then Inr True else and_then (dim_at shape i) (\<lambda>d. Inr (IsStatic d))) [0..<rank_value shape])
       (\<lambda>bs. Inr (list_all (\<lambda>b. b) bs))"

definition TryResolveInferDim :: "symbolic_shape \<Rightarrow> symbolic_shape \<Rightarrow> nat \<Rightarrow> symbolic_shape result" where
  "TryResolveInferDim input_shape out_shape infer_index =
     and_then (if IsStaticShape input_shape then AllDimsStaticExcept out_shape infer_index else Inr False) (\<lambda>resolvable.
       if \<not> resolvable then Inr out_shape
       else
         and_then (MultiplyStaticDims input_shape 1) (\<lambda>input_volume.
         and_then (multiply_axes out_shape (filter (\<lambda>i. i \<noteq> infer_index) [0..<rank_value out_shape]) 1) (\<lambda>non_infer_product.
           if non_infer_product = 0 then InvalidArgument
           else if input_volume mod non_infer_product \<noteq> 0 then InvalidArgument
           else
             let quotient = input_volume div non_infer_product in
             if quotient > 2 ^ 63 - 1 then Inl (Error kOverflow)
             else and_then (CreateFromValue (uint quotient)) (\<lambda>d. set_dim out_shape infer_index d))))"

definition reshape_literals_ok :: "reshape_dim list \<Rightarrow> bool" where
  "reshape_literals_ok target = list_all (\<lambda>d. case d of ReshapeLiteralDim v \<Rightarrow> v \<ge> 0 | _ \<Rightarrow> True) target"

definition reshape_axes_ok :: "reshape_dim list \<Rightarrow> nat \<Rightarrow> bool" where
  "reshape_axes_ok target r = list_all (\<lambda>d. case d of ReshapeInputDim a \<Rightarrow> a < r | _ \<Rightarrow> True) target"

definition reshape_dim_symbol :: "symbolic_shape \<Rightarrow> reshape_dim \<Rightarrow> shape_symbol result" where
  "reshape_dim_symbol input_shape d =
     (case d of
        ReshapeLiteralDim v \<Rightarrow> CreateFromValue v
      | ReshapeInputDim a \<Rightarrow> dim_at input_shape a
      | ReshapeInferDim \<Rightarrow> Inr Unknown)"

text \<open>\<open>infer_index\<close>: the position of the marker, of which there is at most one.\<close>

definition infer_position :: "reshape_dim list \<Rightarrow> nat option" where
  "infer_position target = find (\<lambda>i. target ! i = ReshapeInferDim) [0..<length target]"

definition resolve_output :: "symbolic_shape \<Rightarrow> reshape_dim list \<Rightarrow> shape_symbol list \<Rightarrow> symbolic_shape result" where
  "resolve_output input_shape target output_dims =
     (case infer_position target of
        Some i \<Rightarrow> TryResolveInferDim input_shape (Some output_dims) i
      | None \<Rightarrow> Inr (Some output_dims))"

definition check_volumes :: "tensor_spec \<Rightarrow> symbolic_shape \<Rightarrow> inference_result result" where
  "check_volumes input out_shape =
     (let constr = MakeVolumeEqualConstraint (spec_shape input) out_shape in
      and_then (EvaluateSymbolicConstraint constr [spec_shape input] [out_shape]) (\<lambda>eval_result.
        case eval_result of
          kViolated \<Rightarrow> InvalidArgument
        | kSatisfied \<Rightarrow> Inr (one_output (spec_dtype input) out_shape [])
        | kDeferred \<Rightarrow>
            if IsStaticShape (spec_shape input) \<and> IsStaticShape out_shape then Inl (Error kOverflow)
            else Inr (one_output (spec_dtype input) out_shape [constr])))"

definition InferReshape :: "op_params \<Rightarrow> tensor_spec list \<Rightarrow> inference_result result" where
  "InferReshape params inputs =
     (case params of
        ReshapeParams target \<Rightarrow>
          and_then (require (reshape_literals_ok target)) (\<lambda>_.
          and_then (require (length (filter (\<lambda>d. d = ReshapeInferDim) target) \<le> 1)) (\<lambda>_.
          and_then (ValidateInferenceInputCount kReshape inputs) (\<lambda>_.
          let input = inputs ! 0 in
          and_then (rank_at_least (spec_shape input) 0) (\<lambda>input_rank.
          and_then (require (reshape_axes_ok target input_rank)) (\<lambda>_.
          and_then (traverse (reshape_dim_symbol (spec_shape input)) target) (\<lambda>output_dims.
          and_then (resolve_output (spec_shape input) target output_dims) (\<lambda>out_shape.
            check_volumes input out_shape)))))))
      | _ \<Rightarrow> InvalidArgument)"

section \<open>Dispatch\<close>

definition InferOperator :: "op_type \<Rightarrow> op_params \<Rightarrow> tensor_spec list \<Rightarrow> inference_result result" where
  "InferOperator op params inputs =
     (case op of
        kEmbedding \<Rightarrow> InferEmbedding params inputs
      | kRmsNorm \<Rightarrow> InferRmsNorm params inputs
      | op_type.kLinear \<Rightarrow> InferLinear params inputs
      | kRoPE \<Rightarrow> InferRoPE params inputs
      | kMatMul \<Rightarrow> InferMatMul params inputs
      | kSoftmax \<Rightarrow> InferSoftmax params inputs
      | kAdd \<Rightarrow> InferAdd params inputs
      | kSiluMul \<Rightarrow> InferSiluMul params inputs
      | kKVCacheUpdate \<Rightarrow> InferKVCacheUpdate params inputs
      | kAttention \<Rightarrow> InferAttention params inputs
      | kArgmax \<Rightarrow> InferArgmax params inputs
      | kSilu \<Rightarrow> InferSilu params inputs
      | kElementwiseMul \<Rightarrow> InferElementwiseMul params inputs
      | kReshape \<Rightarrow> InferReshape params inputs
      | kPermute \<Rightarrow> InferPermute params inputs
      | kReorder \<Rightarrow> InferReorder params inputs
      | op_type.kUnknown \<Rightarrow> InvalidArgument)"

section \<open>Failures\<close>

definition safe :: "'a result \<Rightarrow> bool" where
  "safe r \<longleftrightarrow> (\<forall>e. r = Inl e \<longrightarrow> e = Error kInvalidArgument \<or> e = Error kOverflow)"

lemma rejects_safe: "rejects r \<Longrightarrow> safe r"
  by (auto simp: rejects_def safe_def)

lemma safe_simps [simp]:
  "safe (Inr x)" "safe InvalidArgument" "safe (Inl (Error kOverflow))" "safe (require b)"
  "safe (and_then m f) \<longleftrightarrow> safe m \<and> (\<forall>x. m = Inr x \<longrightarrow> safe (f x))"
  by (auto simp: safe_def require_def and_then_eq_Inl)

lemma safe_leaves [simp]:
  "safe (dim_at s i) \<longleftrightarrow> (\<exists>n. rank s = Some n \<and> i < n)" "safe (rank_at_least s n)"
  "op \<noteq> op_type.kUnknown \<Longrightarrow> safe (ValidateInferenceInputCount op inputs)"
  "IsStatic d \<Longrightarrow> safe (GetStaticValue d)" "v \<ge> 0 \<Longrightarrow> safe (CreateFromValue v)"
  by (auto simp: rejects_safe safe_def dim_at_def rank_def GetStaticValue_def CreateFromValue_def rank_at_least_def input_count
      split: option.splits if_splits)

lemma safe_traverse: "(\<And>x. x \<in> set xs \<Longrightarrow> safe (f x)) \<Longrightarrow> safe (traverse f xs)"
  by (auto simp: safe_def dest!: traverse_eq_Inl)

lemma safe_multiply:
  "\<forall>i \<in> set axes. \<exists>d. dim_at s i = Inr d \<and> IsStatic d \<Longrightarrow> safe (multiply_axes s axes p)"
proof (induction axes arbitrary: p)
  case (Cons i axes)
  then obtain d where "dim_at s i = Inr d" "IsStatic d" by auto
  then show ?case using Cons by (auto simp: GetStaticValue_def split: prod.splits)
qed simp

lemma resolve_symbolic [simp]:
  "ResolveSymbolicDim (input_dim 0 i) [Some ds] outs = (if i < length ds then Inr (Some (ds ! i)) else Inl Check_Failed)"
  "ResolveSymbolicDim (output_dim 0 i) ins [Some ds] = (if i < length ds then Inr (Some (ds ! i)) else Inl Check_Failed)"
  by (simp_all add: ResolveSymbolicDim_def ResolveShape_def input_dim_def output_dim_def rank_def dim_at_def check_def)

lemma resolve_output [simp]:
  "d < length (outs ! 0) \<Longrightarrow> outs \<noteq> [] \<Longrightarrow> ResolveRuntimeDim (output_dim 0 d) ins outs = Inr (outs ! 0 ! d)"
  by (simp add: ResolveRuntimeDim_def ResolveMutableTensor_def output_dim_def)

lemma safe_volume:
  "(\<And>l. l \<in> set ls \<Longrightarrow> \<exists>d. ResolveSymbolicDim l ins outs = Inr d) \<Longrightarrow> \<exists>r. symbolic_volume ls p ins outs = Inr r"
proof (induction ls arbitrary: p)
  case (Cons l ls)
  then obtain d where d: "ResolveSymbolicDim l ins outs = Inr d" by auto
  show ?case
  proof (cases d)
    case (Some a)
    then show ?thesis using d Cons.IH [OF Cons.prems] by (auto split: prod.splits)
  qed (use d in simp)
qed simp

lemma safe_identical:
  "(\<And>l. l \<in> set ls \<union> set rs \<Longrightarrow> \<exists>d. ResolveSymbolicDim l ins outs = Inr d) \<Longrightarrow> \<exists>r. identical_dims ls rs ins outs = Inr r"
proof (induction ls rs ins outs rule: identical_dims.induct)
  case (1 l ls r rs inputs outputs)
  obtain a b where "ResolveSymbolicDim l inputs outputs = Inr a" "ResolveSymbolicDim r inputs outputs = Inr b"
    using 1(2) [of l] 1(2) [of r] by auto
  then show ?case using 1 by auto
qed auto

lemma reshape_constraint_total:
  "\<exists>ev. EvaluateSymbolicConstraint (MakeVolumeEqualConstraint (Some ds) (Some os)) [Some ds] [Some os] = Inr ev"
proof -
  let ?ls = "map (input_dim 0) [0..<length ds]" and ?rs = "map (output_dim 0) [0..<length os]"
  have r: "\<exists>d. ResolveSymbolicDim l [Some ds] [Some os] = Inr d" if "l \<in> set ?ls \<union> set ?rs" for l using that by auto
  obtain i where "identical_dims ?ls ?rs [Some ds] [Some os] = Inr i" using safe_identical [of ?ls ?rs] r by blast
  then obtain a where "HaveIdenticalSymbolicDims ?ls ?rs [Some ds] [Some os] = Inr a"
    unfolding HaveIdenticalSymbolicDims_def by (cases "length ?ls = length ?rs") auto
  moreover obtain b where "symbolic_volume ?ls 1 [Some ds] [Some os] = Inr b" using safe_volume [of ?ls] r by blast
  moreover obtain c where "symbolic_volume ?rs 1 [Some ds] [Some os] = Inr c" using safe_volume [of ?rs] r by blast
  ultimately show ?thesis by (simp add: MakeVolumeEqualConstraint_def rank_value_def rank_def EvaluateSymbolicVolumeConstraint_def)
qed

lemma AllDimsStaticExcept_eq:
  "AllDimsStaticExcept (Some ds) k = Inr (\<forall>i < length ds. i \<noteq> k \<longrightarrow> IsStatic (ds ! i))"
proof -
  have "traverse (\<lambda>i. if i = k then Inr True else and_then (dim_at (Some ds) i) (\<lambda>d. Inr (IsStatic d))) [0..<length ds] =
      Inr (map (\<lambda>i. i = k \<or> IsStatic (ds ! i)) [0..<length ds])"
    by (rule traverse_total) (auto simp: dim_at_def)
  then show ?thesis by (auto simp: AllDimsStaticExcept_def rank_value_def rank_def list_all_iff)
qed

lemma TryResolve_safe: "k < length os \<Longrightarrow> safe (TryResolveInferDim (Some ds) (Some os) k)"
proof -
  assume k: "k < length os"
  have m: "safe (multiply_axes (Some os) (filter (\<lambda>i. i \<noteq> k) [0..<length os]) 1)" if "\<forall>i < length os. i \<noteq> k \<longrightarrow> IsStatic (os ! i)"
    by (rule safe_multiply) (use that in \<open>auto simp: dim_at_def\<close>)
  have n: "safe (MultiplyStaticDims (Some ds) 1)" if "list_all IsStatic ds"
    unfolding MultiplyStaticDims_def by (rule safe_multiply) (use that in \<open>auto simp: dim_at_def rank_value_def rank_def list_all_length\<close>)
  show ?thesis using k m n
    by (auto simp: TryResolveInferDim_def AllDimsStaticExcept_eq IsStaticShape_def rank_value_def rank_def Let_def set_dim_def)
qed

lemma infer_position_less: "infer_position target = Some i \<Longrightarrow> i < length target \<and> target ! i = ReshapeInferDim"
  by (auto simp: infer_position_def find_Some_iff)

lemma TryResolve_ranked: "TryResolveInferDim (Some ds) (Some os) k = Inr s \<Longrightarrow> \<exists>os'. s = Some os' \<and> length os' = length os"
  by (auto simp: TryResolveInferDim_def AllDimsStaticExcept_eq set_dim_def Let_def split: if_splits)

lemma safe_bind: "safe m \<Longrightarrow> (\<And>x. m = Inr x \<Longrightarrow> safe (f x)) \<Longrightarrow> safe (and_then m f)"
  by simp

lemma safe_symbols:
  "reshape_literals_ok target \<Longrightarrow> reshape_axes_ok target (length ds) \<Longrightarrow> safe (traverse (reshape_dim_symbol (Some ds)) target)"
  by (rule safe_traverse)
    (auto simp: reshape_literals_ok_def reshape_axes_ok_def reshape_dim_symbol_def list_all_iff rank_def split: reshape_dim.splits)

lemma safe_resolve_output:
  assumes "traverse (reshape_dim_symbol (Some ds)) target = Inr os"
  shows "safe (resolve_output (Some ds) target os)"
proof (cases "infer_position target")
  case (Some i)
  have "i < length os" using infer_position_less [OF Some] assms by (auto simp: traverse_eq_Inr)
  then show ?thesis using TryResolve_safe by (simp add: resolve_output_def Some)
qed (simp add: resolve_output_def)

lemma resolve_output_ranked: "resolve_output (Some ds) target os = Inr u \<Longrightarrow> \<exists>os'. u = Some os' \<and> length os' = length os"
  by (auto simp: resolve_output_def dest: TryResolve_ranked split: option.splits)

lemma safe_check_volumes: "spec_shape a = Some ds \<Longrightarrow> safe (check_volumes a (Some os))"
  using reshape_constraint_total [of ds os] by (auto simp: check_volumes_def Let_def split: evaluation.splits)

lemma safe_Reshape: "safe (InferReshape params inputs)"
proof (cases params)
  case (ReshapeParams target)
  let ?a = "inputs ! 0"
  have tail: "safe (and_then (traverse (reshape_dim_symbol (spec_shape ?a)) target) (\<lambda>os.
      and_then (resolve_output (spec_shape ?a) target os) (check_volumes ?a)))"
    if t: "reshape_literals_ok target" "rank_at_least (spec_shape ?a) 0 = Inr r" "reshape_axes_ok target r" for r
  proof -
    obtain ds where ds: "spec_shape ?a = Some ds" "r = length ds" using rank_at_leastD [OF t(2)] by (auto simp: rank_def)
    have "safe (check_volumes ?a u)" if "resolve_output (Some ds) target os = Inr u" for os u
      using resolve_output_ranked [OF that] safe_check_volumes [OF ds(1)] by auto
    then show ?thesis unfolding ds(1)
      using safe_symbols [OF t(1) t(3) [unfolded ds(2)]] safe_resolve_output by (intro safe_bind) auto
  qed
  show ?thesis unfolding InferReshape_def ReshapeParams op_params.case Let_def
    by (intro safe_bind) (use tail in auto)
qed (auto simp: InferReshape_def)

section \<open>Volumes\<close>

text \<open>The values of dimensions are those of an \<open>int64_t\<close>.\<close>

definition int64_dims :: "int list \<Rightarrow> bool" where
  "int64_dims v = list_all (\<lambda>d. 0 \<le> d \<and> d < 2 ^ 63) v"

lemma unat_dim: "0 \<le> d \<Longrightarrow> d < 2 ^ 63 \<Longrightarrow> int (unat (word_of_int d :: u64)) = d"
  by (simp add: uint_word_of_int_eq take_bit_int_eq_self)

lemma multiply_axes_product:
  assumes "shape_denotes \<sigma> s v" and "int64_dims v" and "multiply_axes s axes p = Inr q"
  shows "int (unat q) = int (unat p) * prod_list (map ((!) v) axes)"
  using assms(3)
proof (induction axes arbitrary: p)
  case (Cons i axes)
  then obtain d where d: "dim_at s i = Inr d" "IsStatic d"
    and o: "\<not> fst (CheckOverflowMul_u p (word_of_int (dim_value d)))"
    and rest: "multiply_axes s axes (snd (CheckOverflowMul_u p (word_of_int (dim_value d)))) = Inr q"
    by (auto simp: GetStaticValue_def split_beta split: if_splits)
  have v: "i < length v" "v ! i = dim_value d" using dim_at_denotes [OF assms(1) d(1)] d(2) by (auto simp: denotes_static)
  have "0 \<le> v ! i" "v ! i < 2 ^ 63" using assms(2) v(1) by (auto simp: int64_dims_def list_all_length)
  then show ?case using Cons.IH [OF rest] mul_u_exact [OF o] unat_dim [of "v ! i"] v(2) by (simp add: ac_simps)
qed simp

lemma runtime_volume_product:
  assumes "\<And>l. l \<in> set locs \<Longrightarrow> ResolveRuntimeDim l ins outs = Inr (f l) \<and> 0 \<le> f l \<and> f l < 2 ^ 63"
    and "runtime_volume locs p ins outs = Inr q"
  shows "int (unat q) = int (unat p) * prod_list (map f locs)"
  using assms
proof (induction locs arbitrary: p)
  case (Cons l locs)
  have f: "ResolveRuntimeDim l ins outs = Inr (f l)" "0 \<le> f l" "f l < 2 ^ 63" using Cons.prems(1) [of l] by auto
  have o: "\<not> fst (CheckOverflowMul_u p (word_of_int (f l)))"
    and rest: "runtime_volume locs (snd (CheckOverflowMul_u p (word_of_int (f l)))) ins outs = Inr q"
    using Cons.prems(2) f(1) by (auto simp: split_beta)
  show ?case using Cons.IH [OF Cons.prems(1) rest] mul_u_exact [OF o] unat_dim [OF f(2,3)] by (simp add: ac_simps)
qed simp

lemma input_volume:
  assumes "int64_dims x" and "runtime_volume (map (input_dim 0) [0..<length x]) 1 [x] [y] = Inr q"
  shows "int (unat q) = prod_list x"
proof -
  have "int (unat q) = int (unat (1 :: u64)) * prod_list (map (\<lambda>l. x ! dim_index l) (map (input_dim 0) [0..<length x]))"
    by (rule runtime_volume_product [OF _ assms(2)])
      (use assms(1) in \<open>auto simp: int64_dims_def list_all_length, auto simp: input_dim_def\<close>)
  also have "map (\<lambda>l. x ! dim_index l) (map (input_dim 0) [0..<length x]) = x"
    by (simp add: input_dim_def map_nth comp_def)
  finally show ?thesis by simp
qed

lemma output_volume:
  assumes "int64_dims y" and "runtime_volume (map (output_dim 0) [0..<length y]) 1 [x] [y] = Inr q"
  shows "int (unat q) = prod_list y"
proof -
  have "int (unat q) = int (unat (1 :: u64)) * prod_list (map (\<lambda>l. y ! dim_index l) (map (output_dim 0) [0..<length y]))"
    by (rule runtime_volume_product [OF _ assms(2)])
      (use assms(1) in \<open>auto simp: int64_dims_def list_all_length, auto simp: output_dim_def\<close>)
  also have "map (\<lambda>l. y ! dim_index l) (map (output_dim 0) [0..<length y]) = y"
    by (simp add: output_dim_def map_nth comp_def)
  finally show ?thesis by simp
qed

lemma identical_dims_eq:
  "length js = length ks \<Longrightarrow> identical_dims (map (input_dim 0) js) (map (output_dim 0) ks) [Some ds] [Some os] = Inr True \<Longrightarrow>
    map ((!) ds) js = map ((!) os) ks"
  by (induction js ks rule: list_induct2) (auto split: if_splits)

section \<open>Soundness\<close>

definition reshape_matches :: "reshape_dim list \<Rightarrow> int list \<Rightarrow> int list \<Rightarrow> bool" where
  "reshape_matches target x y \<longleftrightarrow>
     list_all2 (\<lambda>t v. v \<ge> 0 \<and> (case t of ReshapeLiteralDim k \<Rightarrow> v = k | ReshapeInputDim a \<Rightarrow> v = x ! a | ReshapeInferDim \<Rightarrow> True)) target y"

lemma symbols_denote:
  assumes "traverse (reshape_dim_symbol s) target = Inr os" and "shape_denotes \<sigma> s x" and "reshape_matches target x y"
  shows "list_all2 (denotes \<sigma>) os y"
proof -
  have l: "length os = length target" "length y = length target"
    using assms(1,3) by (auto simp: traverse_eq_Inr reshape_matches_def dest: list_all2_lengthD)
  have "denotes \<sigma> (os ! i) (y ! i)" if i: "i < length target" for i
  proof -
    have s: "reshape_dim_symbol s (target ! i) = Inr (os ! i)" using assms(1) i by (simp add: traverse_eq_Inr)
    have y: "y ! i \<ge> 0" "case target ! i of ReshapeLiteralDim k \<Rightarrow> y ! i = k | ReshapeInputDim a \<Rightarrow> y ! i = x ! a | ReshapeInferDim \<Rightarrow> True"
      using assms(3) i by (auto simp: reshape_matches_def list_all2_conv_all_nth)
    show ?thesis
    proof (cases "target ! i")
      case (ReshapeLiteralDim k)
      then have "os ! i = ShapeSymbol (y ! i)" using s y by (simp add: reshape_dim_symbol_def CreateFromValue_def)
      then show ?thesis using y(1) by (simp add: denotes_def)
    next
      case (ReshapeInputDim a)
      then show ?thesis using s y dim_at_denotes [OF assms(2)] by (simp add: reshape_dim_symbol_def)
    next
      case ReshapeInferDim
      then have "os ! i = Unknown" using s by (simp add: reshape_dim_symbol_def)
      then show ?thesis using y(1) by simp
    qed
  qed
  then show ?thesis using l by (simp add: list_all2_conv_all_nth)
qed

lemma prod_without:
  assumes "k < length (y :: int list)"
  shows "prod_list y = y ! k * prod_list (map ((!) y) (filter (\<lambda>i. i \<noteq> k) [0..<length y]))"
proof -
  have "prod_list y = prod_list (take k y @ y ! k # drop (Suc k) y)" using assms by (simp add: id_take_nth_drop [symmetric])
  then show ?thesis using map_nth_without [OF assms] by (simp add: ac_simps)
qed

text \<open>The resolved dimension is the only one that keeps the volume.\<close>

lemma resolved_denotes:
  assumes "TryResolveInferDim (Some ds) (Some os) k = Inr u" and "k < length os"
    and "list_all2 (denotes \<sigma>) ds x" and "list_all2 (denotes \<sigma>) os y" and "int64_dims x" and "int64_dims y"
    and "prod_list x = prod_list y"
  shows "shape_denotes \<sigma> u y"
proof (cases "u = Some os")
  case True
  then show ?thesis using assms(4) by simp
next
  case False
  have l: "length os = length y" using assms(4) by (auto dest: list_all2_lengthD)
  have lx: "length ds = length x" using assms(3) by (auto dest: list_all2_lengthD)
  obtain vol rest where m: "MultiplyStaticDims (Some ds) 1 = Inr vol"
    "multiply_axes (Some os) (filter (\<lambda>i. i \<noteq> k) [0..<length os]) 1 = Inr rest" "rest \<noteq> 0"
    "u = Some (os[k := ShapeSymbol (uint (vol div rest))])"
    using assms(1,2) False
    by (auto simp: TryResolveInferDim_def AllDimsStaticExcept_eq rank_value_def rank_def Let_def set_dim_def CreateFromValue_def
        split: if_splits)
  have v: "int (unat vol) = prod_list x"
    using multiply_axes_product [of \<sigma> "Some ds" x "[0..<length x]" 1 vol] m(1) assms(3,5) lx
    by (simp add: MultiplyStaticDims_def rank_value_def rank_def map_nth)
  have r: "int (unat rest) = prod_list (map ((!) y) (filter (\<lambda>i. i \<noteq> k) [0..<length y]))"
    using multiply_axes_product [of \<sigma> "Some os" y _ 1 rest] m(2) assms(4,6) l by simp
  have "int (unat vol) = y ! k * int (unat rest)" using v r prod_without [of k y] assms(2,7) l by simp
  moreover have "int (unat rest) \<noteq> 0" using m(3) unat_eq_zero [of rest] by (simp only: of_nat_eq_0_iff not_False_eq_True)
  ultimately have "uint (vol div rest) = y ! k" by (simp add: uint_div)
  moreover have "y ! k \<ge> 0" using assms(6) assms(2) l by (simp add: int64_dims_def list_all_length)
  ultimately have "denotes \<sigma> (ShapeSymbol (uint (vol div rest))) (y ! k)" by (simp add: denotes_def)
  from list_all2_update_cong [OF assms(4) this, of k] show ?thesis by (simp add: m(4))
qed

lemma satisfied_volumes:
  assumes "EvaluateSymbolicConstraint (MakeVolumeEqualConstraint (Some ds) (Some os)) [Some ds] [Some os] = Inr kSatisfied"
    and "list_all2 (denotes \<sigma>) ds x" and "list_all2 (denotes \<sigma>) os y" and "known (Some ds)" and "int64_dims x" and "int64_dims y"
  shows "prod_list x = prod_list y"
proof -
  have l: "length ds = length x" "length os = length y" using assms(2,3) by (auto dest: list_all2_lengthD)
  have d: "describes \<sigma> [Some ds] [x]" "describes \<sigma> [Some os] [y]" using assms(2,3) by simp_all
  from assms(1) have e: "EvaluateSymbolicVolumeConstraint (map (input_dim 0) [0..<length x]) (map (output_dim 0) [0..<length y]) [Some ds] [Some os] = Inr kSatisfied"
    by (simp add: MakeVolumeEqualConstraint_def rank_value_def rank_def l)
  have ne: "kSatisfied \<noteq> kDeferred" by simp
  from volume_cases [OF e ne] show ?thesis
  proof (cases)
    case 1
    then have "length x = length y" "map ((!) ds) [0..<length x] = map ((!) os) [0..<length y]"
      using identical_dims_eq [of "[0..<length x]" "[0..<length y]"] by auto
    then have "ds = os" using l by (metis map_nth)
    have "x = y"
    proof (rule nth_equalityI)
      fix i assume "i < length x"
      then show "x ! i = y ! i" using assms(2-4) \<open>ds = os\<close> l known_denotes_same [of "ds ! i" \<sigma> "x ! i" "y ! i"]
        by (auto simp: list_all2_conv_all_nth known_def list_all_length)
    qed (use \<open>length x = length y\<close> in simp)
    then show ?thesis by simp
  next
    case (2 p q)
    then have "p = q" by (auto split: if_splits)
    then show ?thesis using input_volume [OF assms(5) symbolic_volume_runtime [OF d 2(1)]]
      output_volume [OF assms(6) symbolic_volume_runtime [OF d 2(2)]] by simp
  qed
qed

lemma runtime_volumes_equal:
  assumes "EvaluateRuntimeConstraint (MakeVolumeEqualConstraint (Some ds) (Some os)) [x] [y] = Inr kSatisfied"
    and "length ds = length x" and "length os = length y" and "int64_dims x" and "int64_dims y"
  shows "prod_list x = prod_list y"
proof -
  obtain p where "runtime_volume (map (input_dim 0) [0..<length x]) 1 [x] [y] = Inr p"
    "runtime_volume (map (output_dim 0) [0..<length y]) 1 [x] [y] = Inr p"
    using assms(1-3) by (auto simp: MakeVolumeEqualConstraint_def rank_value_def rank_def EvaluateRuntimeVolumeConstraint_def split: if_splits)
  then show ?thesis using input_volume [OF assms(4)] output_volume [OF assms(5)] by metis
qed

lemma check_volumesD:
  assumes "check_volumes spec u = Inr res"
  obtains ev where "EvaluateSymbolicConstraint (MakeVolumeEqualConstraint (spec_shape spec) u) [spec_shape spec] [u] = Inr ev"
    "res = one_output (spec_dtype spec) u (if ev = kSatisfied then [] else [MakeVolumeEqualConstraint (spec_shape spec) u])"
proof -
  obtain ev where e: "EvaluateSymbolicConstraint (MakeVolumeEqualConstraint (spec_shape spec) u) [spec_shape spec] [u] = Inr ev"
    using assms by (auto simp: check_volumes_def Let_def)
  then show thesis using that assms by (cases ev) (auto simp: check_volumes_def Let_def split: if_splits)
qed

text \<open>C16: inference of Reshape is sound when no dimension of the input is unknown.  Let the input have a
  runtime shape that its specification describes and let an output shape follow the target: literal
  sizes, sizes of input axes, any size at the marker.  If the two shapes have the same volume, the
  inferred specification describes the output; and if it describes the output and the run-time checks
  pass, the two shapes have the same volume.\<close>

theorem infer_reshape_sound:
  assumes "InferReshape (ReshapeParams target) [spec] = Inr res" and "shape_denotes \<sigma> (spec_shape spec) x" and "known (spec_shape spec)"
    and "reshape_matches target x y" and "int64_dims x" and "int64_dims y"
  shows "(prod_list x = prod_list y \<longrightarrow> describes \<sigma> (map spec_shape (outputs res)) [y]) \<and>
    (describes \<sigma> (map spec_shape (outputs res)) [y] \<and> ValidateShapeConstraints (runtime_checks res) [x] [y] = Inr () \<longrightarrow>
      prod_list x = prod_list y)"
proof -
  obtain ds os u where i: "spec_shape spec = Some ds" "traverse (reshape_dim_symbol (Some ds)) target = Inr os"
    "resolve_output (Some ds) target os = Inr u" "check_volumes spec u = Inr res"
    using assms(1) by (auto simp: InferReshape_def dest!: rank_at_leastD) (auto simp: rank_def)
  obtain us where us: "u = Some us" "length us = length os" using resolve_output_ranked [OF i(3)] by blast
  have d: "list_all2 (denotes \<sigma>) ds x" "list_all2 (denotes \<sigma>) os y"
    using assms(2) symbols_denote [OF i(2)] assms(2,4) i(1) by simp_all
  let ?c = "MakeVolumeEqualConstraint (Some ds) (Some us)"
  obtain ev where ev: "EvaluateSymbolicConstraint ?c [Some ds] [Some us] = Inr ev"
    "res = one_output (spec_dtype spec) u (if ev = kSatisfied then [] else [?c])"
    using check_volumesD [OF i(4), unfolded i(1) us(1)] unfolding us(1) by blast
  have "shape_denotes \<sigma> u y" if "prod_list x = prod_list y"
  proof (cases "infer_position target")
    case None
    then show ?thesis using i(3) d(2) by (auto simp: resolve_output_def)
  next
    case (Some k)
    have "k < length os" using infer_position_less [OF Some] i(2) by (auto simp: traverse_eq_Inr)
    then show ?thesis using resolved_denotes [OF _ _ d assms(5,6) that] i(3) by (simp add: resolve_output_def Some)
  qed
  moreover have "prod_list x = prod_list y"
    if v: "shape_denotes \<sigma> u y" "ValidateShapeConstraints (runtime_checks res) [x] [y] = Inr ()"
  proof (cases "ev = kSatisfied")
    case True
    then show ?thesis using satisfied_volumes [OF _ d(1) _ _ assms(5,6)] ev(1) v(1) us(1) assms(3) i(1) by simp
  next
    case False
    then have "EvaluateRuntimeConstraint ?c [x] [y] = Inr kSatisfied" using v(2)
      unfolding validate_iff by (simp add: ev(2) one_output_def)
    from runtime_volumes_equal [OF this _ _ assms(5,6)] show ?thesis
      using list_all2_lengthD [OF d(1)] list_all2_lengthD [OF d(2)] us(2) by simp
  qed
  ultimately show ?thesis by (simp add: ev(2) one_output_def)
qed

definition float32_spec :: "int list \<Rightarrow> tensor_spec" where
  "float32_spec ds = \<lparr>spec_dtype = made dt_Float32, spec_shape = Some (map ShapeSymbol ds)\<rparr>"

theorem infer_reshape_sound_witness:
  "\<exists>res. InferReshape (ReshapeParams [ReshapeInputDim 0, ReshapeInferDim]) [float32_spec [- 2, 3, 4]] = Inr res \<and>
     describes (\<lambda>_. 5) (map spec_shape (outputs res)) [[5, 12]]"
proof -
  let ?t = "[ReshapeInputDim 0, ReshapeInferDim]" and ?s = "float32_spec [- 2, 3, 4]"
  obtain res where r: "InferReshape (ReshapeParams ?t) [?s] = Inr res"
    proof -
    have "case InferReshape (ReshapeParams ?t) [?s] of Inr _ \<Rightarrow> True | Inl _ \<Rightarrow> False" by code_simp
    then show thesis using that by (cases "InferReshape (ReshapeParams ?t) [?s]") simp_all
  qed
  have "shape_denotes (\<lambda>_. 5) (spec_shape ?s) [5, 3, 4]" "known (spec_shape ?s)" "reshape_matches ?t [5, 3, 4] [5, 12]"
    "int64_dims [5, 3, 4]" "int64_dims [5, 12]"
    by (simp_all add: float32_spec_def denotes_def known_def reshape_matches_def int64_dims_def)
  from infer_reshape_sound [OF r this] r show ?thesis by auto
qed

text \<open>With two unknown input dimensions the volumes are taken to be equal and no check is left.\<close>

lemma reshape_unknown_unchecked:
  "\<exists>res. InferReshape (ReshapeParams [ReshapeInputDim 0, ReshapeInputDim 0]) [float32_spec [- 1, - 1]] = Inr res \<and>
     runtime_checks res = [] \<and> reshape_matches [ReshapeInputDim 0, ReshapeInputDim 0] [2, 3] [2, 2] \<and>
     describes (\<lambda>_. 0) (map spec_shape (outputs res)) [[2, 2]] \<and> prod_list [2, 3] \<noteq> (prod_list [2, 2] :: int)"
proof -
  let ?r = "InferReshape (ReshapeParams [ReshapeInputDim 0, ReshapeInputDim 0]) [float32_spec [- 1, - 1]]"
  have "case ?r of Inr res \<Rightarrow> runtime_checks res = [] \<and> map spec_shape (outputs res) = [Some [Unknown, Unknown]] | Inl _ \<Rightarrow> False"
    by code_simp
  then show ?thesis by (cases ?r) (simp_all add: reshape_matches_def denotes_def)
qed

lemma InferOperator_exact:
  assumes "InferOperator op params inputs = Inr res" and "op \<noteq> kReshape"
    and "op = kArgmax \<Longrightarrow> IsRanked (spec_shape (inputs ! 0))"
  shows "exact op params inputs res"
  using assms InferAdd_exact InferSiluMul_exact InferElementwiseMul_exact InferSilu_exact InferSoftmax_exact InferReorder_exact
    InferRmsNorm_exact InferEmbedding_exact InferLinear_exact InferMatMul_exact InferRoPE_exact InferAttention_exact
    InferKVCacheUpdate_exact InferArgmax_exact InferPermute_exact
  by (cases op) (simp_all add: InferOperator_def)





end
