(* ===== verification/Model_Graph.thy ===== *)
theory Model_Graph
  imports Reshape_Inference
begin

text \<open>
  \<open>graph_types.h\<close>, \<open>graph.h\<close> and \<open>graph.cpp\<close>: the computation graph.  Nodes and values are stored in two
  vectors; the identifiers are their positions.  \<open>AddNode\<close> checks a node and infers the
  specifications of its outputs before it changes the graph; \<open>ValidateAndTopologicalOrder\<close> replays all
  of this on the stored graph and sorts the nodes.  Messages are left out, also those of the
  constraints.  \<open>std::get\<close> on another alternative is \<open>Check_Failed\<close>.
\<close>

section \<open>Types\<close>

datatype parameter_slot = kKernel | kBias | kScale | kShift | kEmbeddingTable

datatype transformer_weight_role =
  kTokenEmbedding | kInputNorm | kAttentionQ | kAttentionK | kAttentionV | kAttentionO | kMlpGate | kMlpUp | kMlpDown
| kPostAttentionNorm | kFinalNorm | kLmHead | kMoERouter

record weight_binding =
  weight_slot :: parameter_slot
  weight_layer :: "nat option"
  semantic_role :: "transformer_weight_role option"

fun SlotForTransformerRole :: "transformer_weight_role \<Rightarrow> parameter_slot" where
  "SlotForTransformerRole kTokenEmbedding = kEmbeddingTable"
| "SlotForTransformerRole kInputNorm = kScale"
| "SlotForTransformerRole kPostAttentionNorm = kScale"
| "SlotForTransformerRole kFinalNorm = kScale"
| "SlotForTransformerRole _ = kKernel"

record constant_binding =
  inline_data :: "8 word list option"
  constant_name :: string

datatype quantization_kind = kNoQuantization | kInt8 | kInt4

record quantization_spec =
  quantization_kind_of :: quantization_kind
  group_size :: nat
  scale_dtype :: data_type
  has_zero_point :: bool

definition QuantizationSpec :: quantization_spec where
  "QuantizationSpec = \<lparr>quantization_kind_of = kNoQuantization, group_size = 0, scale_dtype = DataType_default, has_zero_point = False\<rparr>"

datatype kv_cache_slot = kKey | kValue

datatype state_binding = KVCacheStateBinding nat kv_cache_slot | DecodeStateBinding | StreamingStateBinding

datatype payload =
  Monostate | ModelInputValue | ActivationValue | WeightValue weight_binding | ConstantValue constant_binding
| StateValue state_binding

record graph_value =
  value_payload :: payload
  spec :: tensor_spec
  producer :: "nat option"
  quantization :: quantization_spec
  value_name :: string

record graph_node =
  node_op :: op_type
  decoder_layer_index :: "nat option"
  node_inputs :: "nat list"
  node_outputs :: "nat list"
  attrs :: "8 word list"
  params_of :: op_params
  node_checks :: "shape_constraint list"
  node_name :: string

record node_output_desc =
  desc_payload :: payload
  desc_quantization :: quantization_spec
  desc_name :: string

record added_node =
  added_id :: nat
  added_outputs :: "nat list"

record model_graph =
  nodes :: "graph_node list"
  vals :: "graph_value list"
  graph_inputs :: "nat list"
  graph_outputs :: "nat list"

definition empty_graph :: model_graph where
  "empty_graph = \<lparr>nodes = [], vals = [], graph_inputs = [], graph_outputs = []\<rparr>"

section \<open>Helpers\<close>

definition IsValidNodeId :: "nat \<Rightarrow> graph_node list \<Rightarrow> bool" where
  "IsValidNodeId i ns \<longleftrightarrow> i < length ns"

definition IsValidValueId :: "nat \<Rightarrow> graph_value list \<Rightarrow> bool" where
  "IsValidValueId i vs \<longleftrightarrow> i < length vs"

definition NextNodeIndex :: "graph_node list \<Rightarrow> nat result" where
  "NextNodeIndex ns = and_then (check (length ns < 2 ^ 32 - 1)) (\<lambda>_. Inr (length ns))"

definition NextValueIndex :: "graph_value list \<Rightarrow> nat result" where
  "NextValueIndex vs = and_then (check (length vs < 2 ^ 32 - 1)) (\<lambda>_. Inr (length vs))"

fun PayloadMatchesPort :: "payload \<Rightarrow> port_kind \<Rightarrow> bool" where
  "PayloadMatchesPort p kModelInput \<longleftrightarrow> p = ModelInputValue"
| "PayloadMatchesPort p kActivation \<longleftrightarrow> (case p of ActivationValue \<Rightarrow> True | ConstantValue _ \<Rightarrow> True | _ \<Rightarrow> False)"
| "PayloadMatchesPort p kWeight \<longleftrightarrow> (case p of WeightValue _ \<Rightarrow> True | _ \<Rightarrow> False)"
| "PayloadMatchesPort p kConstant \<longleftrightarrow> (case p of ConstantValue _ \<Rightarrow> True | _ \<Rightarrow> False)"
| "PayloadMatchesPort p kState \<longleftrightarrow> (case p of StateValue _ \<Rightarrow> True | _ \<Rightarrow> False)"

definition get_weight :: "payload \<Rightarrow> weight_binding result" where
  "get_weight p = (case p of WeightValue b \<Rightarrow> Inr b | _ \<Rightarrow> Inl Check_Failed)"

definition get_state :: "payload \<Rightarrow> state_binding result" where
  "get_state p = (case p of StateValue b \<Rightarrow> Inr b | _ \<Rightarrow> Inl Check_Failed)"

definition SameStateFamily :: "state_binding \<Rightarrow> state_binding \<Rightarrow> bool" where
  "SameStateFamily l r \<longleftrightarrow> l = r"

definition SameStateCollection :: "state_binding \<Rightarrow> state_binding \<Rightarrow> bool" where
  "SameStateCollection l r =
     (case (l, r) of (KVCacheStateBinding i _, KVCacheStateBinding j _) \<Rightarrow> i = j | _ \<Rightarrow> False)"

definition RequireStateCollection :: "state_binding \<Rightarrow> state_binding \<Rightarrow> unit result" where
  "RequireStateCollection l r = require (SameStateCollection l r)"

definition RequireStateLayerMatchesNode :: "state_binding \<Rightarrow> nat option \<Rightarrow> unit result" where
  "RequireStateLayerMatchesNode b layer = require (case b of KVCacheStateBinding i _ \<Rightarrow> layer = Some i | _ \<Rightarrow> False)"

definition RequireStateSlot :: "state_binding \<Rightarrow> kv_cache_slot \<Rightarrow> unit result" where
  "RequireStateSlot b expected = require (case b of KVCacheStateBinding _ s \<Rightarrow> s = expected | _ \<Rightarrow> False)"

definition ExpectedWeightSlotForOp :: "op_type \<Rightarrow> parameter_slot option" where
  "ExpectedWeightSlotForOp op =
     (case op of kEmbedding \<Rightarrow> Some kEmbeddingTable | kRmsNorm \<Rightarrow> Some kScale | op_type.kLinear \<Rightarrow> Some kKernel | _ \<Rightarrow> None)"

definition TransformerRoleRequiresLayer :: "transformer_weight_role \<Rightarrow> bool" where
  "TransformerRoleRequiresLayer r \<longleftrightarrow> (case r of kTokenEmbedding \<Rightarrow> False | kFinalNorm \<Rightarrow> False | kLmHead \<Rightarrow> False | _ \<Rightarrow> True)"

definition ValidateWeightBindingSelfConsistency :: "weight_binding \<Rightarrow> unit result" where
  "ValidateWeightBindingSelfConsistency b =
     (case semantic_role b of
        None \<Rightarrow> Inr ()
      | Some r \<Rightarrow>
          if weight_slot b \<noteq> SlotForTransformerRole r then InvalidArgument
          else if TransformerRoleRequiresLayer r \<and> weight_layer b = None then InvalidArgument
          else if \<not> TransformerRoleRequiresLayer r \<and> weight_layer b \<noteq> None then InvalidArgument
          else Inr ())"

text \<open>Every slot of a cache is known, so that a state binding is always consistent.\<close>

definition ValidateStateBindingSelfConsistency :: "state_binding \<Rightarrow> unit result" where
  "ValidateStateBindingSelfConsistency b =
     (case b of KVCacheStateBinding _ s \<Rightarrow> (case s of kKey \<Rightarrow> Inr () | kValue \<Rightarrow> Inr ()) | _ \<Rightarrow> Inr ())"

definition input_state :: "graph_value list \<Rightarrow> nat list \<Rightarrow> nat \<Rightarrow> state_binding result" where
  "input_state vs inputs i = get_state (value_payload (vs ! (inputs ! i)))"

text \<open>The test of one cache output of \<open>KVCacheUpdate\<close>, when there is one.\<close>

definition check_state_output :: "state_binding option list \<Rightarrow> nat \<Rightarrow> kv_cache_slot \<Rightarrow> state_binding \<Rightarrow> unit result" where
  "check_state_output outs i expected in_binding =
     (if i < length outs \<and> outs ! i \<noteq> None then
        and_then (RequireStateSlot (the (outs ! i)) expected) (\<lambda>_. require (SameStateFamily in_binding (the (outs ! i))))
      else Inr ())"

definition ValidateStateBindingsForNode ::
  "op_type \<Rightarrow> nat option \<Rightarrow> operator_schema \<Rightarrow> graph_value list \<Rightarrow> nat list \<Rightarrow> state_binding option list \<Rightarrow> unit result" where
  "ValidateStateBindingsForNode op layer schema vs inputs outs =
     (if op = kKVCacheUpdate then
        and_then (FindInputPortIndex schema ''k_cache_in'') (\<lambda>k_in_idx.
        and_then (FindInputPortIndex schema ''v_cache_in'') (\<lambda>v_in_idx.
        and_then (FindOutputPortIndex schema ''k_cache_out'') (\<lambda>k_out_idx.
        and_then (FindOutputPortIndex schema ''v_cache_out'') (\<lambda>v_out_idx.
        and_then (input_state vs inputs k_in_idx) (\<lambda>k_in.
        and_then (RequireStateSlot k_in kKey) (\<lambda>_.
        and_then (RequireStateLayerMatchesNode k_in layer) (\<lambda>_.
        and_then (check_state_output outs k_out_idx kKey k_in) (\<lambda>_.
        and_then (input_state vs inputs v_in_idx) (\<lambda>v_in.
        and_then (RequireStateSlot v_in kValue) (\<lambda>_.
        and_then (RequireStateLayerMatchesNode v_in layer) (\<lambda>_.
        and_then (RequireStateCollection k_in v_in) (\<lambda>_.
          check_state_output outs v_out_idx kValue v_in))))))))))))
      else if op = kAttention then
        and_then (FindInputPortIndex schema ''k_cache'') (\<lambda>k_idx.
        and_then (FindInputPortIndex schema ''v_cache'') (\<lambda>v_idx.
        and_then (input_state vs inputs k_idx) (\<lambda>k_cache.
        and_then (input_state vs inputs v_idx) (\<lambda>v_cache.
        and_then (RequireStateSlot k_cache kKey) (\<lambda>_.
        and_then (RequireStateSlot v_cache kValue) (\<lambda>_.
        and_then (RequireStateLayerMatchesNode k_cache layer) (\<lambda>_.
        and_then (RequireStateLayerMatchesNode v_cache layer) (\<lambda>_.
          RequireStateCollection k_cache v_cache))))))))
      else Inr ())"

definition CarriesProducerDependency :: "graph_value \<Rightarrow> bool" where
  "CarriesProducerDependency v =
     (case value_payload v of ActivationValue \<Rightarrow> True | StateValue _ \<Rightarrow> producer v \<noteq> None | _ \<Rightarrow> False)"

definition NodeListsOutput :: "graph_node \<Rightarrow> nat \<Rightarrow> bool" where
  "NodeListsOutput n v \<longleftrightarrow> v \<in> set (node_outputs n)"

definition ShapeConstraintsEquivalent :: "shape_constraint \<Rightarrow> shape_constraint \<Rightarrow> bool" where
  "ShapeConstraintsEquivalent l r \<longleftrightarrow> l = r"

definition ValidateValueSelfConsistency :: "graph_value \<Rightarrow> nat \<Rightarrow> graph_node list \<Rightarrow> unit result" where
  "ValidateValueSelfConsistency v i ns =
     (case value_payload v of
        Monostate \<Rightarrow> InvalidArgument
      | ActivationValue \<Rightarrow>
          (case producer v of
             None \<Rightarrow> InvalidArgument
           | Some p \<Rightarrow> if \<not> IsValidNodeId p ns then InvalidArgument else require (NodeListsOutput (ns ! p) i))
      | StateValue b \<Rightarrow>
          and_then (ValidateStateBindingSelfConsistency b) (\<lambda>_.
            case producer v of
              None \<Rightarrow> Inr ()
            | Some p \<Rightarrow> if \<not> IsValidNodeId p ns then InvalidArgument else require (NodeListsOutput (ns ! p) i))
      | ConstantValue _ \<Rightarrow> require (producer v = None)
      | WeightValue b \<Rightarrow> if producer v \<noteq> None then InvalidArgument else ValidateWeightBindingSelfConsistency b
      | ModelInputValue \<Rightarrow> require (producer v = None))"

section \<open>AddNode\<close>

definition normalized :: "payload \<Rightarrow> payload" where
  "normalized p = (if p = Monostate then ActivationValue else p)"

definition ValidateAddNodePorts :: "operator_schema \<Rightarrow> graph_value list \<Rightarrow> nat list \<Rightarrow> node_output_desc list \<Rightarrow> unit result" where
  "ValidateAddNodePorts schema vs inputs descs =
     (if length inputs \<noteq> length (input_ports schema) then InvalidArgument
      else if length descs \<noteq> length (output_ports schema) then InvalidArgument
      else
        and_then (traverse (\<lambda>i.
            if \<not> IsValidValueId (inputs ! i) vs then InvalidArgument
            else require (PayloadMatchesPort (value_payload (vs ! (inputs ! i))) (in_kind (input_ports schema ! i))))
          [0..<length inputs]) (\<lambda>_.
        and_then (traverse (\<lambda>i.
            require (PayloadMatchesPort (normalized (desc_payload (descs ! i))) (out_kind (output_ports schema ! i))))
          [0..<length descs]) (\<lambda>_. Inr ())))"

definition state_of :: "payload \<Rightarrow> state_binding option" where
  "state_of p = (case p of StateValue b \<Rightarrow> Some b | _ \<Rightarrow> None)"

definition ValidateAddNodeBindings ::
  "op_type \<Rightarrow> nat option \<Rightarrow> operator_schema \<Rightarrow> graph_value list \<Rightarrow> nat list \<Rightarrow> node_output_desc list \<Rightarrow> unit result" where
  "ValidateAddNodeBindings op layer schema vs inputs descs =
     and_then (traverse (\<lambda>i.
         and_then
           (if in_kind (input_ports schema ! i) = kWeight then
              and_then (get_weight (value_payload (vs ! (inputs ! i)))) (\<lambda>b.
              and_then (ValidateWeightBindingSelfConsistency b) (\<lambda>_.
                require (case ExpectedWeightSlotForOp op of None \<Rightarrow> True | Some s \<Rightarrow> weight_slot b = s)))
            else Inr ()) (\<lambda>_.
           if in_kind (input_ports schema ! i) = kState then
             and_then (get_state (value_payload (vs ! (inputs ! i)))) ValidateStateBindingSelfConsistency
           else Inr ()))
       [0..<length inputs]) (\<lambda>_.
       ValidateStateBindingsForNode op layer schema vs inputs (map (\<lambda>d. state_of (desc_payload d)) descs))"

text \<open>A status of any code becomes an invalid argument.\<close>

definition as_invalid :: "'a result \<Rightarrow> 'a result" where
  "as_invalid r = (case r of Inl (Error _) \<Rightarrow> InvalidArgument | _ \<Rightarrow> r)"

definition InferAddNodeOutputs :: "op_type \<Rightarrow> op_params \<Rightarrow> operator_schema \<Rightarrow> graph_value list \<Rightarrow> nat list \<Rightarrow> inference_result result" where
  "InferAddNodeOutputs op params schema vs inputs =
     and_then (as_invalid (InferOperator op params (map (\<lambda>v. spec (vs ! v)) inputs))) (\<lambda>inference.
       if length (outputs inference) \<noteq> length (output_ports schema) then InvalidArgument else Inr inference)"

definition StageAddNodeOutputs ::
  "nat \<Rightarrow> nat \<Rightarrow> node_output_desc list \<Rightarrow> tensor_spec list \<Rightarrow> (nat list \<times> graph_value list) result" where
  "StageAddNodeOutputs node_id base_value_idx descs inferred =
     and_then (traverse (\<lambda>i. and_then (check (base_value_idx + i < 2 ^ 32 - 1)) (\<lambda>_. Inr (base_value_idx + i)))
       [0..<length descs]) (\<lambda>ids.
       Inr (ids, map (\<lambda>i.
         \<lparr>value_payload = normalized (desc_payload (descs ! i)), spec = inferred ! i, producer = Some node_id,
          quantization = desc_quantization (descs ! i), value_name = desc_name (descs ! i)\<rparr>) [0..<length descs]))"

definition AddNode ::
  "op_type \<Rightarrow> nat option \<Rightarrow> nat list \<Rightarrow> node_output_desc list \<Rightarrow> op_params \<Rightarrow> 8 word list \<Rightarrow> string \<Rightarrow> model_graph \<Rightarrow>
   (added_node \<times> model_graph) result" where
  "AddNode op layer inputs descs params attr_bytes name g =
     and_then (NextNodeIndex (nodes g)) (\<lambda>node_idx.
     if attr_bytes \<noteq> [] then InvalidArgument
     else
       and_then (as_invalid (GetOperatorSchema op)) (\<lambda>schema.
       and_then (as_invalid (ValidateAddNodePorts schema (vals g) inputs descs)) (\<lambda>_.
       and_then (as_invalid (ValidateAddNodeBindings op layer schema (vals g) inputs descs)) (\<lambda>_.
       and_then (as_invalid (InferAddNodeOutputs op params schema (vals g) inputs)) (\<lambda>inference.
       and_then (NextValueIndex (vals g)) (\<lambda>base_value_idx.
       and_then (StageAddNodeOutputs node_idx base_value_idx descs (outputs inference)) (\<lambda>(ids, vs).
         Inr (\<lparr>added_id = node_idx, added_outputs = ids\<rparr>,
           g\<lparr>vals := vals g @ vs,
             nodes := nodes g @ [\<lparr>node_op = op, decoder_layer_index = layer, node_inputs = inputs, node_outputs = ids,
               attrs = attr_bytes, params_of = params, node_checks = runtime_checks inference, node_name = name\<rparr>]\<rparr>))))))))"

section \<open>Other values\<close>

definition add_value :: "payload \<Rightarrow> tensor_spec \<Rightarrow> string \<Rightarrow> model_graph \<Rightarrow> (nat \<times> model_graph) result" where
  "add_value p sp name g =
     and_then (NextValueIndex (vals g)) (\<lambda>value_id.
       Inr (value_id, g\<lparr>vals := vals g @
         [\<lparr>value_payload = p, spec = sp, producer = None, quantization = QuantizationSpec, value_name = name\<rparr>]\<rparr>))"

definition AddInput :: "tensor_spec \<Rightarrow> string \<Rightarrow> model_graph \<Rightarrow> (nat \<times> model_graph) result" where
  "AddInput sp name g =
     and_then (add_value ModelInputValue sp name g) (\<lambda>(value_id, g').
       Inr (value_id, g'\<lparr>graph_inputs := graph_inputs g' @ [value_id]\<rparr>))"

definition AddWeight :: "tensor_spec \<Rightarrow> weight_binding \<Rightarrow> string \<Rightarrow> model_graph \<Rightarrow> (nat \<times> model_graph) result" where
  "AddWeight sp binding name g = add_value (WeightValue binding) sp name g"

definition AddConstant :: "tensor_spec \<Rightarrow> constant_binding \<Rightarrow> string \<Rightarrow> model_graph \<Rightarrow> (nat \<times> model_graph) result" where
  "AddConstant sp binding name g = add_value (ConstantValue binding) sp name g"

definition AddState :: "tensor_spec \<Rightarrow> state_binding \<Rightarrow> string \<Rightarrow> model_graph \<Rightarrow> (nat \<times> model_graph) result" where
  "AddState sp binding name g = add_value (StateValue binding) sp name g"

definition MarkOutput :: "nat \<Rightarrow> model_graph \<Rightarrow> model_graph" where
  "MarkOutput v g = g\<lparr>graph_outputs := graph_outputs g @ [v]\<rparr>"

text \<open>\<open>vector::at\<close> throws on an invalid id, here \<open>None\<close>.\<close>

definition SetQuantization :: "nat \<Rightarrow> quantization_spec \<Rightarrow> model_graph \<Rightarrow> model_graph option" where
  "SetQuantization v q g =
     (if v < length (vals g) then Some (g\<lparr>vals := (vals g)[v := (vals g ! v)\<lparr>quantization := q\<rparr>]\<rparr>) else None)"

definition FindNodesByOpType :: "op_type \<Rightarrow> model_graph \<Rightarrow> nat list" where
  "FindNodesByOpType op g = filter (\<lambda>i. node_op (nodes g ! i) = op) [0..<length (nodes g)]"

section \<open>TopologicalOrder\<close>

text \<open>The edges of one node: \<open>outgoing\<close> and \<open>indegree\<close> as in the code.\<close>

primrec add_edges :: "model_graph \<Rightarrow> nat \<Rightarrow> nat list \<Rightarrow> nat list list \<times> nat list \<Rightarrow> (nat list list \<times> nat list) result" where
  "add_edges g n [] acc = Inr acc"
| "add_edges g n (input # inputs) acc =
     (if \<not> IsValidValueId input (vals g) then InvalidArgument
      else if \<not> CarriesProducerDependency (vals g ! input) then add_edges g n inputs acc
      else case producer (vals g ! input) of
        None \<Rightarrow> InvalidArgument
      | Some p \<Rightarrow>
          if \<not> IsValidNodeId p (nodes g) then InvalidArgument
          else if p = n then InvalidArgument
          else add_edges g n inputs
            ((fst acc)[p := fst acc ! p @ [n]], (snd acc)[n := snd acc ! n + 1]))"

primrec collect_edges :: "model_graph \<Rightarrow> nat list \<Rightarrow> nat list list \<times> nat list \<Rightarrow> (nat list list \<times> nat list) result" where
  "collect_edges g [] acc = Inr acc"
| "collect_edges g (n # ns) acc = and_then (add_edges g n (node_inputs (nodes g ! n)) acc) (collect_edges g ns)"

primrec release_consumers :: "nat list \<Rightarrow> nat list \<Rightarrow> nat list \<Rightarrow> nat list \<times> nat list" where
  "release_consumers [] indegree ready = (indegree, ready)"
| "release_consumers (c # cs) indegree ready =
     (let indegree' = indegree[c := indegree ! c - 1]
      in release_consumers cs indegree' (if indegree' ! c = 0 then ready @ [c] else ready))"

partial_function (option) kahn_loop :: "nat list list \<Rightarrow> nat list \<Rightarrow> nat list \<Rightarrow> nat list \<Rightarrow> nat list option" where
  "kahn_loop outgoing indegree ready order =
     (case ready of
        [] \<Rightarrow> Some order
      | node # rest \<Rightarrow>
          (case release_consumers (outgoing ! node) indegree rest of
             (indegree', ready') \<Rightarrow> kahn_loop outgoing indegree' ready' (order @ [node])))"

text \<open>The outer option is whether the loop ends.\<close>

definition TopologicalOrder :: "model_graph \<Rightarrow> nat list result option" where
  "TopologicalOrder g =
     (let n = length (nodes g)
      in case collect_edges g [0..<n] (replicate n [], replicate n 0) of
           Inl e \<Rightarrow> Some (Inl e)
         | Inr (outgoing, indegree) \<Rightarrow>
             map_option (\<lambda>order. if length order \<noteq> n then InvalidArgument else Inr order)
               (kahn_loop outgoing indegree (filter (\<lambda>i. indegree ! i = 0) [0..<n]) []))"

section \<open>Validate\<close>

definition spec_eq :: "tensor_spec \<Rightarrow> tensor_spec \<Rightarrow> bool result" where
  "spec_eq a b = and_then (dtype_eq (spec_dtype a) (spec_dtype b)) (\<lambda>eq. Inr (eq \<and> spec_shape a = spec_shape b))"

definition validate_graph_output :: "model_graph \<Rightarrow> nat \<Rightarrow> unit result" where
  "validate_graph_output g v =
     (if \<not> IsValidValueId v (vals g) then InvalidArgument
      else case value_payload (vals g ! v) of
        ActivationValue \<Rightarrow> require (producer (vals g ! v) \<noteq> None)
      | ConstantValue _ \<Rightarrow> Inr ()
      | _ \<Rightarrow> InvalidArgument)"

definition validate_node_input :: "model_graph \<Rightarrow> operator_schema \<Rightarrow> graph_node \<Rightarrow> nat \<Rightarrow> unit result" where
  "validate_node_input g schema node i =
     (let v = node_inputs node ! i; kind = in_kind (input_ports schema ! i)
      in if \<not> IsValidValueId v (vals g) then InvalidArgument
         else if \<not> PayloadMatchesPort (value_payload (vals g ! v)) kind then InvalidArgument
         else if kind = kWeight then
           and_then (get_weight (value_payload (vals g ! v))) (\<lambda>b.
             require (case ExpectedWeightSlotForOp (node_op node) of None \<Rightarrow> True | Some s \<Rightarrow> weight_slot b = s))
         else Inr ())"

definition validate_node_output :: "model_graph \<Rightarrow> operator_schema \<Rightarrow> nat \<Rightarrow> graph_node \<Rightarrow> tensor_spec list \<Rightarrow> nat \<Rightarrow> unit result" where
  "validate_node_output g schema n node derived i =
     (let v = node_outputs node ! i
      in if \<not> IsValidValueId v (vals g) then InvalidArgument
         else if producer (vals g ! v) \<noteq> Some n then InvalidArgument
         else if \<not> PayloadMatchesPort (value_payload (vals g ! v)) (out_kind (output_ports schema ! i)) then InvalidArgument
         else and_then (spec_eq (spec (vals g ! v)) (derived ! i)) require)"

definition validate_node :: "model_graph \<Rightarrow> nat \<Rightarrow> unit result" where
  "validate_node g n =
     (let node = nodes g ! n in
      and_then (as_invalid (GetOperatorSchema (node_op node))) (\<lambda>schema.
      if attrs node \<noteq> [] then InvalidArgument
      else if length (node_inputs node) \<noteq> length (input_ports schema) then InvalidArgument
      else if length (node_outputs node) \<noteq> length (output_ports schema) then InvalidArgument
      else
        and_then (traverse (validate_node_input g schema node) [0..<length (node_inputs node)]) (\<lambda>_.
        and_then (as_invalid (InferOperator (node_op node) (params_of node) (map (\<lambda>v. spec (vals g ! v)) (node_inputs node)))) (\<lambda>derived.
        if length (outputs derived) \<noteq> length (node_outputs node) then InvalidArgument
        else
          and_then (traverse (validate_node_output g schema n node (outputs derived)) [0..<length (node_outputs node)]) (\<lambda>_.
          if length (runtime_checks derived) \<noteq> length (node_checks node) then InvalidArgument
          else
            and_then (traverse (\<lambda>i. require (ShapeConstraintsEquivalent (runtime_checks derived ! i) (node_checks node ! i)))
              [0..<length (node_checks node)]) (\<lambda>_.
            and_then (traverse (\<lambda>v. require (v \<notin> set (node_inputs node))) (node_outputs node)) (\<lambda>_.
              as_invalid (ValidateStateBindingsForNode (node_op node) (decoder_layer_index node) schema (vals g) (node_inputs node)
                (map (\<lambda>v. state_of (value_payload (vals g ! v))) (node_outputs node))))))))))"

definition ValidateAndTopologicalOrder :: "model_graph \<Rightarrow> nat list result option" where
  "ValidateAndTopologicalOrder g =
     (case and_then (traverse (\<lambda>v. require (IsValidValueId v (vals g))) (graph_inputs g)) (\<lambda>_.
           and_then (traverse (validate_graph_output g) (graph_outputs g)) (\<lambda>_.
           and_then (traverse (\<lambda>i. ValidateValueSelfConsistency (vals g ! i) i (nodes g)) [0..<length (vals g)]) (\<lambda>_.
             traverse (validate_node g) [0..<length (nodes g)]))) of
        Inl e \<Rightarrow> Some (Inl e)
      | Inr _ \<Rightarrow> TopologicalOrder g)"

section \<open>Consumers\<close>

primrec index_inputs :: "nat \<Rightarrow> nat list \<Rightarrow> nat list list \<Rightarrow> nat list list result" where
  "index_inputs n [] index = Inr index"
| "index_inputs n (v # vs) index =
     (if v \<ge> length index then InvalidArgument else index_inputs n vs (index[v := index ! v @ [n]]))"

primrec index_nodes :: "model_graph \<Rightarrow> nat list \<Rightarrow> nat list list \<Rightarrow> nat list list result" where
  "index_nodes g [] index = Inr index"
| "index_nodes g (n # ns) index = and_then (index_inputs n (node_inputs (nodes g ! n)) index) (index_nodes g ns)"

definition BuildConsumerIndex :: "model_graph \<Rightarrow> nat list list result" where
  "BuildConsumerIndex g = index_nodes g [0..<length (nodes g)] (replicate (length (vals g)) [])"

definition GetConsumers :: "nat list list \<Rightarrow> nat \<Rightarrow> nat list" where
  "GetConsumers index v = (if v \<ge> length index then [] else index ! v)"

end
