(* ===== verification/Graph_Order.thy ===== *)
theory Graph_Order
  imports Model_Graph
begin

text \<open>
  \<open>TopologicalOrder\<close> is correct: it ends, the order it returns puts every producer before its
  consumers, and it finds an order whenever there is one.
\<close>

section \<open>Dependencies\<close>

definition deps_of :: "model_graph \<Rightarrow> nat list \<Rightarrow> nat list" where
  "deps_of g inputs = map (\<lambda>v. the (producer (vals g ! v))) (filter (\<lambda>v. CarriesProducerDependency (vals g ! v)) inputs)"

definition deps :: "model_graph \<Rightarrow> nat \<Rightarrow> nat list" where
  "deps g n = deps_of g (node_inputs (nodes g ! n))"

definition edge_ok :: "model_graph \<Rightarrow> nat \<Rightarrow> nat \<Rightarrow> bool" where
  "edge_ok g n v \<longleftrightarrow> v < length (vals g) \<and>
     (CarriesProducerDependency (vals g ! v) \<longrightarrow> (\<exists>p. producer (vals g ! v) = Some p \<and> p < length (nodes g) \<and> p \<noteq> n))"

definition edges_ok :: "model_graph \<Rightarrow> bool" where
  "edges_ok g \<longleftrightarrow> (\<forall>n < length (nodes g). \<forall>v \<in> set (node_inputs (nodes g ! n)). edge_ok g n v)"

definition topological :: "model_graph \<Rightarrow> nat list \<Rightarrow> bool" where
  "topological g order \<longleftrightarrow> distinct order \<and> set order = {..<length (nodes g)} \<and>
     (\<forall>i < length order. set (deps g (order ! i)) \<subseteq> set (take i order))"

lemma deps_bound: "edges_ok g \<Longrightarrow> n < length (nodes g) \<Longrightarrow> set (deps g n) \<subseteq> {..<length (nodes g)}"
  unfolding edges_ok_def edge_ok_def deps_def deps_of_def by fastforce

section \<open>Collecting the edges\<close>

lemma add_edges_ok:
  assumes "\<forall>v \<in> set inputs. edge_ok g n v" and "length (fst acc) = length (nodes g)" and "length (snd acc) = length (nodes g)"
    and "n < length (nodes g)"
  shows "\<exists>out deg. add_edges g n inputs acc = Inr (out, deg) \<and> length out = length (nodes g) \<and> length deg = length (nodes g) \<and>
    (\<forall>p < length (nodes g). out ! p = fst acc ! p @ replicate (count_list (deps_of g inputs) p) n) \<and>
    deg = (snd acc)[n := snd acc ! n + length (deps_of g inputs)]"
  using assms(1-3)
proof (induction inputs arbitrary: acc)
  case Nil
  then show ?case by (cases acc) (simp add: deps_of_def)
next
  case (Cons v vs)
  show ?case
  proof (cases "CarriesProducerDependency (vals g ! v)")
    case False
    then show ?thesis using Cons by (simp add: deps_of_def edge_ok_def IsValidValueId_def)
  next
    case True
    then obtain p where p: "producer (vals g ! v) = Some p" "p < length (nodes g)" "p \<noteq> n" "v < length (vals g)"
      using Cons.prems(1) by (auto simp: edge_ok_def)
    let ?acc = "((fst acc)[p := fst acc ! p @ [n]], (snd acc)[n := snd acc ! n + 1])"
    have "\<forall>v \<in> set vs. edge_ok g n v" "length (fst ?acc) = length (nodes g)" "length (snd ?acc) = length (nodes g)" using Cons.prems by simp_all
    from Cons.IH [OF this] obtain out deg where ih: "add_edges g n vs ?acc = Inr (out, deg)" "length out = length (nodes g)"
      "length deg = length (nodes g)" "\<forall>q < length (nodes g). out ! q = fst ?acc ! q @ replicate (count_list (deps_of g vs) q) n"
      "deg = (snd ?acc)[n := snd ?acc ! n + length (deps_of g vs)]" by (elim exE conjE) (rule that)
    have d: "deps_of g (v # vs) = p # deps_of g vs" using True p(1) by (simp add: deps_of_def)
    have "add_edges g n (v # vs) acc = Inr (out, deg)" using True p ih(1) by (simp add: IsValidValueId_def IsValidNodeId_def)
    moreover have "\<forall>q < length (nodes g). out ! q = fst acc ! q @ replicate (count_list (deps_of g (v # vs)) q) n"
      using ih(4) Cons.prems(2) p(2) unfolding d by (auto simp: nth_list_update replicate_append_same [symmetric])
    moreover have "deg = (snd acc)[n := snd acc ! n + length (deps_of g (v # vs))]"
      unfolding ih(5) d using assms(4) Cons.prems(3) by simp
    ultimately show ?thesis using ih(2,3) by blast
  qed
qed

lemma add_edges_bad: "\<not> (\<forall>v \<in> set inputs. edge_ok g n v) \<Longrightarrow> add_edges g n inputs acc = InvalidArgument"
  by (induction inputs arbitrary: acc)
    (auto simp: edge_ok_def IsValidValueId_def IsValidNodeId_def CarriesProducerDependency_def split: option.splits)

lemma collect_edges_ok:
  assumes "\<forall>n \<in> set ns. \<forall>v \<in> set (node_inputs (nodes g ! n)). edge_ok g n v" and "set ns \<subseteq> {..<length (nodes g)}" and "distinct ns"
    and "length (fst acc) = length (nodes g)" and "length (snd acc) = length (nodes g)"
  shows "\<exists>out deg. collect_edges g ns acc = Inr (out, deg) \<and> length out = length (nodes g) \<and> length deg = length (nodes g) \<and>
    (\<forall>p < length (nodes g). out ! p = fst acc ! p @ concat (map (\<lambda>n. replicate (count_list (deps g n) p) n) ns)) \<and>
    (\<forall>c < length (nodes g). deg ! c = snd acc ! c + (if c \<in> set ns then length (deps g c) else 0))"
  using assms
proof (induction ns arbitrary: acc)
  case Nil
  then show ?case by (cases acc) simp
next
  case (Cons n ns)
  obtain out deg where a: "add_edges g n (node_inputs (nodes g ! n)) acc = Inr (out, deg)" "length out = length (nodes g)"
    "length deg = length (nodes g)" "\<forall>p < length (nodes g). out ! p = fst acc ! p @ replicate (count_list (deps g n) p) n"
    "deg = (snd acc)[n := snd acc ! n + length (deps g n)]"
    using add_edges_ok [of "node_inputs (nodes g ! n)" g n acc] Cons.prems unfolding deps_def by auto
  have "\<forall>n \<in> set ns. \<forall>v \<in> set (node_inputs (nodes g ! n)). edge_ok g n v" "set ns \<subseteq> {..<length (nodes g)}" "distinct ns"
    "length (fst (out, deg)) = length (nodes g)" "length (snd (out, deg)) = length (nodes g)" using Cons.prems a(2,3) by simp_all
  from Cons.IH [OF this] obtain out' deg' where b: "collect_edges g ns (out, deg) = Inr (out', deg')" "length out' = length (nodes g)"
    "length deg' = length (nodes g)"
    "\<forall>p < length (nodes g). out' ! p = out ! p @ concat (map (\<lambda>n. replicate (count_list (deps g n) p) n) ns)"
    "\<forall>c < length (nodes g). deg' ! c = deg ! c + (if c \<in> set ns then length (deps g c) else 0)" by auto
  have "\<forall>p < length (nodes g). out' ! p = fst acc ! p @ concat (map (\<lambda>n. replicate (count_list (deps g n) p) n) (n # ns))"
    using a(4) b(4) by simp
  moreover have "deg' ! c = snd acc ! c + (if c \<in> set (n # ns) then length (deps g c) else 0)" if "c < length (nodes g)" for c
    using b(5) [rule_format, OF that] Cons.prems(3,5) that unfolding a(5) by (cases "c = n") auto
  ultimately show ?case using a(1) b(1-3) by simp
qed

lemma collect_edges_bad:
  "\<not> (\<forall>n \<in> set ns. \<forall>v \<in> set (node_inputs (nodes g ! n)). edge_ok g n v) \<Longrightarrow> set ns \<subseteq> {..<length (nodes g)} \<Longrightarrow>
    length (fst acc) = length (nodes g) \<Longrightarrow> length (snd acc) = length (nodes g) \<Longrightarrow> collect_edges g ns acc = InvalidArgument"
proof (induction ns arbitrary: acc)
  case (Cons n ns)
  show ?case
  proof (cases "\<forall>v \<in> set (node_inputs (nodes g ! n)). edge_ok g n v")
    case False
    then show ?thesis using add_edges_bad by simp
  next
    case True
    from add_edges_ok [OF True Cons.prems(3,4)] Cons show ?thesis using True by auto
  qed
qed simp

section \<open>The loop\<close>

lemma release_consumers_ok:
  assumes "\<And>c. count_list cs c \<le> deg ! c" and "set cs \<subseteq> {..<length deg}"
  shows "\<exists>deg' new. release_consumers cs deg ready = (deg', ready @ new) \<and> length deg' = length deg \<and>
    (\<forall>c < length deg. deg' ! c = deg ! c - count_list cs c) \<and> distinct new \<and> set new = {c \<in> set cs. deg ! c = count_list cs c}"
  using assms
proof (induction cs arbitrary: deg ready)
  case Nil
  then show ?case by simp
next
  case (Cons c cs)
  let ?deg = "deg[c := deg ! c - 1]" and ?ready = "if deg ! c - 1 = 0 then ready @ [c] else ready"
  have c: "c < length deg" "set cs \<subseteq> {..<length ?deg}" using Cons.prems(2) by simp_all
  have le: "count_list cs x \<le> ?deg ! x" for x using Cons.prems(1) [of x] c(1) by (cases "x = c") auto
  obtain deg' new where ih: "release_consumers cs ?deg ?ready = (deg', ?ready @ new)" "length deg' = length ?deg"
    "\<forall>x < length ?deg. deg' ! x = ?deg ! x - count_list cs x" "distinct new" "set new = {x \<in> set cs. ?deg ! x = count_list cs x}"
    using Cons.IH [of ?deg ?ready] le c(2) by blast
  have pos: "0 < deg ! c" using Cons.prems(1) [of c] by simp
  have d: "deg' ! x = deg ! x - count_list (c # cs) x" if "x < length deg" for x using ih(3) that c(1) by (cases "x = c") auto
  have same: "deg ! x = count_list (c # cs) x \<longleftrightarrow> ?deg ! x = count_list cs x" for x using c(1) pos by (cases "x = c") auto
  have new: "set new = {x \<in> set cs. deg ! x = count_list (c # cs) x}" unfolding ih(5) same ..
  show ?case
  proof (cases "deg ! c - 1 = 0")
    case True
    then have "count_list cs c = 0" using le [of c] c(1) by simp
    then have n: "c \<notin> set cs" "deg ! c = count_list (c # cs) c" using True pos by (auto simp: count_list_0_iff)
    have "set (c # new) = {x \<in> set (c # cs). deg ! x = count_list (c # cs) x}" using new n by auto
    moreover have "distinct (c # new)" using ih(4) new n(1) by auto
    moreover have "release_consumers (c # cs) deg ready = (deg', ready @ c # new)" using ih(1) True c(1) by simp
    ultimately show ?thesis using d ih(2) by (intro exI [of _ deg'] exI [of _ "c # new"]) auto
  next
    case False
    then have "c \<in> set cs" if "deg ! c = count_list (c # cs) c" using that by (cases "c \<in> set cs") auto
    then have "set new = {x \<in> set (c # cs). deg ! x = count_list (c # cs) x}" unfolding new by auto
    moreover have "release_consumers (c # cs) deg ready = (deg', ready @ new)" using ih(1) False c(1) by simp
    ultimately show ?thesis using d ih(2,4) by (intro exI [of _ deg'] exI [of _ new]) auto
  qed
qed

text \<open>
  \<open>D c\<close> are the producers that node \<open>c\<close> depends on, of \<open>n\<close> nodes.  The nodes sorted or ready are those
  whose remaining producers are none.
\<close>

definition kahn_inv :: "nat \<Rightarrow> (nat \<Rightarrow> nat list) \<Rightarrow> nat list \<Rightarrow> nat list \<Rightarrow> nat list \<Rightarrow> bool" where
  "kahn_inv n D deg ready order \<longleftrightarrow>
     distinct (order @ ready) \<and> set (order @ ready) \<subseteq> {..<n} \<and> length deg = n \<and>
     (\<forall>c < n. deg ! c = length (filter (\<lambda>p. p \<notin> set order) (D c)) \<and> (deg ! c = 0 \<longleftrightarrow> c \<in> set (order @ ready))) \<and>
     (\<forall>i < length order. set (D (order ! i)) \<subseteq> set (take i order))"

definition out_ok :: "nat \<Rightarrow> (nat \<Rightarrow> nat list) \<Rightarrow> nat list list \<Rightarrow> bool" where
  "out_ok n D out \<longleftrightarrow> (\<forall>p < n. set (out ! p) \<subseteq> {..<n} \<and> (\<forall>c < n. count_list (out ! p) c = count_list (D c) p))"

lemma count_filter: "p \<notin> S \<Longrightarrow> length (filter (\<lambda>x. x \<notin> insert p S) xs) = length (filter (\<lambda>x. x \<notin> S) xs) - count_list xs p"
  and count_le: "p \<notin> S \<Longrightarrow> count_list xs p \<le> length (filter (\<lambda>x. x \<notin> S) xs)"
proof -
  have e: "p \<notin> S \<Longrightarrow> length (filter (\<lambda>x. x \<notin> S) xs) = length (filter (\<lambda>x. x \<notin> insert p S) xs) + count_list xs p"
    by (induction xs) auto
  then show "p \<notin> S \<Longrightarrow> length (filter (\<lambda>x. x \<notin> insert p S) xs) = length (filter (\<lambda>x. x \<notin> S) xs) - count_list xs p"
    and "p \<notin> S \<Longrightarrow> count_list xs p \<le> length (filter (\<lambda>x. x \<notin> S) xs)" by simp_all
qed

lemma kahn_step:
  assumes inv: "kahn_inv n D deg (p # rest) order" and out: "out_ok n D out"
  shows "\<exists>deg' ready'. release_consumers (out ! p) deg rest = (deg', ready') \<and> kahn_inv n D deg' ready' (order @ [p])"
proof -
  have p: "p < n" "p \<notin> set order" "distinct (order @ p # rest)" "set (order @ p # rest) \<subseteq> {..<n}" "length deg = n"
    using inv by (auto simp: kahn_inv_def)
  note dg = inv [unfolded kahn_inv_def, THEN conjunct2, THEN conjunct2, THEN conjunct2, THEN conjunct1, rule_format]
  note deg = dg [THEN conjunct1] dg [THEN conjunct2]
  have o: "set (out ! p) \<subseteq> {..<n}" "count_list (out ! p) c = count_list (D c) p" if "c < n" for c using out p(1) that by (simp_all add: out_ok_def)
  have le: "count_list (out ! p) c \<le> deg ! c" for c
  proof (cases "c < n")
    case True
    then show ?thesis using o(2) deg(1) count_le [OF p(2)] by simp
  next
    case False
    then have "c \<notin> set (out ! p)" using o(1) p(1) by auto
    then show ?thesis by (simp add: count_list_0_iff)
  qed
  have "set (out ! p) \<subseteq> {..<length deg}" using o(1) [OF p(1)] p(5) by simp
  from release_consumers_ok [OF le this, of rest, unfolded p(5)] obtain deg' new where
    "release_consumers (out ! p) deg rest = (deg', rest @ new)"
    "length deg' = n" "\<forall>c < n. deg' ! c = deg ! c - count_list (out ! p) c" "distinct new"
    "set new = {c \<in> set (out ! p). deg ! c = count_list (out ! p) c}" by (elim exE conjE) (rule that)
  note r = this(1,2) this(3) [rule_format] this(4,5)
  have fresh: "c \<notin> set (order @ p # rest) \<and> c < n" if "c \<in> set new" for c
  proof -
    have c: "c \<in> set (out ! p)" "deg ! c = count_list (out ! p) c" using that unfolding r(5) by blast+
    have n: "c < n" using c(1) o(1) [OF p(1)] by blast
    have "count_list (out ! p) c \<noteq> 0" using c(1) by (simp add: count_list_0_iff)
    then show ?thesis using deg(2) [OF n] c(2) n by simp
  qed
  have d': "deg' ! c = length (filter (\<lambda>x. x \<notin> set (order @ [p])) (D c))" if "c < n" for c
    using count_filter [OF p(2), of "D c"] r(3) [OF that] o(2) [OF that] deg(1) [OF that] by simp
  have zero: "deg' ! c = 0 \<longleftrightarrow> c \<in> set ((order @ [p]) @ rest @ new)" if c: "c < n" for c
  proof (cases "deg ! c = 0")
    case True
    then have "c \<in> set (order @ p # rest)" "deg' ! c = 0" using deg(2) [OF c] r(3) [OF c] by simp_all
    then show ?thesis by auto
  next
    case False
    then have "c \<notin> set (order @ p # rest)" using deg(2) [OF c] by simp
    moreover have "deg' ! c = 0 \<longleftrightarrow> deg ! c = count_list (out ! p) c" using r(3) [OF c] le [of c] by linarith
    moreover have "c \<in> set (out ! p)" if "deg ! c = count_list (out ! p) c" using False that by (metis count_list_0_iff)
    ultimately show ?thesis unfolding set_append r(5) by auto
  qed
  have "deg ! p = 0" using deg(2) [OF p(1)] by simp
  then have last: "set (D p) \<subseteq> set order" using deg(1) [OF p(1)] by (auto simp: filter_empty_conv)
  have before: "set (D (order ! i)) \<subseteq> set (take i order)" if "i < length order" for i
    using inv [unfolded kahn_inv_def, THEN conjunct2, THEN conjunct2, THEN conjunct2, THEN conjunct2, rule_format, OF that] .
  have "set (D ((order @ [p]) ! i)) \<subseteq> set (take i (order @ [p]))" if "i < length (order @ [p])" for i
    using that last before by (cases "i = length order") (simp_all add: nth_append)
  moreover have "set new \<inter> set (order @ p # rest) = {}" "set new \<subseteq> {..<n}" using fresh by blast+
  then have "distinct ((order @ [p]) @ rest @ new)" "set ((order @ [p]) @ rest @ new) \<subseteq> {..<n}" using p(3,4) r(4) by auto
  ultimately have "kahn_inv n D deg' (rest @ new) (order @ [p])"
    unfolding kahn_inv_def using r(2) d' zero by (intro conjI allI impI)
  then show ?thesis using r(1) by blast
qed

lemma kahn_loop_ends:
  assumes "kahn_inv n D deg ready order" and "out_ok n D out"
  shows "\<exists>order' deg'. kahn_loop out deg ready order = Some order' \<and> kahn_inv n D deg' [] order'"
  using assms(1)
proof (induction "n - length order" arbitrary: deg ready order rule: less_induct)
  case less
  show ?case
  proof (cases ready)
    case Nil
    then show ?thesis using less.prems by (subst kahn_loop.simps) auto
  next
    case (Cons p rest)
    obtain deg' ready' where s: "release_consumers (out ! p) deg rest = (deg', ready')" "kahn_inv n D deg' ready' (order @ [p])"
      using kahn_step [OF less.prems [unfolded Cons] assms(2)] by blast
    have "card (set (order @ ready)) \<le> n" using less.prems subset_eq_atLeast0_lessThan_card by (auto simp: kahn_inv_def lessThan_atLeast0)
    moreover have "distinct (order @ ready)" using less.prems unfolding kahn_inv_def by blast
    ultimately have "length (order @ ready) \<le> n" by (metis distinct_card)
    then have "n - length (order @ [p]) < n - length order" using Cons by simp
    from less.hyps [OF this s(2)] s(1) Cons show ?thesis by (subst kahn_loop.simps) simp
  qed
qed

section \<open>Correctness\<close>

lemma count_concat_replicate:
  "distinct ns \<Longrightarrow> count_list (concat (map (\<lambda>n. replicate (f n) n) ns)) c = (if c \<in> set ns then f c else 0)"
proof (induction ns)
  case (Cons n ns)
  have "count_list (replicate k n) c = (if n = c then k else 0)" for k by (induction k) auto
  then show ?case using Cons by auto
qed simp

lemma set_concat_replicate: "set (concat (map (\<lambda>n. replicate (f n) n) ns)) \<subseteq> set ns"
  by auto

lemma collect_edges_all:
  assumes "edges_ok g"
  shows "\<exists>out deg. collect_edges g [0..<length (nodes g)] (replicate (length (nodes g)) [], replicate (length (nodes g)) 0) = Inr (out, deg) \<and>
    out_ok (length (nodes g)) (deps g) out \<and>
    kahn_inv (length (nodes g)) (deps g) deg (filter (\<lambda>i. deg ! i = 0) [0..<length (nodes g)]) []"
proof -
  let ?n = "length (nodes g)"
  obtain out deg where c: "collect_edges g [0..<?n] (replicate ?n [], replicate ?n 0) = Inr (out, deg)" "length deg = ?n"
    "\<And>p. p < ?n \<Longrightarrow> out ! p = concat (map (\<lambda>n. replicate (count_list (deps g n) p) n) [0..<?n])"
    "\<And>c. c < ?n \<Longrightarrow> deg ! c = length (deps g c)"
    using collect_edges_ok [of "[0..<?n]" g "(replicate ?n [], replicate ?n 0)"] assms by (auto simp: edges_ok_def lessThan_atLeast0)
  have "out_ok ?n (deps g) out"
    unfolding out_ok_def
  proof (intro allI impI conjI)
    fix p assume p: "p < ?n"
    show "set (out ! p) \<subseteq> {..<?n}"
      unfolding c(3) [OF p] using set_concat_replicate [of "\<lambda>n. count_list (deps g n) p" "[0..<?n]"] by auto
    show "count_list (out ! p) q = count_list (deps g q) p" if "q < ?n" for q
      unfolding c(3) [OF p] using that by (simp add: count_concat_replicate)
  qed
  moreover have "kahn_inv ?n (deps g) deg (filter (\<lambda>i. deg ! i = 0) [0..<?n]) []" using c(2,4) by (auto simp: kahn_inv_def)
  ultimately show ?thesis using c(1) by blast
qed

lemma kahn_complete:
  assumes inv: "kahn_inv (length (nodes g)) (deps g) deg [] order" and t: "topological g t"
  shows "length order = length (nodes g)"
proof -
  let ?n = "length (nodes g)"
  have o: "distinct order" "set order \<subseteq> {..<?n}" "\<And>c. c < ?n \<Longrightarrow> set (deps g c) \<subseteq> set order \<Longrightarrow> c \<in> set order"
    using inv by (auto simp: kahn_inv_def filter_empty_conv subset_iff)
  have len: "length t = ?n" using t distinct_card [of t] by (simp add: topological_def)
  have "t ! i \<in> set order" if "i < ?n" for i
    using that
  proof (induction i rule: less_induct)
    case (less i)
    have "set (deps g (t ! i)) \<subseteq> set (take i t)" using t less.prems len by (simp add: topological_def)
    moreover have "set (take i t) \<subseteq> set order" using less by (auto simp: in_set_conv_nth)
    moreover have "t ! i < ?n" using t less.prems len nth_mem [of i t] by (auto simp: topological_def)
    ultimately show ?case using o(3) by blast
  qed
  then have "set t \<subseteq> set order" using len by (auto simp: in_set_conv_nth)
  then have "set order = {..<?n}" using o(2) t by (auto simp: topological_def)
  then show ?thesis using distinct_card [OF o(1)] by simp
qed

lemma kahn_sound:
  assumes inv: "kahn_inv (length (nodes g)) (deps g) deg [] order" and "length order = length (nodes g)"
  shows "topological g order"
proof -
  have "set order = {..<length (nodes g)}"
    using inv assms(2) by (intro card_subset_eq) (auto simp: kahn_inv_def distinct_card)
  then show ?thesis using inv by (simp add: topological_def kahn_inv_def)
qed

lemma TopologicalOrder_cases:
  "TopologicalOrder g = Some InvalidArgument \<and> \<not> (edges_ok g \<and> (\<exists>t. topological g t)) \<or>
   (\<exists>order. TopologicalOrder g = Some (Inr order) \<and> edges_ok g \<and> topological g order)"
proof (cases "edges_ok g")
  case True
  obtain out deg where c: "collect_edges g [0..<length (nodes g)] (replicate (length (nodes g)) [], replicate (length (nodes g)) 0) = Inr (out, deg)"
    "out_ok (length (nodes g)) (deps g) out" "kahn_inv (length (nodes g)) (deps g) deg (filter (\<lambda>i. deg ! i = 0) [0..<length (nodes g)]) []"
    using collect_edges_all [OF True] by blast
  obtain order deg' where k: "kahn_loop out deg (filter (\<lambda>i. deg ! i = 0) [0..<length (nodes g)]) [] = Some order"
    "kahn_inv (length (nodes g)) (deps g) deg' [] order" using kahn_loop_ends [OF c(3,2)] by blast
  show ?thesis
  proof (cases "length order = length (nodes g)")
    case False
    then show ?thesis using c(1) k(1) kahn_complete [OF k(2)] by (auto simp: TopologicalOrder_def)
  qed (use True c(1) k(1) kahn_sound [OF k(2)] in \<open>auto simp: TopologicalOrder_def\<close>)
next
  case False
  then have "collect_edges g [0..<length (nodes g)] (replicate (length (nodes g)) [], replicate (length (nodes g)) 0) = InvalidArgument"
    by (intro collect_edges_bad) (use False in \<open>simp_all add: edges_ok_def lessThan_atLeast0 Ball_def\<close>)
  then show ?thesis using False by (simp add: TopologicalOrder_def)
qed

text \<open>
  C18: \<open>TopologicalOrder\<close> always ends.  It returns an order exactly when every input of every node is a
  value of the graph, every value a node depends on has another node as its producer, and the nodes
  can be sorted at all; the order it returns then holds every node once, each after the nodes that
  produce what it depends on.  In every other case it reports an invalid argument.
\<close>

theorem topological_order_correct:
  "case TopologicalOrder g of
     None \<Rightarrow> False
   | Some (Inl e) \<Rightarrow> e = Error kInvalidArgument \<and> \<not> (edges_ok g \<and> (\<exists>t. topological g t))
   | Some (Inr order) \<Rightarrow> edges_ok g \<and> topological g order"
  using TopologicalOrder_cases [of g] by auto

end
