(* ===== verification/Graph_Build.thy ===== *)
theory Graph_Build
  imports Graph_Order
begin

text \<open>
  Graphs that are built through the interface of \<open>ModelGraph\<close>.  Everything that \<open>AddNode\<close> accepts, the
  whole-graph validation accepts later, after any further construction.
\<close>

section \<open>Results of loops\<close>

lemma as_invalid_Inr [simp]: "as_invalid r = Inr x \<longleftrightarrow> r = Inr x"
  by (simp add: as_invalid_def split: sum.splits fault.splits)

lemma require_Inr [simp]: "require b = Inr u \<longleftrightarrow> b"
  by (simp add: require_def)

lemma traverse_units: "traverse f xs = Inr ys \<Longrightarrow> x \<in> set xs \<Longrightarrow> \<exists>u. f x = Inr u"
  by (auto simp: traverse_eq_Inr in_set_conv_nth)

lemma traverse_all: "(\<And>x. x \<in> set xs \<Longrightarrow> f x = Inr ()) \<Longrightarrow> \<exists>us. traverse f xs = Inr us"
  using traverse_total [of xs f "\<lambda>_. ()"] by blast

lemma traverse_cong: "(\<And>x. x \<in> set xs \<Longrightarrow> f x = h x) \<Longrightarrow> traverse f xs = traverse h xs"
  by (induction xs) auto

section \<open>Element types\<close>

lemma dtype_eq_refl: "fixed_length d \<Longrightarrow> dtype_eq d d = Inr True"
  by (auto simp: dtype_eq_def lanes_def fixed_length_def)

lemma spec_eq_refl: "fixed_length (spec_dtype s) \<Longrightarrow> spec_eq s s = Inr True"
  by (simp add: spec_eq_def dtype_eq_refl)

abbreviation fixed_specs :: "tensor_spec list \<Rightarrow> bool" where
  "fixed_specs ss \<equiv> list_all (\<lambda>s. fixed_length (spec_dtype s)) ss"

lemma fixed_nth: "fixed_specs ss \<Longrightarrow> i < length ss \<Longrightarrow> fixed_length (spec_dtype (ss ! i))"
  by (simp add: list_all_length)

lemma fixed_elementwise:
  assumes "fixed_specs inputs"
  shows "InferAdd params inputs = Inr res \<Longrightarrow> fixed_specs (outputs res)" "InferSiluMul params inputs = Inr res \<Longrightarrow> fixed_specs (outputs res)"
    "InferElementwiseMul params inputs = Inr res \<Longrightarrow> fixed_specs (outputs res)" "InferSilu params inputs = Inr res \<Longrightarrow> fixed_specs (outputs res)"
    "InferSoftmax params inputs = Inr res \<Longrightarrow> fixed_specs (outputs res)" "InferReorder params inputs = Inr res \<Longrightarrow> fixed_specs (outputs res)"
  by (auto simp: fixed_nth [OF assms] InferAdd_def InferSiluMul_def InferElementwiseMul_def InferSilu_def InferSoftmax_def InferReorder_def input_count arity_def
      one_output_def Let_def split: op_params.splits if_splits)

lemma fixed_weights:
  assumes "fixed_specs inputs"
  shows "InferRmsNorm params inputs = Inr res \<Longrightarrow> fixed_specs (outputs res)" "InferEmbedding params inputs = Inr res \<Longrightarrow> fixed_specs (outputs res)"
    "InferLinear params inputs = Inr res \<Longrightarrow> fixed_specs (outputs res)" "InferMatMul params inputs = Inr res \<Longrightarrow> fixed_specs (outputs res)"
  by (auto simp: fixed_nth [OF assms] InferRmsNorm_def InferEmbedding_def InferLinear_def InferMatMul_def input_count arity_def one_output_def Let_def split_beta
      split: op_params.splits if_splits)

lemma fixed_attention:
  assumes "fixed_specs inputs"
  shows "InferRoPE params inputs = Inr res \<Longrightarrow> fixed_specs (outputs res)" "InferAttention params inputs = Inr res \<Longrightarrow> fixed_specs (outputs res)"
    "InferKVCacheUpdate params inputs = Inr res \<Longrightarrow> fixed_specs (outputs res)"
  by (auto simp: fixed_nth [OF assms] InferRoPE_def InferAttention_def InferKVCacheUpdate_def input_count arity_def one_output_def Let_def split: op_params.splits if_splits)

lemma fixed_axes:
  assumes "fixed_specs inputs"
  shows "InferArgmax params inputs = Inr res \<Longrightarrow> fixed_specs (outputs res)" "InferPermute params inputs = Inr res \<Longrightarrow> fixed_specs (outputs res)"
proof -
  have i: "fixed_length d" if "dt_Int 64 1 = Inr d" for d using fixed_made(8) that by (simp add: made_def)
  show "InferArgmax params inputs = Inr res \<Longrightarrow> fixed_specs (outputs res)"
    using i by (auto simp: InferArgmax_def one_output_def Let_def split: op_params.splits option.splits if_splits)
  show "InferPermute params inputs = Inr res \<Longrightarrow> fixed_specs (outputs res)"
    by (auto simp: fixed_nth [OF assms] InferPermute_def input_count arity_def one_output_def Let_def split: op_params.splits if_splits)
qed

lemma fixed_reshape:
  assumes "fixed_specs inputs" and "InferReshape params inputs = Inr res"
  shows "fixed_specs (outputs res)"
proof -
  obtain target where t: "params = ReshapeParams target" using assms(2) by (cases params) (simp_all add: InferReshape_def)
  obtain u where u: "check_volumes (inputs ! 0) u = Inr res" "length inputs = 1"
    using assms(2) unfolding t by (simp add: InferReshape_def input_count arity_def Let_def split: if_splits) blast
  from u(1) show ?thesis by (rule check_volumesD) (simp add: one_output_def fixed_nth [OF assms(1)] u(2))
qed

lemma InferOperator_fixed: "InferOperator op params inputs = Inr res \<Longrightarrow> fixed_specs inputs \<Longrightarrow> fixed_specs (outputs res)"
  using fixed_elementwise fixed_weights fixed_attention fixed_axes fixed_reshape by (cases op) (simp_all add: InferOperator_def)

section \<open>Schemas and state bindings\<close>

lemma schema_ports:
  assumes "GetOperatorSchema op = Inr s"
  shows "\<forall>p \<in> set (input_ports s). in_index p < length (input_ports s)" and "\<forall>p \<in> set (output_ports s). out_kind p = kActivation \<or> out_kind p = kState"
  using assms by (cases op; force simp: GetOperatorSchema_def kOperatorSchemas_def OperatorSchema_def Input_def Input_spec_def Output_def Output_kind_def)+

lemma FindInputPortIndex_bound:
  assumes "GetOperatorSchema op = Inr s" and "FindInputPortIndex s name = Inr i"
  shows "i < length (input_ports s)"
  using schema_ports(1) [OF assms(1)] assms(2) by (auto simp: FindInputPortIndex_def find_Some_iff split: option.splits)

lemma and_then_cong: "m = m' \<Longrightarrow> (\<And>x. m' = Inr x \<Longrightarrow> f x = h x) \<Longrightarrow> and_then m f = and_then m' h"
  by (cases m') auto

lemma state_bindings_local:
  assumes "GetOperatorSchema op = Inr s" and "length inputs = length (input_ports s)"
    and "\<And>v. v \<in> set inputs \<Longrightarrow> value_payload (vs ! v) = value_payload (ws ! v)"
  shows "ValidateStateBindingsForNode op layer s vs inputs outs = ValidateStateBindingsForNode op layer s ws inputs outs"
proof -
  have "input_state vs inputs i = input_state ws inputs i" if "FindInputPortIndex s name = Inr i" for name i
    using FindInputPortIndex_bound [OF assms(1) that] assms(2,3) by (simp add: input_state_def)
  then show ?thesis unfolding ValidateStateBindingsForNode_def by (intro if_cong and_then_cong refl) auto
qed

section \<open>Validation of one node\<close>

lemma traverse_unit_iff: "(\<exists>ys. traverse f xs = Inr ys) \<longleftrightarrow> (\<forall>x \<in> set xs. f x = Inr ())"
  using traverse_units [of f xs] traverse_all [of xs f] by fastforce

definition node_state_ok :: "model_graph \<Rightarrow> operator_schema \<Rightarrow> graph_node \<Rightarrow> bool" where
  "node_state_ok g schema node \<longleftrightarrow>
     ValidateStateBindingsForNode (node_op node) (decoder_layer_index node) schema (vals g) (node_inputs node)
       (map (\<lambda>v. state_of (value_payload (vals g ! v))) (node_outputs node)) = Inr ()"

abbreviation input_specs :: "model_graph \<Rightarrow> nat list \<Rightarrow> tensor_spec list" where
  "input_specs g inputs \<equiv> map (\<lambda>v. spec (vals g ! v)) inputs"

lemma checks_equal:
  "length cs = length ds \<and> (\<exists>us. traverse (\<lambda>i. require (ShapeConstraintsEquivalent (cs ! i) (ds ! i))) [0..<length ds] = Inr us) \<longleftrightarrow> cs = ds"
  by (auto simp: traverse_unit_iff ShapeConstraintsEquivalent_def intro: nth_equalityI)

lemma validate_node_iff:
  assumes "nodes g ! n = node"
  shows "validate_node g n = Inr () \<longleftrightarrow>
    (\<exists>schema derived. GetOperatorSchema (node_op node) = Inr schema \<and> attrs node = [] \<and>
       length (node_inputs node) = length (input_ports schema) \<and> length (node_outputs node) = length (output_ports schema) \<and>
       (\<forall>i < length (node_inputs node). validate_node_input g schema node i = Inr ()) \<and>
       InferOperator (node_op node) (params_of node) (input_specs g (node_inputs node)) = Inr derived \<and>
       length (outputs derived) = length (node_outputs node) \<and>
       (\<forall>i < length (node_outputs node). validate_node_output g schema n node (outputs derived) i = Inr ()) \<and>
       node_checks node = runtime_checks derived \<and> set (node_outputs node) \<inter> set (node_inputs node) = {} \<and> node_state_ok g schema node)"
    (is "?l \<longleftrightarrow> ?r")
proof
  assume ?l
  then obtain schema derived where "GetOperatorSchema (node_op node) = Inr schema" "attrs node = []"
    "length (node_inputs node) = length (input_ports schema)" "length (node_outputs node) = length (output_ports schema)"
    "\<exists>us. traverse (validate_node_input g schema node) [0..<length (node_inputs node)] = Inr us"
    "InferOperator (node_op node) (params_of node) (input_specs g (node_inputs node)) = Inr derived"
    "length (outputs derived) = length (node_outputs node)"
    "\<exists>us. traverse (validate_node_output g schema n node (outputs derived)) [0..<length (node_outputs node)] = Inr us"
    "length (runtime_checks derived) = length (node_checks node) \<and>
      (\<exists>us. traverse (\<lambda>i. require (ShapeConstraintsEquivalent (runtime_checks derived ! i) (node_checks node ! i))) [0..<length (node_checks node)] = Inr us)"
    "\<exists>us. traverse (\<lambda>v. require (v \<notin> set (node_inputs node))) (node_outputs node) = Inr us" "node_state_ok g schema node"
    unfolding validate_node_def node_state_ok_def assms Let_def by (auto split: if_splits)
  then show ?r unfolding checks_equal unfolding traverse_unit_iff by (intro exI [of _ schema] exI [of _ derived]) auto
next
  assume ?r
  then obtain schema derived where r: "GetOperatorSchema (node_op node) = Inr schema" "attrs node = []"
    "length (node_inputs node) = length (input_ports schema)" "length (node_outputs node) = length (output_ports schema)"
    "\<forall>i < length (node_inputs node). validate_node_input g schema node i = Inr ()"
    "InferOperator (node_op node) (params_of node) (input_specs g (node_inputs node)) = Inr derived"
    "length (outputs derived) = length (node_outputs node)"
    "\<forall>i < length (node_outputs node). validate_node_output g schema n node (outputs derived) i = Inr ()"
    "node_checks node = runtime_checks derived" "set (node_outputs node) \<inter> set (node_inputs node) = {}" "node_state_ok g schema node" by blast
  have "\<exists>us. traverse (validate_node_input g schema node) [0..<length (node_inputs node)] = Inr us"
    "\<exists>us. traverse (validate_node_output g schema n node (outputs derived)) [0..<length (node_outputs node)] = Inr us"
    "\<exists>us. traverse (\<lambda>i. require (ShapeConstraintsEquivalent (runtime_checks derived ! i) (node_checks node ! i))) [0..<length (node_checks node)] = Inr us"
    "\<exists>us. traverse (\<lambda>v. require (v \<notin> set (node_inputs node))) (node_outputs node) = Inr us"
    using r unfolding traverse_unit_iff by (auto simp: ShapeConstraintsEquivalent_def)
  then show ?l using r unfolding validate_node_def assms Let_def by (auto simp: node_state_ok_def)
qed

section \<open>Extensions of a graph\<close>

text \<open>A later graph keeps the nodes, and of every value what validation reads.\<close>

definition extends :: "model_graph \<Rightarrow> model_graph \<Rightarrow> bool" where
  "extends g h \<longleftrightarrow> (\<exists>ns. nodes h = nodes g @ ns) \<and> length (vals g) \<le> length (vals h) \<and>
     (\<forall>v < length (vals g). value_payload (vals h ! v) = value_payload (vals g ! v) \<and> spec (vals h ! v) = spec (vals g ! v) \<and>
        producer (vals h ! v) = producer (vals g ! v))"

lemma extendsD:
  assumes "extends g h"
  shows "n < length (nodes g) \<Longrightarrow> nodes h ! n = nodes g ! n" and "length (nodes g) \<le> length (nodes h)" and "length (vals g) \<le> length (vals h)"
    and "v < length (vals g) \<Longrightarrow> value_payload (vals h ! v) = value_payload (vals g ! v)"
    and "v < length (vals g) \<Longrightarrow> spec (vals h ! v) = spec (vals g ! v)"
    and "v < length (vals g) \<Longrightarrow> producer (vals h ! v) = producer (vals g ! v)"
  using assms by (auto simp: extends_def nth_append)

lemma extends_input:
  assumes "extends g h" and "validate_node_input g schema node i = Inr ()"
  shows "validate_node_input h schema node i = Inr ()" and "node_inputs node ! i < length (vals g)"
  using assms extendsD(3,4) [OF assms(1)] by (auto simp: validate_node_input_def IsValidValueId_def Let_def split: if_splits)

lemma extends_output:
  assumes "extends g h" and "validate_node_output g schema n node derived i = Inr ()"
  shows "validate_node_output h schema n node derived i = Inr ()" and "node_outputs node ! i < length (vals g)"
proof -
  show v: "node_outputs node ! i < length (vals g)"
    using assms(2) by (auto simp: validate_node_output_def IsValidValueId_def Let_def split: if_splits)
  show "validate_node_output h schema n node derived i = Inr ()"
    using assms(2) v extendsD(3-) [OF assms(1)] by (auto simp: validate_node_output_def IsValidValueId_def Let_def split: if_splits)
qed

lemma extends_node:
  assumes ext: "extends g h" and n: "n < length (nodes g)" and val: "validate_node g n = Inr ()"
  shows "validate_node h n = Inr ()"
proof -
  let ?n = "nodes g ! n"
  obtain schema derived where v: "GetOperatorSchema (node_op ?n) = Inr schema" "attrs ?n = []"
    "length (node_inputs ?n) = length (input_ports schema)" "length (node_outputs ?n) = length (output_ports schema)"
    "\<forall>i < length (node_inputs ?n). validate_node_input g schema ?n i = Inr ()"
    "InferOperator (node_op ?n) (params_of ?n) (input_specs g (node_inputs ?n)) = Inr derived"
    "length (outputs derived) = length (node_outputs ?n)"
    "\<forall>i < length (node_outputs ?n). validate_node_output g schema n ?n (outputs derived) i = Inr ()"
    "node_checks ?n = runtime_checks derived" "set (node_outputs ?n) \<inter> set (node_inputs ?n) = {}" "node_state_ok g schema ?n"
    using val unfolding validate_node_iff [OF refl] by blast
  have i: "w < length (vals g)" if "w \<in> set (node_inputs ?n)" for w
    using that v(5) extends_input(2) [OF ext] by (metis in_set_conv_nth)
  have o: "w < length (vals g)" if "w \<in> set (node_outputs ?n)" for w
    using that v(8) extends_output(2) [OF ext] by (metis in_set_conv_nth)
  have specs: "input_specs h (node_inputs ?n) = input_specs g (node_inputs ?n)" using i extendsD(5) [OF ext] by simp
  have states: "map (\<lambda>v. state_of (value_payload (vals h ! v))) (node_outputs ?n) = map (\<lambda>v. state_of (value_payload (vals g ! v))) (node_outputs ?n)"
    using o extendsD(4) [OF ext] by simp
  have "node_state_ok h schema ?n"
    using v(11) state_bindings_local [OF v(1,3), of "vals h" "vals g"] extendsD(4) [OF ext] i by (simp add: node_state_ok_def states)
  then show ?thesis unfolding validate_node_iff [OF extendsD(1) [OF ext n]] specs
    using v extends_input(1) [OF ext] extends_output(1) [OF ext] by (intro exI [of _ schema] exI [of _ derived]) simp
qed

lemma extends_value:
  assumes "extends g h" and "i < length (vals g)" and "ValidateValueSelfConsistency (vals g ! i) i (nodes g) = Inr ()"
  shows "ValidateValueSelfConsistency (vals h ! i) i (nodes h) = Inr ()"
  using assms(3) extendsD(4,6) [OF assms(1,2)] extendsD(1,2) [OF assms(1)]
  by (auto simp: ValidateValueSelfConsistency_def IsValidNodeId_def split: payload.splits option.splits if_splits)

lemma extends_graph_output:
  "extends g h \<Longrightarrow> validate_graph_output g v = Inr () \<Longrightarrow> validate_graph_output h v = Inr ()"
  using extendsD(3,4,6) [of g h] by (auto simp: validate_graph_output_def IsValidValueId_def split: if_splits payload.splits)

section \<open>The invariant of construction\<close>

definition valid_graph :: "model_graph \<Rightarrow> bool" where
  "valid_graph g \<longleftrightarrow>
     (\<forall>v \<in> set (graph_inputs g). v < length (vals g)) \<and>
     (\<forall>v \<in> set (graph_outputs g). validate_graph_output g v = Inr ()) \<and>
     (\<forall>i < length (vals g). ValidateValueSelfConsistency (vals g ! i) i (nodes g) = Inr () \<and> fixed_length (spec_dtype (spec (vals g ! i)))) \<and>
     (\<forall>n < length (nodes g). validate_node g n = Inr () \<and>
        (\<forall>v \<in> set (node_inputs (nodes g ! n)). v < length (vals g) \<and> (case producer (vals g ! v) of None \<Rightarrow> True | Some p \<Rightarrow> p < n)))"

lemma valid_graph_extends:
  assumes "valid_graph g" and "extends g h"
    and "\<And>v. v \<in> set (graph_inputs h) \<Longrightarrow> v \<notin> set (graph_inputs g) \<Longrightarrow> v < length (vals h)"
    and "\<And>v. v \<in> set (graph_outputs h) \<Longrightarrow> v \<notin> set (graph_outputs g) \<Longrightarrow> validate_graph_output h v = Inr ()"
    and "\<And>i. length (vals g) \<le> i \<Longrightarrow> i < length (vals h) \<Longrightarrow>
      ValidateValueSelfConsistency (vals h ! i) i (nodes h) = Inr () \<and> fixed_length (spec_dtype (spec (vals h ! i)))"
    and "\<And>n. length (nodes g) \<le> n \<Longrightarrow> n < length (nodes h) \<Longrightarrow> validate_node h n = Inr () \<and>
      (\<forall>v \<in> set (node_inputs (nodes h ! n)). v < length (vals h) \<and> (case producer (vals h ! v) of None \<Rightarrow> True | Some p \<Rightarrow> p < n))"
  shows "valid_graph h"
proof -
  note e = extendsD [OF assms(2)]
  have "v < length (vals h)" if "v \<in> set (graph_inputs h)" for v
    using assms(1,3) that e(3) by (fastforce simp: valid_graph_def)
  moreover have "validate_graph_output h v = Inr ()" if "v \<in> set (graph_outputs h)" for v
    using assms(1,4) that extends_graph_output [OF assms(2)] by (fastforce simp: valid_graph_def)
  moreover have "ValidateValueSelfConsistency (vals h ! i) i (nodes h) = Inr () \<and> fixed_length (spec_dtype (spec (vals h ! i)))"
    if "i < length (vals h)" for i
  proof (cases "i < length (vals g)")
    case True
    then show ?thesis using assms(1) extends_value [OF assms(2) True] e(5) [OF True] by (simp add: valid_graph_def)
  qed (use assms(5) that in simp)
  moreover have "validate_node h n = Inr () \<and>
    (\<forall>v \<in> set (node_inputs (nodes h ! n)). v < length (vals h) \<and> (case producer (vals h ! v) of None \<Rightarrow> True | Some p \<Rightarrow> p < n))"
    if "n < length (nodes h)" for n
  proof (cases "n < length (nodes g)")
    case True
    then have "\<forall>v \<in> set (node_inputs (nodes g ! n)). v < length (vals g) \<and> (case producer (vals g ! v) of None \<Rightarrow> True | Some p \<Rightarrow> p < n)"
      "validate_node g n = Inr ()" using assms(1) by (auto simp: valid_graph_def)
    then show ?thesis using extends_node [OF assms(2) True] e(1) [OF True] e(3,6) by auto
  next
    case False
    then show ?thesis using that by (intro assms(6)) simp_all
  qed
  ultimately show ?thesis by (simp add: valid_graph_def)
qed

lemma valid_graph_validates:
  assumes "valid_graph g"
  shows "\<exists>order. ValidateAndTopologicalOrder g = Some (Inr order)"
proof -
  have dep: "v < length (vals g) \<and> (CarriesProducerDependency (vals g ! v) \<longrightarrow> (\<exists>p. producer (vals g ! v) = Some p \<and> p < n))"
    if "n < length (nodes g)" "v \<in> set (node_inputs (nodes g ! n))" for n v
  proof -
    have v: "v < length (vals g)" "case producer (vals g ! v) of None \<Rightarrow> True | Some p \<Rightarrow> p < n" using assms that by (auto simp: valid_graph_def)
    then have "ValidateValueSelfConsistency (vals g ! v) v (nodes g) = Inr ()" using assms by (simp add: valid_graph_def)
    then show ?thesis using v
      by (auto simp: ValidateValueSelfConsistency_def CarriesProducerDependency_def split: payload.splits option.splits)
  qed
  then have "edges_ok g" unfolding edges_ok_def edge_ok_def by fastforce
  moreover have "topological g [0..<length (nodes g)]"
    using dep by (force simp: topological_def deps_def deps_of_def take_upt)
  ultimately obtain order where "TopologicalOrder g = Some (Inr order)" using TopologicalOrder_cases [of g] by blast
  moreover have "\<exists>us. traverse (\<lambda>v. require (IsValidValueId v (vals g))) (graph_inputs g) = Inr us"
    "\<exists>us. traverse (validate_graph_output g) (graph_outputs g) = Inr us"
    "\<exists>us. traverse (\<lambda>i. ValidateValueSelfConsistency (vals g ! i) i (nodes g)) [0..<length (vals g)] = Inr us"
    "\<exists>us. traverse (validate_node g) [0..<length (nodes g)] = Inr us"
    using assms unfolding traverse_unit_iff by (simp_all add: valid_graph_def IsValidValueId_def)
  ultimately show ?thesis by (auto simp: ValidateAndTopologicalOrder_def)
qed

section \<open>Adding a node\<close>

definition staged_value :: "nat \<Rightarrow> node_output_desc \<Rightarrow> tensor_spec \<Rightarrow> graph_value" where
  "staged_value n d s = \<lparr>value_payload = normalized (desc_payload d), spec = s, producer = Some n,
     quantization = desc_quantization d, value_name = desc_name d\<rparr>"

lemma StageAddNodeOutputs_eq:
  assumes "StageAddNodeOutputs n base descs inferred = Inr (ids, vs)"
  shows "ids = map ((+) base) [0..<length descs]" and "vs = map (\<lambda>i. staged_value n (descs ! i) (inferred ! i)) [0..<length descs]"
proof -
  show "ids = map ((+) base) [0..<length descs]"
    using assms by (auto simp: StageAddNodeOutputs_def traverse_eq_Inr intro!: nth_equalityI)
  show "vs = map (\<lambda>i. staged_value n (descs ! i) (inferred ! i)) [0..<length descs]"
    using assms by (auto simp: StageAddNodeOutputs_def staged_value_def)
qed

lemma AddNodeE:
  assumes "AddNode op layer inputs descs params attr_bytes name g = Inr (added, h)"
  obtains schema inference where "GetOperatorSchema op = Inr schema" "attr_bytes = []"
    "ValidateAddNodePorts schema (vals g) inputs descs = Inr ()" "ValidateAddNodeBindings op layer schema (vals g) inputs descs = Inr ()"
    "InferOperator op params (input_specs g inputs) = Inr inference" "length (outputs inference) = length (output_ports schema)"
    "h = g\<lparr>vals := vals g @ map (\<lambda>i. staged_value (length (nodes g)) (descs ! i) (outputs inference ! i)) [0..<length descs],
      nodes := nodes g @ [\<lparr>node_op = op, decoder_layer_index = layer, node_inputs = inputs,
        node_outputs = map ((+) (length (vals g))) [0..<length descs], attrs = [], params_of = params,
        node_checks = runtime_checks inference, node_name = name\<rparr>]\<rparr>"
proof -
  obtain schema inference ids vs where a: "GetOperatorSchema op = Inr schema" "attr_bytes = []"
    "ValidateAddNodePorts schema (vals g) inputs descs = Inr ()" "ValidateAddNodeBindings op layer schema (vals g) inputs descs = Inr ()"
    "InferOperator op params (input_specs g inputs) = Inr inference" "length (outputs inference) = length (output_ports schema)"
    "StageAddNodeOutputs (length (nodes g)) (length (vals g)) descs (outputs inference) = Inr (ids, vs)"
    "h = g\<lparr>vals := vals g @ vs, nodes := nodes g @ [\<lparr>node_op = op, decoder_layer_index = layer, node_inputs = inputs,
        node_outputs = ids, attrs = attr_bytes, params_of = params, node_checks = runtime_checks inference, node_name = name\<rparr>]\<rparr>"
    using assms by (auto simp: AddNode_def NextNodeIndex_def NextValueIndex_def InferAddNodeOutputs_def split: if_splits)
  show thesis using that [OF a(1-6)] a(2,8) StageAddNodeOutputs_eq [OF a(7)] by simp
qed

lemma ValidateAddNodePortsD:
  assumes "ValidateAddNodePorts schema vs inputs descs = Inr ()"
  shows "length inputs = length (input_ports schema)" and "length descs = length (output_ports schema)"
    and "i < length inputs \<Longrightarrow> inputs ! i < length vs \<and> PayloadMatchesPort (value_payload (vs ! (inputs ! i))) (in_kind (input_ports schema ! i))"
    and "j < length descs \<Longrightarrow> PayloadMatchesPort (normalized (desc_payload (descs ! j))) (out_kind (output_ports schema ! j))"
proof -
  obtain us ws where
    "traverse (\<lambda>i. if \<not> IsValidValueId (inputs ! i) vs then InvalidArgument
       else require (PayloadMatchesPort (value_payload (vs ! (inputs ! i))) (in_kind (input_ports schema ! i)))) [0..<length inputs] = Inr us"
    "traverse (\<lambda>i. require (PayloadMatchesPort (normalized (desc_payload (descs ! i))) (out_kind (output_ports schema ! i)))) [0..<length descs] = Inr ws"
    and l: "length inputs = length (input_ports schema)" "length descs = length (output_ports schema)"
    using assms by (auto simp: ValidateAddNodePorts_def split: if_splits)
  note t = traverse_units [OF this(1), of i] traverse_units [OF this(2), of j]
  show "length inputs = length (input_ports schema)" "length descs = length (output_ports schema)" by (fact l)+
  show "i < length inputs \<Longrightarrow> inputs ! i < length vs \<and> PayloadMatchesPort (value_payload (vs ! (inputs ! i))) (in_kind (input_ports schema ! i))"
    using t(1) by (auto simp: IsValidValueId_def split: if_splits)
  show "j < length descs \<Longrightarrow> PayloadMatchesPort (normalized (desc_payload (descs ! j))) (out_kind (output_ports schema ! j))"
    using t(2) by auto
qed

lemma ValidateAddNodeBindingsD:
  assumes "ValidateAddNodeBindings op layer schema vs inputs descs = Inr ()"
  shows "i < length inputs \<Longrightarrow> in_kind (input_ports schema ! i) = kWeight \<Longrightarrow>
      \<exists>b. get_weight (value_payload (vs ! (inputs ! i))) = Inr b \<and> (case ExpectedWeightSlotForOp op of None \<Rightarrow> True | Some s \<Rightarrow> weight_slot b = s)"
    and "ValidateStateBindingsForNode op layer schema vs inputs (map (\<lambda>d. state_of (desc_payload d)) descs) = Inr ()"
proof -
  note d = assms [unfolded ValidateAddNodeBindings_def and_then_eq_Inr]
  then show "ValidateStateBindingsForNode op layer schema vs inputs (map (\<lambda>d. state_of (desc_payload d)) descs) = Inr ()" by blast
  from d obtain us where "traverse (\<lambda>i. and_then
           (if in_kind (input_ports schema ! i) = kWeight then
              and_then (get_weight (value_payload (vs ! (inputs ! i)))) (\<lambda>b.
              and_then (ValidateWeightBindingSelfConsistency b) (\<lambda>_.
                require (case ExpectedWeightSlotForOp op of None \<Rightarrow> True | Some s \<Rightarrow> weight_slot b = s)))
            else Inr ()) (\<lambda>_.
           if in_kind (input_ports schema ! i) = kState then
             and_then (get_state (value_payload (vs ! (inputs ! i)))) ValidateStateBindingSelfConsistency
           else Inr ())) [0..<length inputs] = Inr us" by blast
  from traverse_units [OF this, of i]
  show "i < length inputs \<Longrightarrow> in_kind (input_ports schema ! i) = kWeight \<Longrightarrow>
      \<exists>b. get_weight (value_payload (vs ! (inputs ! i))) = Inr b \<and> (case ExpectedWeightSlotForOp op of None \<Rightarrow> True | Some s \<Rightarrow> weight_slot b = s)"
    by auto
qed

lemma state_of_normalized [simp]: "state_of (normalized p) = state_of p"
  by (simp add: normalized_def state_of_def)

text \<open>What \<open>AddNode\<close> checks before it changes the graph is what validation replays afterwards.\<close>

lemma AddNode_extends: "AddNode op layer inputs descs params attr_bytes name g = Inr (added, h) \<Longrightarrow> extends g h"
  by (erule AddNodeE) (simp add: extends_def nth_append)

lemma AddNode_node_validates:
  assumes "AddNode op layer inputs descs params attr_bytes name g = Inr (added, h)"
    and "\<forall>i < length (vals g). fixed_length (spec_dtype (spec (vals g ! i)))"
  shows "validate_node h (length (nodes g)) = Inr ()"
proof -
  from assms(1) obtain schema inference where a: "GetOperatorSchema op = Inr schema" "attr_bytes = []"
    "ValidateAddNodePorts schema (vals g) inputs descs = Inr ()" "ValidateAddNodeBindings op layer schema (vals g) inputs descs = Inr ()"
    "InferOperator op params (input_specs g inputs) = Inr inference" "length (outputs inference) = length (output_ports schema)"
    and h: "h = g\<lparr>vals := vals g @ map (\<lambda>i. staged_value (length (nodes g)) (descs ! i) (outputs inference ! i)) [0..<length descs],
      nodes := nodes g @ [\<lparr>node_op = op, decoder_layer_index = layer, node_inputs = inputs,
        node_outputs = map ((+) (length (vals g))) [0..<length descs], attrs = [], params_of = params,
        node_checks = runtime_checks inference, node_name = name\<rparr>]\<rparr>" by (rule AddNodeE)
  note p = ValidateAddNodePortsD [OF a(3)] and b = ValidateAddNodeBindingsD [OF a(4)] and e = extendsD [OF AddNode_extends [OF assms(1)]]
  let ?n = "nodes h ! length (nodes g)"
  have n: "node_op ?n = op" "decoder_layer_index ?n = layer" "node_inputs ?n = inputs" "attrs ?n = []" "params_of ?n = params"
    "node_outputs ?n = map ((+) (length (vals g))) [0..<length descs]" "node_checks ?n = runtime_checks inference" by (simp_all add: h)
  have new: "vals h ! (length (vals g) + i) = staged_value (length (nodes g)) (descs ! i) (outputs inference ! i)" if "i < length descs" for i
    using that by (simp add: h nth_append)
  have bound: "v < length (vals g)" if "v \<in> set inputs" for v using that p(3) by (metis in_set_conv_nth)
  then have specs: "input_specs h inputs = input_specs g inputs" using e(5) by simp
  have "fixed_specs (outputs inference)"
    using InferOperator_fixed [OF a(5)] assms(2) bound by (simp add: list_all_iff)
  note fixed = fixed_nth [OF this]
  have i: "validate_node_input h schema ?n i = Inr ()" if "i < length inputs" for i
    using p(3) [OF that] b(1) [OF that] e(3) e(4) [of "inputs ! i"] by (auto simp: validate_node_input_def IsValidValueId_def Let_def n)
  have o: "validate_node_output h schema (length (nodes g)) ?n (outputs inference) i = Inr ()" if "i < length descs" for i
    using that p(2) p(4) [OF that] a(6) new [OF that] spec_eq_refl [OF fixed]
    by (simp add: validate_node_output_def IsValidValueId_def Let_def n staged_value_def h)
  have "map (\<lambda>v. state_of (value_payload (vals h ! v))) (node_outputs ?n) = map (\<lambda>d. state_of (desc_payload d)) descs"
    by (rule nth_equalityI) (simp_all add: n new staged_value_def)
  then have "node_state_ok h schema ?n"
    using b(2) state_bindings_local [OF a(1) p(1), of "vals h" "vals g"] e(4) bound by (simp add: node_state_ok_def n)
  moreover have "set (map ((+) (length (vals g))) [0..<length descs]) \<inter> set inputs = {}" by (auto dest!: bound)
  ultimately show ?thesis unfolding validate_node_iff [OF refl] n specs
    using a p(1,2) i o by (intro exI [of _ schema] exI [of _ inference]) simp
qed

lemma AddNode_values_consistent:
  assumes "AddNode op layer inputs descs params attr_bytes name g = Inr (added, h)"
    and "\<forall>i < length (vals g). fixed_length (spec_dtype (spec (vals g ! i)))" and "\<forall>d \<in> set descs. \<forall>b. desc_payload d \<noteq> ConstantValue b"
    and "length (vals g) \<le> v" and "v < length (vals h)"
  shows "ValidateValueSelfConsistency (vals h ! v) v (nodes h) = Inr () \<and> fixed_length (spec_dtype (spec (vals h ! v)))"
proof -
  from assms(1) obtain schema inference where a: "GetOperatorSchema op = Inr schema" "attr_bytes = []"
    "ValidateAddNodePorts schema (vals g) inputs descs = Inr ()" "ValidateAddNodeBindings op layer schema (vals g) inputs descs = Inr ()"
    "InferOperator op params (input_specs g inputs) = Inr inference" "length (outputs inference) = length (output_ports schema)"
    and h: "h = g\<lparr>vals := vals g @ map (\<lambda>i. staged_value (length (nodes g)) (descs ! i) (outputs inference ! i)) [0..<length descs],
      nodes := nodes g @ [\<lparr>node_op = op, decoder_layer_index = layer, node_inputs = inputs,
        node_outputs = map ((+) (length (vals g))) [0..<length descs], attrs = [], params_of = params,
        node_checks = runtime_checks inference, node_name = name\<rparr>]\<rparr>" by (rule AddNodeE)
  note p = ValidateAddNodePortsD [OF a(3)]
  have "length (vals h) = length (vals g) + length descs" by (simp add: h)
  then obtain i where i: "v = length (vals g) + i" "i < length descs" using assms(4,5) that [of "v - length (vals g)"] by simp
  have val: "vals h ! v = staged_value (length (nodes g)) (descs ! i) (outputs inference ! i)" using i by (simp add: h nth_append)
  have bound: "w < length (vals g)" if "w \<in> set inputs" for w using that p(3) by (metis in_set_conv_nth)
  have "fixed_specs (outputs inference)"
    using InferOperator_fixed [OF a(5)] assms(2) bound by (simp add: list_all_iff)
  then have "fixed_length (spec_dtype (spec (vals h ! v)))" using fixed_nth i(2) p(2) a(6) by (simp add: val staged_value_def)
  moreover have "out_kind (output_ports schema ! i) = kActivation \<or> out_kind (output_ports schema ! i) = kState"
    using schema_ports(2) [OF a(1)] i(2) p(2) by (metis nth_mem)
  then have "(\<exists>b. value_payload (vals h ! v) = StateValue b) \<or> value_payload (vals h ! v) = ActivationValue"
    using p(4) [OF i(2)] assms(3) i(2) by (auto simp: val staged_value_def normalized_def split: payload.splits if_splits)
  moreover have "ValidateStateBindingSelfConsistency b = Inr ()" for b
    by (simp add: ValidateStateBindingSelfConsistency_def split: state_binding.splits kv_cache_slot.splits)
  moreover have "producer (vals h ! v) = Some (length (nodes g))" "length (nodes h) = Suc (length (nodes g))"
    "v \<in> set (node_outputs (nodes h ! length (nodes g)))" using i(2) by (simp_all add: val staged_value_def h i(1))
  ultimately show ?thesis by (auto simp: ValidateValueSelfConsistency_def IsValidNodeId_def NodeListsOutput_def)
qed

section \<open>Construction\<close>

text \<open>The graphs that a caller can build: every type has a fixed number of lanes, weights have consistent
  bindings, outputs of the graph are activations or constants, and no output of a node is declared a
  constant.\<close>

inductive built :: "model_graph \<Rightarrow> bool" where
  start: "built empty_graph"
| add_input: "built g \<Longrightarrow> fixed_length (spec_dtype sp) \<Longrightarrow> AddInput sp name g = Inr (v, h) \<Longrightarrow> built h"
| add_weight: "built g \<Longrightarrow> fixed_length (spec_dtype sp) \<Longrightarrow> ValidateWeightBindingSelfConsistency wb = Inr () \<Longrightarrow>
    AddWeight sp wb name g = Inr (v, h) \<Longrightarrow> built h"
| add_constant: "built g \<Longrightarrow> fixed_length (spec_dtype sp) \<Longrightarrow> AddConstant sp cb name g = Inr (v, h) \<Longrightarrow> built h"
| add_state: "built g \<Longrightarrow> fixed_length (spec_dtype sp) \<Longrightarrow> AddState sp sb name g = Inr (v, h) \<Longrightarrow> built h"
| add_node: "built g \<Longrightarrow> \<forall>d \<in> set descs. \<forall>b. desc_payload d \<noteq> ConstantValue b \<Longrightarrow>
    AddNode op layer inputs descs params attr_bytes name g = Inr (added, h) \<Longrightarrow> built h"
| mark_output: "built g \<Longrightarrow> v < length (vals g) \<Longrightarrow>
    value_payload (vals g ! v) = ActivationValue \<or> (\<exists>b. value_payload (vals g ! v) = ConstantValue b) \<Longrightarrow> built (MarkOutput v g)"
| set_quantization: "built g \<Longrightarrow> SetQuantization v q g = Some h \<Longrightarrow> built h"

lemma add_value_valid:
  assumes "valid_graph g" and "fixed_length (spec_dtype sp)" and "add_value p sp name g = Inr (v, h)"
    and "\<And>x. value_payload x = p \<Longrightarrow> producer x = None \<Longrightarrow> ValidateValueSelfConsistency x v (nodes g) = Inr ()"
  shows "valid_graph h" and "v < length (vals h)"
proof -
  have h: "h = g\<lparr>vals := vals g @ [\<lparr>value_payload = p, spec = sp, producer = None, quantization = QuantizationSpec, value_name = name\<rparr>]\<rparr>"
    "v = length (vals g)" using assms(3) by (auto simp: add_value_def NextValueIndex_def)
  then show "v < length (vals h)" by simp
  have "extends g h" by (simp add: h extends_def nth_append)
  from valid_graph_extends [OF assms(1) this] show "valid_graph h" using assms(2,4) by (auto simp: h less_Suc_eq)
qed

lemma valid_graph_inputs: "valid_graph g \<Longrightarrow> v < length (vals g) \<Longrightarrow> valid_graph (g\<lparr>graph_inputs := graph_inputs g @ [v]\<rparr>)"
  by (rule valid_graph_extends) (auto simp: extends_def)

lemma AddNode_valid:
  assumes "valid_graph g" and "\<forall>d \<in> set descs. \<forall>b. desc_payload d \<noteq> ConstantValue b"
    and "AddNode op layer inputs descs params attr_bytes name g = Inr (added, h)"
  shows "valid_graph h"
proof -
  have fixed: "\<forall>i < length (vals g). fixed_length (spec_dtype (spec (vals g ! i)))" using assms(1) by (simp add: valid_graph_def)
  note ext = AddNode_extends [OF assms(3)]
  from assms(3) obtain schema inference where h: "graph_inputs h = graph_inputs g" "graph_outputs h = graph_outputs g"
    "length (nodes h) = Suc (length (nodes g))" "node_inputs (nodes h ! length (nodes g)) = inputs"
    and p: "ValidateAddNodePorts schema (vals g) inputs descs = Inr ()" by (rule AddNodeE) auto
  have "v < length (vals h) \<and> (case producer (vals h ! v) of None \<Rightarrow> True | Some p \<Rightarrow> p < length (nodes g))" if "v \<in> set inputs" for v
  proof -
    have v: "v < length (vals g)" using ValidateAddNodePortsD(3) [OF p] that by (metis in_set_conv_nth)
    then have "ValidateValueSelfConsistency (vals g ! v) v (nodes g) = Inr ()" using assms(1) by (simp add: valid_graph_def)
    then have "case producer (vals g ! v) of None \<Rightarrow> True | Some p \<Rightarrow> p < length (nodes g)"
      by (auto simp: ValidateValueSelfConsistency_def IsValidNodeId_def split: payload.splits option.splits if_splits)
    then show ?thesis using v extendsD(3,6) [OF ext] by auto
  qed
  then show ?thesis
    using AddNode_node_validates [OF assms(3) fixed] AddNode_values_consistent [OF assms(3) fixed assms(2)] h
    by (intro valid_graph_extends [OF assms(1) ext]) (auto simp: less_Suc_eq)
qed

lemma MarkOutput_valid:
  assumes "valid_graph g" and "v < length (vals g)" and "value_payload (vals g ! v) = ActivationValue \<or> (\<exists>b. value_payload (vals g ! v) = ConstantValue b)"
  shows "valid_graph (MarkOutput v g)"
proof (rule valid_graph_extends [OF assms(1)])
  have "ValidateValueSelfConsistency (vals g ! v) v (nodes g) = Inr ()" using assms(1,2) by (simp add: valid_graph_def)
  then have "validate_graph_output (MarkOutput v g) v = Inr ()"
    using assms(2,3) by (auto simp: validate_graph_output_def ValidateValueSelfConsistency_def IsValidValueId_def MarkOutput_def split: option.splits)
  then show "validate_graph_output (MarkOutput v g) w = Inr ()" if "w \<in> set (graph_outputs (MarkOutput v g))" "w \<notin> set (graph_outputs g)" for w
    using that by (auto simp: MarkOutput_def)
qed (auto simp: extends_def MarkOutput_def)

lemma SetQuantization_valid: "valid_graph g \<Longrightarrow> SetQuantization v q g = Some h \<Longrightarrow> valid_graph h"
  by (rule valid_graph_extends) (auto simp: extends_def SetQuantization_def nth_list_update split: if_splits)

lemma built_valid: "built g \<Longrightarrow> valid_graph g"
proof (induction rule: built.induct)
  case start
  show ?case by (simp add: valid_graph_def empty_graph_def)
next
  case (add_input g sp name v h)
  then obtain k where k: "add_value ModelInputValue sp name g = Inr (v, k)" "h = k\<lparr>graph_inputs := graph_inputs k @ [v]\<rparr>"
    by (auto simp: AddInput_def)
  have "valid_graph k" "v < length (vals k)"
    using add_value_valid [OF add_input.IH add_input.hyps(2) k(1)] by (simp_all add: ValidateValueSelfConsistency_def)
  then show ?case unfolding k(2) by (rule valid_graph_inputs)
next
  case (add_weight g sp wb name v h)
  then show ?case using add_value_valid(1) [of g sp "WeightValue wb" name v h] by (simp add: AddWeight_def ValidateValueSelfConsistency_def)
next
  case (add_constant g sp cb name v h)
  then show ?case using add_value_valid(1) [of g sp "ConstantValue cb" name v h] by (simp add: AddConstant_def ValidateValueSelfConsistency_def)
next
  case (add_state g sp sb name v h)
  have "ValidateStateBindingSelfConsistency sb = Inr ()"
    by (simp add: ValidateStateBindingSelfConsistency_def split: state_binding.splits kv_cache_slot.splits)
  then show ?case using add_state add_value_valid(1) [of g sp "StateValue sb" name v h] by (simp add: AddState_def ValidateValueSelfConsistency_def)
qed (blast intro: AddNode_valid MarkOutput_valid SetQuantization_valid)+


text \<open>Two constants of unknown length, the first through Silu, added.\<close>

definition plain_output :: "payload \<Rightarrow> node_output_desc" where
  "plain_output p = \<lparr>desc_payload = p, desc_quantization = QuantizationSpec, desc_name = ''out''\<rparr>"

definition sample_constants :: "(nat \<times> model_graph) result" where
  "sample_constants =
     and_then (AddConstant (float32_spec [- 2]) \<lparr>inline_data = None, constant_name = ''a''\<rparr> ''a'' empty_graph)
       (\<lambda>(_, g). AddConstant (float32_spec [- 3]) \<lparr>inline_data = None, constant_name = ''b''\<rparr> ''b'' g)"

definition sample_silu :: "(added_node \<times> model_graph) result" where
  "sample_silu = and_then sample_constants (\<lambda>(_, g). AddNode kSilu None [0] [plain_output Monostate] SiluParams [] ''silu'' g)"

definition sample_add :: "(added_node \<times> model_graph) result" where
  "sample_add = and_then sample_silu (\<lambda>(_, g). AddNode kAdd None [2, 1] [plain_output ActivationValue] AddParams [] ''add'' g)"

definition sample_graph :: model_graph where
  "sample_graph = (case sample_add of Inr (_, g) \<Rightarrow> MarkOutput 3 g | _ \<Rightarrow> empty_graph)"

lemma fixed_float32_spec: "fixed_length (spec_dtype (float32_spec ds))"
  by (simp add: float32_spec_def)

lemma sample_constants_built: "sample_constants = Inr (v, g) \<Longrightarrow> built g"
  unfolding sample_constants_def and_then_eq_Inr
  by (auto elim!: add_constant [rotated 2] intro: start fixed_float32_spec)

lemma sample_silu_built: "sample_silu = Inr (v, g) \<Longrightarrow> built g"
  unfolding sample_silu_def and_then_eq_Inr
  by (auto simp: plain_output_def elim!: add_node [rotated 2] dest: sample_constants_built)

lemma sample_add_built: "sample_add = Inr (v, g) \<Longrightarrow> built g"
  unfolding sample_add_def and_then_eq_Inr
  by (auto simp: plain_output_def elim!: add_node [rotated 2] dest: sample_silu_built)

text \<open>Equations that compare with the bound on identifiers as integers.\<close>

lemma index_code [code]:
  "NextNodeIndex ns = (if int (length ns) < 4294967295 then Inr (length ns) else Inl Check_Failed)"
  "NextValueIndex vs = (if int (length vs) < 4294967295 then Inr (length vs) else Inl Check_Failed)"
  by (auto simp: NextNodeIndex_def NextValueIndex_def check_def)

lemma stage_code [code]:
  "StageAddNodeOutputs n base descs inferred =
     (if \<forall>i \<in> set [0..<length descs]. int (base + i) < 4294967295
      then Inr (map ((+) base) [0..<length descs], map (\<lambda>i. staged_value n (descs ! i) (inferred ! i)) [0..<length descs])
      else Inl Check_Failed)"
proof (cases "\<forall>i < length descs. int (base + i) < 4294967295")
  case True
  then have "traverse (\<lambda>i. and_then (check (base + i < 2 ^ 32 - 1)) (\<lambda>_. Inr (base + i))) [0..<length descs] = Inr (map ((+) base) [0..<length descs])"
    by (intro traverse_total) (auto simp: check_def)
  then show ?thesis using True by (simp add: StageAddNodeOutputs_def staged_value_def)
next
  case False
  let ?t = "traverse (\<lambda>i. and_then (check (base + i < 2 ^ 32 - 1)) (\<lambda>_. Inr (base + i))) [0..<length descs]"
  have "?t = Inl Check_Failed"
  proof (cases ?t)
    case (Inl e)
    then show ?thesis using traverse_eq_Inl [OF Inl] by (auto simp: and_then_eq_Inl check_def split: if_splits)
  next
    case (Inr ys)
    then show ?thesis using False by (auto simp: traverse_eq_Inr check_def split: if_splits)
  qed
  then show ?thesis using False by (auto simp: StageAddNodeOutputs_def)
qed

lemma sample_graph_built: "built sample_graph"
proof -
  have "case sample_add of Inr (_, g) \<Rightarrow> length (vals g) = 4 \<and> value_payload (vals g ! 3) = ActivationValue | Inl _ \<Rightarrow> False" by code_simp
  then obtain a g where m: "sample_add = Inr (a, g)" "3 < length (vals g)" "value_payload (vals g ! 3) = ActivationValue"
    by (auto split: sum.splits)
  have "sample_graph = MarkOutput 3 g" by (simp add: sample_graph_def m(1))
  then show ?thesis using mark_output [OF sample_add_built [OF m(1)] m(2)] m(3) by simp
qed


section \<open>Constants as outputs\<close>

text \<open>\<open>AddNode\<close> accepts an output that is declared a constant, but no graph that extends the result
  validates.\<close>

lemma constant_output_never_validates:
  assumes "AddNode op layer inputs descs params attr_bytes name g = Inr (added, h)" and "d \<in> set descs" and "desc_payload d = ConstantValue b"
    and "extends h k"
  shows "ValidateAndTopologicalOrder k \<noteq> Some (Inr order)"
proof
  assume val: "ValidateAndTopologicalOrder k = Some (Inr order)"
  obtain i where i: "i < length descs" "descs ! i = d" using assms(2) by (auto simp: in_set_conv_nth)
  let ?v = "length (vals g) + i"
  have v: "?v < length (vals h)" "value_payload (vals h ! ?v) = ConstantValue b" "producer (vals h ! ?v) = Some (length (nodes g))"
    using assms(1) i assms(3) by (auto elim!: AddNodeE simp: nth_append staged_value_def normalized_def)
  then have "ValidateValueSelfConsistency (vals k ! ?v) ?v (nodes k) = InvalidArgument" "?v < length (vals k)"
    using extendsD(3,4,6) [OF assms(4)] by (simp_all add: ValidateValueSelfConsistency_def require_def)
  moreover obtain us where "traverse (\<lambda>i. ValidateValueSelfConsistency (vals k ! i) i (nodes k)) [0..<length (vals k)] = Inr us"
    using val by (auto simp: ValidateAndTopologicalOrder_def split: sum.splits)
  ultimately show False using traverse_units [of _ "[0..<length (vals k)]" us ?v] by fastforce
qed

lemma constant_output_accepted:
  "case and_then sample_constants (\<lambda>(_, g). AddNode kSilu None [0] [plain_output (ConstantValue \<lparr>inline_data = None, constant_name = ''c''\<rparr>)]
     SiluParams [] ''silu'' g) of Inr _ \<Rightarrow> True | Inl _ \<Rightarrow> False"
  by code_simp

end
