(* ===== verification/Graph_Run.thy ===== *)
theory Graph_Run
  imports Graph_Build
begin

text \<open>
  What validation guarantees for running a graph.  A run assigns a concrete shape to every value; it
  visits the nodes in an order and applies the operator of each to the shapes of its inputs
  (\<open>op_result\<close>).  A validated graph never reads a value that is not there, its run-time checks reject
  exactly the runs in which an operator is not defined, and every shape is one that the stored
  specification describes.
\<close>

section \<open>Runs\<close>

datatype run_fault = Missing_Input | Rejected | Undefined_Op

definition run_node :: "bool \<Rightarrow> model_graph \<Rightarrow> nat \<Rightarrow> (nat \<Rightarrow> int list option) \<Rightarrow> run_fault + (nat \<Rightarrow> int list option)" where
  "run_node checked g n env =
     (let node = nodes g ! n; ins = map env (node_inputs node); xs = map the ins
      in if None \<in> set ins then Inl Missing_Input
         else if checked \<and> ValidateShapeConstraints (node_checks node) xs [] \<noteq> Inr () then Inl Rejected
         else case op_result (node_op node) (params_of node) xs of
           None \<Rightarrow> Inl Undefined_Op
         | Some ys \<Rightarrow> Inr (env(node_outputs node [\<mapsto>] ys)))"

primrec run_nodes :: "bool \<Rightarrow> model_graph \<Rightarrow> nat list \<Rightarrow> (nat \<Rightarrow> int list option) \<Rightarrow> run_fault + (nat \<Rightarrow> int list option)" where
  "run_nodes checked g [] env = Inr env"
| "run_nodes checked g (n # ns) env = and_then (run_node checked g n env) (run_nodes checked g ns)"

section \<open>What validation establishes\<close>

lemma spec_eq_shape: "spec_eq a b = Inr True \<Longrightarrow> spec_shape a = spec_shape b"
  by (auto simp: spec_eq_def)

lemma validated_node:
  assumes "validate_node g n = Inr u"
  obtains derived where
    "InferOperator (node_op (nodes g ! n)) (params_of (nodes g ! n)) (map (\<lambda>v. spec (vals g ! v)) (node_inputs (nodes g ! n))) = Inr derived"
    "node_checks (nodes g ! n) = runtime_checks derived" "length (outputs derived) = length (node_outputs (nodes g ! n))"
    "\<And>i. i < length (node_outputs (nodes g ! n)) \<Longrightarrow> spec_shape (spec (vals g ! (node_outputs (nodes g ! n) ! i))) = spec_shape (outputs derived ! i)"
    "\<And>v. v \<in> set (node_inputs (nodes g ! n)) \<Longrightarrow> v < length (vals g)"
    "\<And>v. v \<in> set (node_outputs (nodes g ! n)) \<Longrightarrow> v < length (vals g) \<and> producer (vals g ! v) = Some n"
proof -
  let ?n = "nodes g ! n"
  obtain schema derived us ws cs where v:
    "traverse (validate_node_input g schema ?n) [0..<length (node_inputs ?n)] = Inr us"
    "InferOperator (node_op ?n) (params_of ?n) (map (\<lambda>v. spec (vals g ! v)) (node_inputs ?n)) = Inr derived"
    "length (outputs derived) = length (node_outputs ?n)"
    "traverse (validate_node_output g schema n ?n (outputs derived)) [0..<length (node_outputs ?n)] = Inr ws"
    "length (runtime_checks derived) = length (node_checks ?n)"
    "traverse (\<lambda>i. require (ShapeConstraintsEquivalent (runtime_checks derived ! i) (node_checks ?n ! i))) [0..<length (node_checks ?n)] = Inr cs"
    using assms by (auto simp: validate_node_def Let_def split: if_splits)
  have "node_checks ?n = runtime_checks derived"
    using traverse_units [OF v(6)] v(5) by (intro nth_equalityI) (auto simp: ShapeConstraintsEquivalent_def)
  moreover have out: "v < length (vals g) \<and> producer (vals g ! v) = Some n \<and> spec_shape (spec (vals g ! v)) = spec_shape (outputs derived ! i)"
    if "i < length (node_outputs ?n)" "v = node_outputs ?n ! i" for i v
    using traverse_units [OF v(4), of i] that
    by (auto simp: validate_node_output_def IsValidValueId_def Let_def dest: spec_eq_shape split: if_splits)
  moreover have "w < length (vals g)" if w: "w \<in> set (node_inputs ?n)" for w
  proof -
    obtain i where "i < length (node_inputs ?n)" "w = node_inputs ?n ! i" using w by (auto simp: in_set_conv_nth)
    then show ?thesis using traverse_units [OF v(1), of i] by (auto simp: validate_node_input_def IsValidValueId_def Let_def split: if_splits)
  qed
  ultimately show thesis using that [OF v(2) _ v(3)] by (metis in_set_conv_nth)
qed

lemma validated_value:
  assumes "ValidateValueSelfConsistency v i ns = Inr u" and "producer v = Some p"
  shows "CarriesProducerDependency v" and "p < length ns" and "i \<in> set (node_outputs (ns ! p))"
  using assms
  by (auto simp: ValidateValueSelfConsistency_def CarriesProducerDependency_def IsValidNodeId_def NodeListsOutput_def split: payload.splits if_splits)

lemma validatedE:
  assumes "ValidateAndTopologicalOrder g = Some (Inr order)"
  shows "topological g order" and "edges_ok g" and "\<And>n. n < length (nodes g) \<Longrightarrow> \<exists>u. validate_node g n = Inr u"
    and "\<And>i. i < length (vals g) \<Longrightarrow> \<exists>u. ValidateValueSelfConsistency (vals g ! i) i (nodes g) = Inr u"
proof -
  obtain us ws where v: "traverse (\<lambda>i. ValidateValueSelfConsistency (vals g ! i) i (nodes g)) [0..<length (vals g)] = Inr us"
    "traverse (validate_node g) [0..<length (nodes g)] = Inr ws" "TopologicalOrder g = Some (Inr order)"
    using assms by (auto simp: ValidateAndTopologicalOrder_def split: sum.splits)
  show "topological g order" "edges_ok g" using TopologicalOrder_cases [of g] v(3) by auto
  show "\<exists>u. validate_node g n = Inr u" if "n < length (nodes g)" for n using traverse_units [OF v(2)] that by simp
  show "\<exists>u. ValidateValueSelfConsistency (vals g ! i) i (nodes g) = Inr u" if "i < length (vals g)" for i
    using traverse_units [OF v(1)] that by simp
qed

section \<open>One node\<close>

lemma map_upds_index:
  "length vs = length ys \<Longrightarrow> v \<in> set vs \<Longrightarrow> \<exists>i < length vs. vs ! i = v \<and> (m(vs [\<mapsto>] ys)) v = Some (ys ! i)"
proof (induction vs arbitrary: ys m)
  case (Cons w vs)
  then obtain y zs where y: "ys = y # zs" "length vs = length zs" by (cases ys) auto
  show ?case
  proof (cases "v \<in> set vs")
    case True
    obtain i where "i < length vs" "vs ! i = v" "(m(w \<mapsto> y, vs [\<mapsto>] zs)) v = Some (zs ! i)"
      using Cons.IH [OF y(2) True, of "m(w \<mapsto> y)"] by blast
    then show ?thesis unfolding y(1) map_upds_Cons by (intro exI [of _ "Suc i"]) simp
  next
    case False
    then show ?thesis using Cons.prems y by (intro exI [of _ 0]) simp
  qed
qed simp

abbreviation described :: "(int \<Rightarrow> int) \<Rightarrow> model_graph \<Rightarrow> (nat \<Rightarrow> int list option) \<Rightarrow> nat \<Rightarrow> bool" where
  "described \<sigma> g env v \<equiv> \<exists>x. env v = Some x \<and> shape_denotes \<sigma> (spec_shape (spec (vals g ! v))) x"

definition covered :: "model_graph \<Rightarrow> bool" where
  "covered g \<longleftrightarrow> (\<forall>n < length (nodes g). node_op (nodes g ! n) \<noteq> kReshape \<and>
     (node_op (nodes g ! n) = kArgmax \<longrightarrow> IsRanked (spec_shape (spec (vals g ! (node_inputs (nodes g ! n) ! 0))))))"

lemma run_node_ok:
  assumes val: "validate_node g n = Inr u" and n: "n < length (nodes g)" and cov: "covered g"
    and ins: "\<And>v. v \<in> set (node_inputs (nodes g ! n)) \<Longrightarrow> described \<sigma> g env v"
  shows "run_node True g n env = Inl Rejected \<and> run_node False g n env = Inl Undefined_Op \<or>
    (\<exists>env'. run_node True g n env = Inr env' \<and> run_node False g n env = Inr env' \<and>
       (\<forall>v. v \<in> set (node_outputs (nodes g ! n)) \<longrightarrow> described \<sigma> g env' v) \<and>
       (\<forall>v. v \<notin> set (node_outputs (nodes g ! n)) \<longrightarrow> env' v = env v))"
proof -
  let ?n = "nodes g ! n"
  let ?specs = "map (\<lambda>v. spec (vals g ! v)) (node_inputs ?n)" and ?xs = "map the (map env (node_inputs ?n))"
  obtain derived where d: "InferOperator (node_op ?n) (params_of ?n) ?specs = Inr derived" "node_checks ?n = runtime_checks derived"
    "length (outputs derived) = length (node_outputs ?n)"
    "\<And>i. i < length (node_outputs ?n) \<Longrightarrow> spec_shape (spec (vals g ! (node_outputs ?n ! i))) = spec_shape (outputs derived ! i)"
    using validated_node [OF val] by metis
  have len: "node_inputs ?n \<noteq> []" if "node_op ?n = kArgmax"
    using d(1) that by (auto simp: InferOperator_def InferArgmax_def input_count arity_def split: op_params.splits if_splits)
  have "exact (node_op ?n) (params_of ?n) ?specs derived"
    using InferOperator_exact [OF d(1)] cov n len by (simp add: covered_def)
  moreover have "shape_denotes \<sigma> (spec_shape (spec (vals g ! v))) (the (env v))" if "v \<in> set (node_inputs ?n)" for v
    using ins [OF that] by auto
  then have "describes \<sigma> (map spec_shape ?specs) ?xs" by (simp add: describes_def list_all2_conv_all_nth)
  ultimately have ex: "ValidateShapeConstraints (node_checks ?n) ?xs [] = Inr () \<longleftrightarrow> op_result (node_op ?n) (params_of ?n) ?xs \<noteq> None"
    "\<And>ys. op_result (node_op ?n) (params_of ?n) ?xs = Some ys \<Longrightarrow> describes \<sigma> (map spec_shape (outputs derived)) ys"
    unfolding exact_def d(2) by blast+
  have some: "None \<notin> set (map env (node_inputs ?n))" using ins by fastforce
  show ?thesis
  proof (cases "op_result (node_op ?n) (params_of ?n) ?xs")
    case None
    then show ?thesis using ex(1) some by (simp add: run_node_def Let_def)
  next
    case (Some ys)
    let ?env = "env(node_outputs ?n [\<mapsto>] ys)"
    have y: "length ys = length (node_outputs ?n)" "\<And>i. i < length ys \<Longrightarrow> shape_denotes \<sigma> (spec_shape (outputs derived ! i)) (ys ! i)"
      using describes_nth [OF ex(2) [OF Some]] d(3) by auto
    have "described \<sigma> g ?env v" if "v \<in> set (node_outputs ?n)" for v
      using map_upds_index [OF y(1) [symmetric] that, of env] y d(4) by fastforce
    moreover have "?env v = env v" if "v \<notin> set (node_outputs ?n)" for v using that by (simp add: map_upds_apply_nontin)
    ultimately show ?thesis using Some ex(1) some by (simp add: run_node_def Let_def)
  qed
qed

section \<open>The whole graph\<close>

lemma run_nodes_ok:
  assumes val: "ValidateAndTopologicalOrder g = Some (Inr order)" and cov: "covered g" and order: "order = ns @ ms"
    and env: "\<And>v. v < length (vals g) \<Longrightarrow> (case producer (vals g ! v) of None \<Rightarrow> True | Some p \<Rightarrow> p \<in> set ns) \<Longrightarrow> described \<sigma> g env v"
  shows "run_nodes True g ms env = Inl Rejected \<and> run_nodes False g ms env = Inl Undefined_Op \<or>
    (\<exists>env'. run_nodes True g ms env = Inr env' \<and> run_nodes False g ms env = Inr env' \<and> (\<forall>v < length (vals g). described \<sigma> g env' v))"
  using order env
proof (induction ms arbitrary: ns env)
  case Nil
  have "described \<sigma> g env v" if v: "v < length (vals g)" for v
  proof (rule Nil.prems(2) [OF v])
    obtain u where "ValidateValueSelfConsistency (vals g ! v) v (nodes g) = Inr u" using validatedE(4) [OF val v] by blast
    then have "p \<in> set ns" if "producer (vals g ! v) = Some p" for p
      using validated_value(2) [OF _ that] validatedE(1) [OF val] Nil.prems(1) by (auto simp: topological_def)
    then show "case producer (vals g ! v) of None \<Rightarrow> True | Some p \<Rightarrow> p \<in> set ns" by (simp split: option.splits)
  qed
  then show ?case by simp
next
  case (Cons n ms)
  have top: "topological g (ns @ n # ms)" using validatedE(1) [OF val] Cons.prems(1) by simp
  then have n: "n < length (nodes g)" "set (deps g n) \<subseteq> set ns"
    using top [unfolded topological_def, THEN conjunct2, THEN conjunct2, rule_format, of "length ns"] by (auto simp: topological_def)
  obtain u where u: "validate_node g n = Inr u" using validatedE(3) [OF val n(1)] by blast
  note io = validated_node [OF u]
  have bound: "v < length (vals g)" if "v \<in> set (node_inputs (nodes g ! n))" for v using io that by metis
  have out: "v < length (vals g) \<and> producer (vals g ! v) = Some n" if "v \<in> set (node_outputs (nodes g ! n))" for v using io that by metis
  have "described \<sigma> g env v" if v: "v \<in> set (node_inputs (nodes g ! n))" for v
  proof (rule Cons.prems(2) [OF bound [OF v]])
    obtain w where "ValidateValueSelfConsistency (vals g ! v) v (nodes g) = Inr w" using validatedE(4) [OF val bound [OF v]] by blast
    then have "p \<in> set ns" if p: "producer (vals g ! v) = Some p" for p
    proof -
      have "CarriesProducerDependency (vals g ! v)" using validated_value(1) [OF \<open>_ = Inr w\<close> p] .
      then have "p \<in> set (deps g n)" using v p by (force simp: deps_def deps_of_def)
      then show ?thesis using n(2) by blast
    qed
    then show "case producer (vals g ! v) of None \<Rightarrow> True | Some p \<Rightarrow> p \<in> set ns" by (simp split: option.splits)
  qed
  note step = run_node_ok [OF u n(1) cov this]
  then consider "run_node True g n env = Inl Rejected" "run_node False g n env = Inl Undefined_Op"
    | env' where "run_node True g n env = Inr env'" "run_node False g n env = Inr env'"
      "\<forall>v. v \<in> set (node_outputs (nodes g ! n)) \<longrightarrow> described \<sigma> g env' v" "\<forall>v. v \<notin> set (node_outputs (nodes g ! n)) \<longrightarrow> env' v = env v"
    by blast
  then show ?case
  proof cases
    case 1
    then show ?thesis by simp
  next
    case 2
    have "described \<sigma> g env' v" if v: "v < length (vals g)" "case producer (vals g ! v) of None \<Rightarrow> True | Some p \<Rightarrow> p \<in> set (ns @ [n])" for v
    proof (cases "v \<in> set (node_outputs (nodes g ! n))")
      case False
      obtain w where w: "ValidateValueSelfConsistency (vals g ! v) v (nodes g) = Inr w" using validatedE(4) [OF val v(1)] by blast
      have "producer (vals g ! v) \<noteq> Some n" using validated_value(3) [OF w, of n] False by blast
      then have "described \<sigma> g env v" using v by (intro Cons.prems(2)) (auto split: option.splits)
      then show ?thesis using 2(4) False by simp
    qed (use 2(3) in blast)
    from Cons.IH [of "ns @ [n]" env', OF _ this] Cons.prems(1) 2(1,2) show ?thesis by simp
  qed
qed



end
