(* ===== verification/Spec2Isabelle.thy ===== *)
theory Spec2Isabelle
  imports Page_Scavenger Graph_Run
begin

text \<open>
  This library models and verifies three parts of AetherMind, a C++20 inference runtime: its memory
  allocator \<open>ammalloc\<close>, the static checking of tensor operators (shapes, element types, operator
  inference) and the computation graph, whose nodes are checked by this inference.  File names
  below are relative to \<open>src/\<close>.

  \<^bold>\<open>The allocator\<close> (\<open>ammalloc/\<close>).  \<open>am_malloc\<close> serves small requests from a cache of the calling thread.
  The thread cache fetches batches from the central cache, which carves spans of pages into objects
  of one size class.  Spans come from the page cache, which splits and merges page ranges and finds
  the span of an address through a radix tree.  The page cache is fed by the page allocator, which
  calls the operating system.  Requests above 32 KiB go to the page cache directly.

  \<^item> \<open>Am_Prelude\<close>: machine integers, the functions of the C++ header \<open>bit\<close>, generic lemmas.
  \<^item> \<open>Size_Class\<close>: \<open>config.h\<close> and \<open>size_class.h\<close>; \<open>Am_Common\<close>: \<open>common.h\<close>.  \<open>Index\<close> picks the smallest
    class that fits, and \<open>Index\<close> and \<open>Size\<close> are inverse.  Interface \<open>size_ladder\<close>.
  \<^item> \<open>Am_Span\<close>: \<open>span.h\<close>, \<open>span.cpp\<close>; the bitmap of a span as words.  \<open>Init\<close> places bitmap and objects
    disjointly; \<open>AllocObject\<close> hands out the lowest free slot and \<open>FreeObject\<close> undoes it.  Interface
    \<open>object_pool\<close>.
  \<^item> \<open>Span_List\<close>: the circular doubly linked list of \<open>span.h\<close> on an explicit store of links.  It implements
    sequences (interface \<open>span_sequence\<close>), which later theories use instead.  \<open>Free_List\<close>: the chain
    through free objects of \<open>central_cache.h\<close>, likewise (interface \<open>lifo\<close>).
  \<^item> \<open>Page_Map\<close>: the four-level radix tree of \<open>page_cache.cpp\<close>; it implements a flat map (interface
    \<open>page_table\<close>).
  \<^item> \<open>Huge_Page_Cache\<close>, \<open>Page_Allocator\<close>, \<open>Object_Pool\<close>: \<open>page_allocator.h\<close> and \<open>.cpp\<close>.  The system calls are
    the record \<open>os\<close>, an argument of every operation; \<open>kernel_ok\<close> states the documented behaviour of
    \<open>mmap\<close>, \<open>munmap\<close> and \<open>madvise\<close>.  New memory never overlaps memory in use, and freeing gives up exactly
    the given range.  Interface \<open>page_stack\<close>.
  \<^item> \<open>Page_Cache\<close> (the code of \<open>page_cache.cpp\<close>), \<open>Page_Cache_Alloc\<close> (the invariant \<open>pc_inv\<close> and allocation),
    \<open>Page_Cache_Release\<close> (merging and reset).  The loops end; spans never share a page; a released span
    merges with every free neighbour.
  \<^item> \<open>Central_Cache\<close> (the code of \<open>central_cache.h\<close> and \<open>.cpp\<close>), \<open>Central_Cache_Inv\<close> (the invariant \<open>cc_inv\<close>,
    which accounts for every object handed out, and the release path), \<open>Central_Cache_Fetch\<close> (the fetch
    path, the transfer cache and reset).
  \<^item> \<open>Thread_Cache\<close>: \<open>thread_cache.h\<close> and \<open>.cpp\<close>, with the growth and decay of the quotas.
  \<^item> \<open>Am_Malloc\<close>: \<open>ammalloc.cpp\<close>.  The state of all threads, \<open>am_malloc\<close>, \<open>am_free\<close> and the end of a thread.
    The invariant \<open>am_inv\<close> accounts for every object and span in or out of the caches.
  \<^item> \<open>Page_Scavenger\<close>: \<open>page_heap_scavenger.cpp\<close>, the thread that discards idle pages, one locked region or
    system call at a time.  The relation \<open>am_trace\<close> mixes its steps with calls of all threads in any order;
    every state it reaches has disjoint held blocks, the next call returns, and no memory of the
    program is ever discarded.

  Each call of \<open>am_malloc\<close> or \<open>am_free\<close> is one step; the interleaving of the locked regions of two such
  calls is not modelled.  Loops whose end depends on the
  state are \<open>partial_function (option)\<close>, where \<open>None\<close> means that the loop does not end; the theorems state
  that it does.  There is no fuel anywhere in the development.

  \<^bold>\<open>Operator inference\<close> (\<open>include/aethermind/\<close>, \<open>src/\<close>).  A tensor specification is an element type and a
  symbolic shape.  Inference computes the specifications of an operator's outputs and leaves the
  constraints that only runtime shapes can decide.  A symbolic dimension is a size, a named symbol
  or unknown.  \<open>denotes\<close> relates it to the sizes it stands for under an assignment of the symbols;
  the theorems on shapes are stated through this relation.

  \<^item> \<open>Am_Result\<close>: the error model of \<open>status.h\<close>.  An error is \<open>Error code\<close>, a failed \<open>AM_CHECK\<close> ends the process
    and is \<open>Check_Failed\<close>.
  \<^item> \<open>Overflow_Check\<close>: \<open>overflow_check.h\<close>, the builtin and the portable variants, compared at 64 bits.
  \<^item> \<open>Shape_Symbol\<close>, \<open>Broadcast\<close>, \<open>Shape_Constraint\<close>: \<open>shape_symbol.cpp\<close>, \<open>broadcast.cpp\<close>,
    \<open>shape_constraint_evaluator.cpp\<close>.  Unification and joins describe the right shapes, broadcast strides
    read the right elements, a constraint decided symbolically is decided alike at run time.
  \<^item> \<open>Symbol_Solver\<close>: \<open>symbol_constraint_solver.cpp\<close>, a union-find structure.  It answers exactly what
    follows from the equations it was given.
  \<^item> \<open>Data_Type\<close>: \<open>data_type.h\<close> and \<open>.cpp\<close>.
  \<^item> \<open>Operator_Schema\<close>: operator types, parameters, schemas and supported element types.
  \<^item> \<open>Operator_Inference\<close>, \<open>Reshape_Inference\<close>: the \<open>Infer...\<close> function of each of the sixteen operators and
    the dispatch \<open>InferOperator\<close>.  \<open>op_result\<close> is the specification: the output shapes of an operator on
    runtime shapes, or that it is undefined.  Inference never ends the process.

  \<^bold>\<open>The graph\<close> (\<open>include/aethermind/graph/\<close>, \<open>src/graph/\<close>).  A graph has nodes, the operators, and values,
  each with its tensor specification and the node that produces it.

  \<^item> \<open>Model_Graph\<close>: \<open>graph_types.h\<close>, \<open>graph.h\<close> and \<open>graph.cpp\<close>; construction, whole-graph validation, the
    topological order and the index of consumers.
  \<^item> \<open>Graph_Order\<close>: \<open>TopologicalOrder\<close> always ends, with an order that respects the dependencies, or with an
    error when there is none.
  \<^item> \<open>Graph_Build\<close>: the relation \<open>built\<close> of the graphs that the interface can build.  Validation accepts
    all of them, because it replays on a node what \<open>AddNode\<close> has checked, and because nothing added later
    changes what it reads.  An output declared as a constant is the exception.
  \<^item> \<open>Graph_Run\<close>: runs of a validated graph without Reshape nodes on runtime shapes.  No node misses an input, every shape is
    one that the stored specification describes, and the stored checks reject exactly the runs in which
    some operator is undefined.

  \<^bold>\<open>Not modelled\<close>.  In the allocator: the variant of the page cache without shards, the reading of
  environment variables (the model takes the flags as arguments), lock-free races inside one call,
  and logging.  In the inference engine: messages and text formats.  In the graph: the
  rewriter, the optimisation passes and the lowering to an execution plan, and the builder functions
  that only collect arguments for \<open>AddNode\<close>.  Outside of these parts: tensors and reference-counted
  objects, whose contracts are about C++ object lifetime; kernels and small floating-point types,
  which need IEEE arithmetic; model loading, which is file input; generic containers, which the
  modelled parts do not use; tests and benchmarks.
\<close>

end
